(* ===== verification/Prelude.thy ===== *)
theory Prelude
  imports Main "HOL-Library.Word"
begin

unbundle bit_operations_syntax

section \<open>Machine types, faults and shared lemmas\<close>

text \<open>
  The types every component uses: the C integer types as words of their width, kernel
  addresses as 64-bit words with 0 as NULL, and the result of an operation that can run into
  undefined behaviour. A NULL or wild dereference, an access out of an array's bounds, a
  remainder by zero, a second acquisition of a spin lock, a use after kfree: each is a value of
  \<open>fault\<close>, and an operation returns \<open>fault + 'a\<close>.
\<close>

type_synonym u8 = "8 word"
type_synonym u16 = "16 word"
type_synonym u32 = "32 word"
type_synonym u64 = "64 word"
type_synonym s32 = "32 word"
type_synonym addr = "64 word"

abbreviation (input) NULL :: addr where
  "NULL \<equiv> 0"

datatype fault =
    NullDeref
  | BadAccess addr
  | OutOfBounds nat
  | DivByZero
  | Deadlock
  | UseAfterFree addr

type_synonym 'a res = "fault + 'a"

text \<open>Sequencing: the first fault ends the operation.\<close>

fun bindE :: "'e + 'a \<Rightarrow> ('a \<Rightarrow> 'e + 'b) \<Rightarrow> 'e + 'b" where
  "bindE (Inl e) f = Inl e"
| "bindE (Inr x) f = f x"

lemma bindE_Inr_iff [simp]: "bindE m f = Inr y \<longleftrightarrow> (\<exists>x. m = Inr x \<and> f x = Inr y)"
  by (cases m) auto

lemma bindE_assoc: "bindE (bindE m f) g = bindE m (\<lambda>x. bindE (f x) g)"
  by (cases m) auto

text \<open>
  The same for operations with loops that may never end, which return \<open>None\<close> then.
\<close>

fun bindO :: "('e + 'a) option \<Rightarrow> ('a \<Rightarrow> ('e + 'b) option) \<Rightarrow> ('e + 'b) option" where
  "bindO None f = None"
| "bindO (Some (Inl e)) f = Some (Inl e)"
| "bindO (Some (Inr x)) f = f x"

lemma bindO_Inr_iff: "bindO m f = Some (Inr y) \<longleftrightarrow> (\<exists>x. m = Some (Inr x) \<and> f x = Some (Inr y))"
  by (cases "(m, f)" rule: bindO.cases) auto

lemma bindO_mono [partial_function_mono]:
  assumes "mono_option m" and "\<And>y. mono_option (\<lambda>f. c y f)"
  shows "mono_option (\<lambda>f. bindO (m f) (\<lambda>y. c y f))"
proof -
  have alt: "bindO r g = Option.bind r (\<lambda>x. case x of Inl e \<Rightarrow> Some (Inl e) | Inr y \<Rightarrow> g y)" for r g
    by (cases "(r, g)" rule: bindO.cases) auto
  have "mono_option (\<lambda>f. case x of Inl e \<Rightarrow> Some (Inl e) | Inr y \<Rightarrow> c y f)" for x
    using assms(2) by (cases x) (simp_all add: monotoneI option.leq_refl)
  then show ?thesis unfolding alt by (rule bind_mono [OF assms(1)])
qed

text \<open>Array accesses, with the array's bounds.\<close>

definition rd :: "'a list \<Rightarrow> nat \<Rightarrow> 'a res" where
  "rd xs i = (if i < length xs then Inr (xs ! i) else Inl (OutOfBounds i))"

definition wr :: "'a list \<Rightarrow> nat \<Rightarrow> 'a \<Rightarrow> 'a list res" where
  "wr xs i v = (if i < length xs then Inr (xs[i := v]) else Inl (OutOfBounds i))"

lemma rd_in [simp]: "i < length xs \<Longrightarrow> rd xs i = Inr (xs ! i)"
  by (simp add: rd_def)

lemma wr_in [simp]: "i < length xs \<Longrightarrow> wr xs i v = Inr (xs[i := v])"
  by (simp add: wr_def)

lemma rd_Inr_iff: "rd xs i = Inr v \<longleftrightarrow> i < length xs \<and> v = xs ! i"
  by (auto simp: rd_def)

lemma wr_Inr_iff: "wr xs i v = Inr ys \<longleftrightarrow> i < length xs \<and> ys = xs[i := v]"
  by (auto simp: wr_def)

subsection \<open>Transition systems\<close>

text \<open>
  Several host threads, a controller, devices that come and go: what they do in some order is a
  run, the reflexive transitive closure of a step relation. The two locales are the interfaces of the step relations
  below: steps that keep an invariant, and steps that an abstract specification can take too, as seen through
  a view of the state; a step the view does not show counts as no step.
\<close>

locale step_invariant =
  fixes step :: "'s \<Rightarrow> 's \<Rightarrow> bool" and inv :: "'s \<Rightarrow> bool"
  assumes step_keeps: "step x y \<Longrightarrow> inv x \<Longrightarrow> inv y"
begin

lemma run_keeps: "step\<^sup>*\<^sup>* x y \<Longrightarrow> inv x \<Longrightarrow> inv y"
  by (induction rule: rtranclp_induct) (auto intro: step_keeps)

end

locale simulation = step_invariant +
  fixes view :: "'s \<Rightarrow> 'v" and spec :: "'v \<Rightarrow> 'v \<Rightarrow> bool"
  assumes step_simulated: "step x y \<Longrightarrow> inv x \<Longrightarrow> view y = view x \<or> spec (view x) (view y)"
begin

lemma run_simulated: "step\<^sup>*\<^sup>* x y \<Longrightarrow> inv x \<Longrightarrow> spec\<^sup>*\<^sup>* (view x) (view y)"
proof (induction rule: rtranclp_induct)
  case (step y z)
  then have "view z = view y \<or> spec (view y) (view z)"
    using step_simulated run_keeps by blast
  with step show ?case by (auto intro: rtranclp.rtrancl_into_rtrancl)
qed simp

end

text \<open>
  A larger system has this one as a part: each of its steps, seen through a projection, is a run of the part.
\<close>

lemma run_projects:
  assumes "\<And>x y. step' x y \<Longrightarrow> step\<^sup>*\<^sup>* (f x) (f y)"
  shows "step'\<^sup>*\<^sup>* x y \<Longrightarrow> step\<^sup>*\<^sup>* (f x) (f y)"
  by (induction rule: rtranclp_induct) (auto intro: rtranclp_trans assms)

subsection \<open>Words\<close>

text \<open>
  The C conversions are \<open>ucast\<close>: an unsigned value keeps its value in a wider type and is
  reduced modulo the width in a narrower one.
\<close>

named_theorems word_nat

lemma unat_ucast_mod: "unat (ucast (x :: 'a::len word) :: 'b::len word) = unat x mod 2 ^ LENGTH('b)"
  by (simp add: unsigned_ucast_eq take_bit_eq_mod)

lemma unat_u8: "unat (x :: u8) < 256"
  using unsigned_less [of x] by simp

lemma unat_u16: "unat (x :: u16) < 65536"
  using unsigned_less [of x] by simp

lemma unat_u32: "unat (x :: u32) < 4294967296"
  using unsigned_less [of x] by simp

lemma unat_u64: "unat (x :: u64) < 18446744073709551616"
  using unsigned_less [of x] by simp

lemma unat_ucast_u8_u64 [word_nat]: "unat (ucast (x :: u8) :: u64) = unat x"
  using unat_u8 [of x] by (simp add: unat_ucast_mod)

lemma unat_ucast_u16_u64 [word_nat]: "unat (ucast (x :: u16) :: u64) = unat x"
  using unat_u16 [of x] by (simp add: unat_ucast_mod)

lemma unat_ucast_u32_u64 [word_nat]: "unat (ucast (x :: u32) :: u64) = unat x"
  using unat_u32 [of x] by (simp add: unat_ucast_mod)

lemma unat_ucast_u16_u32 [word_nat]: "unat (ucast (x :: u16) :: u32) = unat x"
  using unat_u16 [of x] by (simp add: unat_ucast_mod)

lemma unat_ucast_u8_u32 [word_nat]: "unat (ucast (x :: u8) :: u32) = unat x"
  using unat_u8 [of x] by (simp add: unat_ucast_mod)

lemma word_eq_unat: "(x :: 'a::len word) = y \<longleftrightarrow> unat x = unat y"
  by (simp add: word_unat_eq_iff)

lemma drop_bit_unat: "unat (drop_bit n (x :: 'a::len word)) = unat x div 2 ^ n"
  by (simp add: unat_drop_bit_eq flip: drop_bit_eq_div)

lemma and_mask_unat: "unat (x AND mask n :: 'a::len word) = unat x mod 2 ^ n"
  by (simp add: unsigned_take_bit_eq flip: take_bit_eq_mask) (simp add: take_bit_eq_mod)

text \<open>Two 16-bit fields packed in a word.\<close>

lemma pack_halves:
  fixes hi lo :: u32
  assumes "unat hi < 65536" and "unat lo < 65536"
  shows "unat (push_bit 16 hi OR lo) = unat hi * 65536 + unat lo"
proof -
  have "push_bit 16 hi AND lo = 0"
  proof (rule bit_word_eqI)
    fix n assume "n < LENGTH(32)"
    have "\<not> bit lo n" if "16 \<le> n"
    proof -
      have "lo = take_bit 16 lo" using assms(2) by (simp add: word_eq_unat unsigned_take_bit_eq take_bit_nat_eq_self)
      with that show ?thesis by (metis bit_take_bit_iff linorder_not_le)
    qed
    then show "bit (push_bit 16 hi AND lo) n \<longleftrightarrow> bit (0 :: u32) n"
      by (auto simp: bit_simps)
  qed
  then have "push_bit 16 hi OR lo = push_bit 16 hi + lo" by (simp add: disjunctive_add_eq_or)
  moreover have "unat (push_bit 16 hi) = unat hi * 65536"
    using assms(1) by (simp add: push_bit_eq_mult unat_word_ariths)
  ultimately show ?thesis
    using assms by (simp add: unat_word_ariths)
qed

end
