(* ===== verification/Bafs_Utils.thy ===== *)
theory Bafs_Utils
  imports Prelude
begin

section \<open>Bit fields and register offsets (common/bafs_utils.h)\<close>

text \<open>
  The macros of \<open>common/bafs_utils.h\<close>: masks of low bits, the field \<open>_RDBITS(val, high, low)\<close>
  and the register views \<open>_REG\<close>. The masks are computed in \<open>unsigned long long\<close>, so they are
  64-bit words here and a narrower value is widened first. A shift by 64 or more is undefined in
  C; every use in the driver has constant bit numbers below 63.
\<close>

definition BIT_MASK :: "nat \<Rightarrow> u64" where
  "BIT_MASK num_bits = push_bit num_bits 1 - 1"

definition SBIT_MASK :: "nat \<Rightarrow> u64" where
  "SBIT_MASK num_bits = push_bit num_bits 1"

definition RBIT_MASK :: "nat \<Rightarrow> nat \<Rightarrow> u64" where
  "RBIT_MASK high low = BIT_MASK (high + 1) - BIT_MASK low"

definition RDBITS :: "u64 \<Rightarrow> nat \<Rightarrow> nat \<Rightarrow> u64" where
  "RDBITS val high low = drop_bit low (val AND RBIT_MASK high low)"

lemma BIT_MASK_mask: "BIT_MASK n = mask n"
  by (simp add: BIT_MASK_def mask_eq_exp_minus_1 push_bit_eq_mult)

lemma mask_diff_high: "(mask n :: u64) - mask m = mask n AND NOT (mask m)" if "m \<le> n"
proof -
  have "(mask n :: u64) = (mask n AND NOT (mask m)) OR mask m"
    using that by (auto intro!: bit_word_eqI simp: bit_simps)
  also have "\<dots> = (mask n AND NOT (mask m)) + mask m"
    by (rule disjunctive_add [symmetric]) (auto simp: bit_simps)
  finally show ?thesis
    by (simp add: algebra_simps)
qed

lemma RDBITS_eq: "RDBITS val high low = drop_bit low val AND mask (Suc high - low)"
  if "low \<le> high"
proof (rule bit_word_eqI)
  fix n
  show "bit (RDBITS val high low) n = bit (drop_bit low val AND mask (Suc high - low)) n"
    using that bit_imp_le_length [of val "low + n"]
    by (auto simp: RDBITS_def RBIT_MASK_def BIT_MASK_mask mask_diff_high bit_simps less_diff_conv)
qed

lemma RDBITS_nat:
  "low \<le> high \<Longrightarrow> unat (RDBITS val high low) = unat val div 2 ^ low mod 2 ^ (high + 1 - low)"
  by (simp add: RDBITS_eq and_mask_unat drop_bit_unat)

text \<open>
  The field macro of bafs_utils.h reads the bits high down to low of its value: as a number
  it is the value divided by 2 to the low, modulo 2 to the number of bits of the field. The
  bound on high is where the macro's shift is defined in C.
\<close>

lemma RDBITS_field:
  assumes "low \<le> high" and "high < 63"
  shows "unat (RDBITS val high low) = unat val div 2 ^ low mod 2 ^ (high + 1 - low)"
  by (rule RDBITS_nat [OF assms(1)])

lemma RDBITS_less: "unat (RDBITS val high low) < 2 ^ (high + 1 - low)" if "low \<le> high"
  using that by (simp add: RDBITS_eq and_mask_unat)

subsection \<open>Register views\<close>

text \<open>
  \<open>_REG(regptr, offset, type)\<close> is the address \<open>offset\<close> bytes past a pointer; the type says how
  many bytes a read through it takes. Reads are little endian, as on the driver's targets.
\<close>

definition REG :: "addr \<Rightarrow> u64 \<Rightarrow> addr" where
  "REG regptr offset = regptr + offset"

definition BAFS_IOCMD_CID :: "addr \<Rightarrow> addr" where
  "BAFS_IOCMD_CID ptr = REG ptr 2"

definition BAFS_IOCMD_NSID :: "addr \<Rightarrow> addr" where
  "BAFS_IOCMD_NSID ptr = REG ptr 4"

definition BAFS_CQ_SQHP :: "addr \<Rightarrow> addr" where
  "BAFS_CQ_SQHP ptr = REG ptr 8"

definition BAFS_CQ_SQID :: "addr \<Rightarrow> addr" where
  "BAFS_CQ_SQID ptr = REG ptr 10"

definition BAFS_CQ_CID :: "addr \<Rightarrow> addr" where
  "BAFS_CQ_CID ptr = REG ptr 12"

definition BAFS_CQ_STS :: "addr \<Rightarrow> addr" where
  "BAFS_CQ_STS ptr = REG ptr 14"

text \<open>A load of a 16- or 32-bit value through such a pointer, from byte memory.\<close>

definition ld16 :: "(addr \<Rightarrow> u8) \<Rightarrow> addr \<Rightarrow> u16" where
  "ld16 m a = ucast (m a) OR push_bit 8 (ucast (m (a + 1)))"

definition ld32 :: "(addr \<Rightarrow> u8) \<Rightarrow> addr \<Rightarrow> u32" where
  "ld32 m a = ucast (m a) OR push_bit 8 (ucast (m (a + 1)))
     OR push_bit 16 (ucast (m (a + 2))) OR push_bit 24 (ucast (m (a + 3)))"

lemma bit_ld16: "bit (ld16 m a) n \<longleftrightarrow>
    (if n < 8 then bit (m a) n else n < 16 \<and> bit (m (a + 1)) (n - 8))"
  by (auto simp: ld16_def bit_simps dest: bit_imp_le_length)

lemma bit_ld32: "bit (ld32 m a) n \<longleftrightarrow>
    (if n < 8 then bit (m a) n
     else if n < 16 then bit (m (a + 1)) (n - 8)
     else if n < 24 then bit (m (a + 2)) (n - 16)
     else n < 32 \<and> bit (m (a + 3)) (n - 24))"
  by (auto simp: ld32_def bit_simps dest: bit_imp_le_length)

lemma ld16_low: "ld16 m a = ucast (ld32 m a)"
  by (auto intro!: bit_word_eqI simp: bit_ld16 bit_ld32 bit_simps)

lemma ld16_high: "ld16 m (a + 2) = ucast (drop_bit 16 (ld32 m a))"
  by (auto intro!: bit_word_eqI simp: bit_ld16 bit_ld32 bit_simps add.assoc)

text \<open>
  The driver's code takes a completion's command id and status word out of dword 3 by
  masking and shifting, and a command's id out of dword 0; the header's byte-offset macros read
  the same sixteen bits of the same entry. For an entry at address p whose dwords are d0 and d3,
  the load at BAFS_CQ_CID is the low half of d3, the load at BAFS_CQ_STS its high half, and the
  load at BAFS_IOCMD_CID the high half of d0.
\<close>

lemma field_macros_agree_with_dwords:
  "ld16 m (BAFS_CQ_CID p) = ucast (ld32 m (p + 12) AND 0x0000ffff)
   \<and> ld16 m (BAFS_CQ_STS p) = ucast (drop_bit 16 (ld32 m (p + 12)))
   \<and> ld16 m (BAFS_IOCMD_CID p) = ucast (drop_bit 16 (ld32 m p))"
proof -
  have "ucast (d AND mask 16) = (ucast d :: u16)" for d :: u32
    by (auto intro!: bit_word_eqI simp: bit_simps)
  then have "ucast (ld32 m (p + 12) AND 0x0000ffff) = (ucast (ld32 m (p + 12)) :: u16)"
    by (simp add: mask_eq_exp_minus_1)
  then show ?thesis
    using ld16_low [of m "p + 12"] ld16_high [of m "p + 12"] ld16_high [of m p]
    by (simp add: BAFS_CQ_CID_def BAFS_CQ_STS_def BAFS_IOCMD_CID_def REG_def add.assoc)
qed

end
