(* ===== verification/Bafs_Error.thy ===== *)
theory Bafs_Error
  imports Bafs_Utils
begin

section \<open>Decoding a completion's status (common/bafs_error.h)\<close>

text \<open>
  The four message tables, \<open>print_error\<close> and \<open>bafs_error\<close>. Strings keep the source's spelling.
  A table access out of bounds is the fault \<open>OutOfBounds\<close>. The kernel module is built with
  \<open>-DKERN\<close> (kernel/nvme/Makefile), so the \<open>KERN\<close> branches are the ones modelled; the printk
  of \<open>bafs_error\<close> has no effect on its result and is left out.
\<close>

definition generic_cmd_status :: "string list" where
  "generic_cmd_status =
    [''Success'',
     ''Invalid Command Opcode'',
     ''Invalid Field in Command'',
     ''Command ID Conflict'',
     ''Data Transfer Error'',
     ''Commands Aborted Due to Power Loss Notification'',
     ''Internal Error. Refer Figure 145'',
     ''Commad Abort Requested'',
     ''Command Aborted due to SQ Deletion'',
     ''Command Aborted due to Failed Fused operation'',
     ''Command Aborted due to Missing Fused command'',
     ''Invalid Namespace or Format'',
     ''Command Sequence Error'',
     ''Invalid SGL Segment Descriptor'',
     ''Invalid Number of SGL Descriptor'',
     ''Data SGL Length Invalid'',
     ''Metadata SGL Length Invalid'',
     ''SGL Desciptor Type Invalid'',
     ''Invalid use of CMB'',
     ''PRP Offset Invalid'',
     ''Atomic Write Unit Exceeded'',
     ''Operation Denied'',
     ''SGL Offset Invalid'',
     ''Reserved'',
     ''Host Identifier Inconsistent Format'',
     ''Keep Alive Timer Expired'',
     ''Keep Alive Timeout Invalid'',
     ''Commmad Aboirted de to Prempt and Abort'',
     ''Santize Failed'',
     ''Santize in Progress'',
     ''SGL Data Block Granularity Invalid'',
     ''Command Not Supported For QUeue in CMB'',
     ''Namespace is Write Protected'',
     ''Command Interrupted'',
     ''Transient Transport Error'',
     ''Reserved'']"

definition generic_nvm_status :: "string list" where
  "generic_nvm_status =
    [''LBA Out of Range'',
     ''Capacity Exceeded'',
     ''Namespace Not Ready'',
     ''Reservation Conflict'',
     ''Format in Progress'']"

definition cmd_specific_status :: "string list" where
  "cmd_specific_status =
    [''Completion Queue Invalid'',
     ''Invalid Queue Identifier'',
     ''Invalid Queue Size'',
     ''Aboirt Command Limit Exceeded'',
     ''Reserved'',
     ''Asynchronous Event Request Limit Execeeded'',
     ''Invalid Firmware Slot'',
     ''Invalid Firmware Image'',
     ''Invalid Interrupt Vector'',
     ''Invalid Log Page'',
     ''Invalid Format'',
     ''Firmware Activation Request Conventional Reset'',
     ''Invalid Queue Deletion'',
     ''Feature Identifier Not Saveable'',
     ''Feature Not Changeable'',
     ''Feature Not Namespace Specific'',
     ''Firmware Activation Requires NVM Subsystem Reset'',
     ''Firmware Activation Requires Controller Reset'',
     ''Firmware Activation Requires Maximum Time Violation'',
     ''Firmware Activation Prohibited'',
     ''Overlapping Range'',
     ''Namespace Insufficient Capacity'',
     ''Namespace Identifier Unavailable'',
     ''Reserved'',
     ''Namespace Already Attached'',
     ''Namespace is Private'',
     ''Namespace Not Attached'',
     ''Thin Provisioning is not supported'',
     ''Controller List Invalid'',
     ''Device Self Test In Progress'',
     ''Boot Partition Write Prohibited'',
     ''Invalid Controller Identifier'',
     ''Invalid Secondary Controller State'',
     ''Invalid Number of Controller Resources'',
     ''Invalid Resource Identifier'',
     ''Santize Prohibited in PMR'',
     ''ANA Group Identifier Invalid'',
     ''ANA Attach Failed'']"

definition nvm_cmd_specific_status :: "string list" where
  "nvm_cmd_specific_status =
    [''Conflicting Attributed'',
     ''Invalid Protection Information'',
     ''Attempted Write To Read Only Range'']"

definition UNPACK_SCT :: "u32 \<Rightarrow> u64" where
  "UNPACK_SCT status = RDBITS (ucast status) 10 8"

definition UNPACK_SC :: "u32 \<Rightarrow> u64" where
  "UNPACK_SC status = RDBITS (ucast status) 7 0"

definition SUCCESS :: "u32 \<Rightarrow> bool" where
  "SUCCESS status \<longleftrightarrow> drop_bit 1 status = 0"

definition print_error :: "u8 \<Rightarrow> u8 \<Rightarrow> string res" where
  "print_error sct sc =
     (if sct = 0x00 then
        (if sc < 0x23 then rd generic_cmd_status (unat sc)
         else if 0x7F < sc \<and> sc < 0x85 then rd generic_nvm_status (unat (sc - 0x80))
         else Inr ''Either Vendor Specific Error or Undefined Error'')
      else if sct = 0x01 then
        (if sc < 0x26 then rd cmd_specific_status (unat sc)
         else if 0x7F < sc \<and> sc < 0x83 then rd nvm_cmd_specific_status (unat (sc - 0x80))
         else Inr ''Either Vendor Specific Error or Undefined Error'')
      else if sct = 0x02 then Inr ''Media Specific Error - Error Code Not implemented''
      else Inr ''Unknown Status Code Type'')"

definition bafs_error :: "u32 \<Rightarrow> string res" where
  "bafs_error status =
     (let sct = ucast (UNPACK_SCT status);
          sc = ucast (UNPACK_SC status)
      in if sct \<noteq> 0 \<or> sc \<noteq> 0 then print_error sct sc
         else if SUCCESS status then Inr ''Success''
         else Inr ''Unknown'')"

lemma table_lengths [simp]:
  "length generic_cmd_status = 36"
  "length generic_nvm_status = 5"
  "length cmd_specific_status = 38"
  "length nvm_cmd_specific_status = 3"
  by (simp_all add: generic_cmd_status_def generic_nvm_status_def cmd_specific_status_def
      nvm_cmd_specific_status_def)

lemma u8_offset: "unat (sc - 0x80 :: u8) = unat sc - 0x80" if "0x7F < sc"
  using that by (simp add: unat_sub word_le_nat_alt word_less_nat_alt)

text \<open>
  C40. No status code makes the decoder read outside its tables: for every status code type and
  every status code, print_error returns a message.
\<close>

theorem print_error_in_bounds: "\<exists>msg. print_error sct sc = Inr msg"
  by (auto simp: print_error_def rd_def u8_offset word_less_nat_alt)


text \<open>The only message that reads Success is entry 0 of the generic table.\<close>

lemma print_error_Success: "print_error sct sc = Inr ''Success'' \<Longrightarrow> sct = 0 \<and> sc = 0"
proof -
  assume ok: "print_error sct sc = Inr ''Success''"
  have g: "\<forall>i<36. generic_cmd_status ! i = ''Success'' \<longrightarrow> i = 0"
    by (simp add: generic_cmd_status_def numeral_nat All_less_Suc)
  have n: "''Success'' \<notin> set generic_nvm_status" "''Success'' \<notin> set cmd_specific_status"
    "''Success'' \<notin> set nvm_cmd_specific_status"
    by (simp_all add: generic_nvm_status_def cmd_specific_status_def nvm_cmd_specific_status_def)
  from ok n g show ?thesis
    by (auto simp: print_error_def rd_Inr_iff word_less_nat_alt word_eq_unat in_set_conv_nth
        split: if_splits)
qed

text \<open>
  The decoder reports Success for exactly one status word, zero: a status with any bit set,
  be it in the code, the code type or the bits above them (More, Do Not Retry), is reported as
  something else.
\<close>

lemma bafs_error_Success_iff: "bafs_error status = Inr ''Success'' \<longleftrightarrow> status = 0"
proof
  assume ok: "bafs_error status = Inr ''Success''"
  let ?sct = "ucast (UNPACK_SCT status) :: u8" and ?sc = "ucast (UNPACK_SC status) :: u8"
  have z: "?sct = 0 \<and> ?sc = 0" and s: "SUCCESS status"
    using ok print_error_Success [of ?sct ?sc]
    by (auto simp: bafs_error_def Let_def split: if_splits)
  have "unat ?sc = unat status mod 256"
    using unat_u32 [of status]
    by (simp add: UNPACK_SC_def unat_ucast_mod RDBITS_eq and_mask_unat word_nat)
  with z have "unat status mod 256 = 0"
    by simp
  moreover have "unat status div 2 = 0"
    using s drop_bit_unat [of 1 status] by (simp add: SUCCESS_def)
  ultimately have "unat status = 0"
    by arith
  then show "status = 0"
    by (simp add: word_eq_unat)
next
  assume "status = 0"
  then show "bafs_error status = Inr ''Success''"
    by (simp add: bafs_error_def UNPACK_SCT_def UNPACK_SC_def RDBITS_def SUCCESS_def)
qed

end
