(* ===== verification/Queue_Types.thy ===== *)
theory Queue_Types
  imports Prelude
begin

section \<open>Queues, commands and completions (common/queue.h, kernel/nvme/admin.h)\<close>

text \<open>
  The structs of \<open>common/queue.h\<close> as records, the admin opcodes of \<open>admin.h\<close>, and the state of an
  admin queue pair together with the memory it shares with the controller. The rings are DMA
  memory: \<open>a_sq_mem\<close> and \<open>a_cq_mem\<close> are their contents, \<open>q_addr\<close> where they are mapped. What the
  driver writes to the device, in order, is the log \<open>a_log\<close>: a store to the submission ring, a
  write to a doorbell, or a write to a controller register, by its offset. The members \<open>list\<close> and \<open>lock\<close> of \<open>queue_k\<close> are used by no code, so
  a \<open>queue_k\<close> is its queue and its DMA address, here \<open>a_sq\<close> and \<open>a_sq_dma\<close>.
\<close>

definition MAX_CMD :: nat where
  "MAX_CMD = 65536"

datatype admin_cmd_opcode =
    DEL_IO_SQ | CRT_IO_SQ | GET_LOG_PG | DEL_IO_CQ | CRT_IO_CQ | ID | ABORT | SET_FEAT
  | GET_FEAT | ASYNC_EVNT_REQ | NS_MNGMT | FIRM_COMMIT | FIRM_IMG_DOWN | DEV_SELF_TEST
  | NM_ATTACH | KEEP_ALIVE | DIRECTIVE_SEND | DIRECTIVE_RECV | VIRT_MNGMT | NVME_MI_SEND
  | NVME_MI_RECV | DB_BUF_CONFIG | FORMAT_NVM | SECURITY_SEND | SECURITY_RECV | SANITIZE
  | GET_LBA_STATUS

fun opcode :: "admin_cmd_opcode \<Rightarrow> u32" where
  "opcode DEL_IO_SQ = 0x0"
| "opcode CRT_IO_SQ = 0x1"
| "opcode GET_LOG_PG = 0x2"
| "opcode DEL_IO_CQ = 0x4"
| "opcode CRT_IO_CQ = 0x5"
| "opcode ID = 0x6"
| "opcode ABORT = 0x8"
| "opcode SET_FEAT = 0x9"
| "opcode GET_FEAT = 0xa"
| "opcode ASYNC_EVNT_REQ = 0xc"
| "opcode NS_MNGMT = 0xd"
| "opcode FIRM_COMMIT = 0x10"
| "opcode FIRM_IMG_DOWN = 0x11"
| "opcode DEV_SELF_TEST = 0x14"
| "opcode NM_ATTACH = 0x15"
| "opcode KEEP_ALIVE = 0x18"
| "opcode DIRECTIVE_SEND = 0x19"
| "opcode DIRECTIVE_RECV = 0x1a"
| "opcode VIRT_MNGMT = 0x1c"
| "opcode NVME_MI_SEND = 0x1d"
| "opcode NVME_MI_RECV = 0x1e"
| "opcode DB_BUF_CONFIG = 0x7c"
| "opcode FORMAT_NVM = 0x80"
| "opcode SECURITY_SEND = 0x81"
| "opcode SECURITY_RECV = 0x82"
| "opcode SANITIZE = 0x84"
| "opcode GET_LBA_STATUS = 0x86"

record queue =
  q_no :: u16
  q_es :: u64
  q_qs :: u32
  q_head :: u64
  q_tail :: u64
  q_phase :: u8
  q_db :: addr
  q_addr :: addr
  q_mark :: "u8 list"
  q_cid :: "u8 list"

record queue_pair =
  qp_cq :: queue
  qp_sq :: queue

record cpl =
  cpl_dword :: "u32 list"

record cmd =
  cmd_dword :: "u32 list"

text \<open>\<open>struct cmd\<close> has 16 words and \<open>struct cpl\<close> has 4: their sizes in bytes.\<close>

definition sizeof_cmd :: u64 where
  "sizeof_cmd = 64"

definition sizeof_cpl :: u64 where
  "sizeof_cpl = 16"

datatype hw_event =
    SqStore nat cmd
  | Doorbell addr u32
  | RegStore nat u32

record aqp =
  a_cq :: queue
  a_cq_dma :: u64
  a_sq :: queue
  a_sq_dma :: u64
  a_lock :: bool
  a_use_mark :: "u8 list"
  a_io_qp_list :: "addr list"
  a_supported :: u32
  a_used :: u32
  a_sq_dma_addrs :: "u64 list"
  a_cq_dma_addrs :: "u64 list"
  a_sq_mem :: "cmd list"
  a_cq_mem :: "cpl list"
  a_log :: "hw_event list"

definition wf_cmd :: "cmd \<Rightarrow> bool" where
  "wf_cmd c \<longleftrightarrow> length (cmd_dword c) = 16"

text \<open>
  The opcode table is injective and every opcode fits in the low eight bits of a command's
  first dword, so an opcode never touches the command id in bits 31 to 16.
\<close>

lemma opcode_distinct_and_small:
  "inj opcode \<and> (\<forall>op. unat (opcode op) < 256)"
proof
  show "inj opcode"
  proof (rule injI)
    fix a b assume "opcode a = opcode b"
    then show "a = b" by (cases a; cases b; simp)
  qed
  show "\<forall>op. unat (opcode op) < 256"
  proof
    fix op show "unat (opcode op) < 256" by (cases op) simp_all
  qed
qed

end
