(* ===== verification/Slot_Table.thy ===== *)
theory Slot_Table
  imports Queue_Types
begin

section \<open>Byte tables of used slots\<close>

text \<open>
  The driver keeps two tables of bytes in which 0 means free: the command ids of the admin
  submission queue (\<open>cid\<close>, searched in \<open>admin_enqueue_command\<close>) and the I/O queue pairs
  (\<open>queue_use_mark\<close>, searched in \<open>admin_create_io_queue_pair\<close>). Both searches are the same loop: the
  first free slot below a bound is marked and the loop ends.
\<close>

function take_loop :: "u8 list \<Rightarrow> nat \<Rightarrow> nat \<Rightarrow> (u8 list \<times> nat option) res" where
  "take_loop tbl n i =
     (if i < n then
        (case rd tbl i of
          Inl f \<Rightarrow> Inl f
        | Inr v \<Rightarrow> if v = 0 then Inr (tbl[i := 1], Some i) else take_loop tbl n (Suc i))
      else Inr (tbl, None))"
  by pat_completeness auto
termination
  by (relation "measure (\<lambda>(tbl, n, i). n - i)") auto

declare take_loop.simps [simp del]

definition take_slot :: "nat \<Rightarrow> u8 list \<Rightarrow> (u8 list \<times> nat option) res" where
  "take_slot n tbl = take_loop tbl n 0"

definition give_slot :: "u8 list \<Rightarrow> nat \<Rightarrow> u8 list res" where
  "give_slot tbl i = wr tbl i 0"

definition slot_free :: "u8 list \<Rightarrow> nat \<Rightarrow> bool" where
  "slot_free tbl i \<longleftrightarrow> i < length tbl \<and> tbl ! i = 0"

lemma take_loop_spec:
  assumes "n \<le> length tbl" and "i \<le> n" and "\<forall>j < i. tbl ! j \<noteq> 0"
  shows "(\<exists>k. i \<le> k \<and> k < n \<and> tbl ! k = 0 \<and> (\<forall>j < k. tbl ! j \<noteq> 0)
            \<and> take_loop tbl n i = Inr (tbl[k := 1], Some k))
       \<or> ((\<forall>j < n. tbl ! j \<noteq> 0) \<and> take_loop tbl n i = Inr (tbl, None))"
  using assms
proof (induction tbl n i rule: take_loop.induct)
  case (1 tbl n i)
  show ?case
  proof (cases "i < n \<and> tbl ! i \<noteq> 0")
    case True
    have next': "take_loop tbl n i = take_loop tbl n (Suc i)"
      using True "1.prems" by (subst take_loop.simps) simp
    have "(\<exists>k. Suc i \<le> k \<and> k < n \<and> tbl ! k = 0 \<and> (\<forall>j < k. tbl ! j \<noteq> 0)
            \<and> take_loop tbl n (Suc i) = Inr (tbl[k := 1], Some k))
       \<or> ((\<forall>j < n. tbl ! j \<noteq> 0) \<and> take_loop tbl n (Suc i) = Inr (tbl, None))"
      using True "1.prems" by (intro "1.IH" [of "tbl ! i"]) (auto simp: less_Suc_eq)
    with next' show ?thesis by (auto dest: Suc_leD)
  next
    case False
    with "1.prems" show ?thesis
      by (cases "i < n") (auto simp: take_loop.simps [of tbl n i] take_loop.simps [of tbl n n])
  qed
qed

text \<open>
  The interface of such a table, for its two clients: taking gives the least free slot and
  changes nothing else, it fails exactly when none is free, and giving back frees one slot.
\<close>

locale slot_pool =
  fixes size_of :: "'t \<Rightarrow> nat"
    and free :: "'t \<Rightarrow> nat \<Rightarrow> bool"
    and take :: "'t \<Rightarrow> ('t \<times> nat option) res"
    and give :: "'t \<Rightarrow> nat \<Rightarrow> 't res"
    and ok :: "'t \<Rightarrow> bool"
  assumes take_total: "ok t \<Longrightarrow> \<exists>t' r. take t = Inr (t', r) \<and> ok t'"
    and take_Some: "ok t \<Longrightarrow> take t = Inr (t', Some i) \<Longrightarrow>
      i < size_of t \<and> free t i \<and> (\<forall>j < i. \<not> free t j)
      \<and> (\<forall>j < size_of t. free t' j \<longleftrightarrow> free t j \<and> j \<noteq> i) \<and> size_of t' = size_of t"
    and take_None: "ok t \<Longrightarrow> take t = Inr (t', None) \<Longrightarrow>
      t' = t \<and> (\<forall>j < size_of t. \<not> free t j)"
    and give_ok: "ok t \<Longrightarrow> i < size_of t \<Longrightarrow> \<exists>t'. give t i = Inr t' \<and> ok t'
      \<and> size_of t' = size_of t \<and> (\<forall>j < size_of t. free t' j \<longleftrightarrow> free t j \<or> j = i)"
begin

lemma take_succeeds:
  assumes "ok t" and "i < size_of t" and "free t i"
  shows "\<exists>t' k. take t = Inr (t', Some k) \<and> k \<le> i"
proof -
  obtain t' r where r: "take t = Inr (t', r)"
    using take_total [OF assms(1)] by blast
  show ?thesis
  proof (cases r)
    case None
    with r take_None [OF assms(1)] assms(2,3) show ?thesis by blast
  next
    case (Some k)
    with r take_Some [OF assms(1)] assms(3) have "k \<le> i"
      by (metis not_le_imp_less)
    with r Some show ?thesis by blast
  qed
qed

lemma take_then_give:
  assumes "ok t" and "take t = Inr (t1, Some i)"
  shows "\<exists>t2. give t1 i = Inr t2 \<and> (\<forall>j < size_of t. free t2 j \<longleftrightarrow> free t j)"
  using take_Some [OF assms] give_ok [of t1 i] take_total [OF assms(1)] assms(2)
  by fastforce

end

text \<open>A table of at least n bytes, searched up to n.\<close>

lemma take_slot_spec:
  assumes "n \<le> length tbl"
  shows "(\<exists>k < n. tbl ! k = 0 \<and> (\<forall>j < k. tbl ! j \<noteq> 0) \<and> take_slot n tbl = Inr (tbl[k := 1], Some k))
       \<or> ((\<forall>j < n. tbl ! j \<noteq> 0) \<and> take_slot n tbl = Inr (tbl, None))"
  using take_loop_spec [OF assms, of 0] unfolding take_slot_def by auto

interpretation tbl: slot_pool "\<lambda>_. n" slot_free "take_slot n" give_slot "\<lambda>t. length t = n" for n
proof unfold_locales
  fix t :: "u8 list" assume t: "length t = n"
  show "\<exists>t' r. take_slot n t = Inr (t', r) \<and> length t' = n"
    using take_slot_spec [of n t] t by force
  fix t' i assume "take_slot n t = Inr (t', Some i)"
  then show "i < n \<and> slot_free t i \<and> (\<forall>j<i. \<not> slot_free t j)
      \<and> (\<forall>j<n. slot_free t' j = (slot_free t j \<and> j \<noteq> i)) \<and> n = n"
    using take_slot_spec [of n t] t by (auto simp: slot_free_def nth_list_update)
next
  fix t t' :: "u8 list" assume "length t = n" "take_slot n t = Inr (t', None)"
  then show "t' = t \<and> (\<forall>j<n. \<not> slot_free t j)"
    using take_slot_spec [of n t] by (auto simp: slot_free_def)
next
  fix t :: "u8 list" and i assume "length t = n" "i < n"
  then show "\<exists>t'. give_slot t i = Inr t' \<and> length t' = n \<and> n = n
      \<and> (\<forall>j<n. slot_free t' j = (slot_free t j \<or> j = i))"
    by (auto simp: give_slot_def slot_free_def nth_list_update)
qed

end
