(* ===== verification/Admin_Queue.thy ===== *)
theory Admin_Queue
  imports Slot_Table
begin

section \<open>The admin queue pair: submit, poll, reclaim (kernel/nvme/admin.c)\<close>

text \<open>
  \<open>admin_enqueue_command\<close>, \<open>admin_cq_poll\<close>, \<open>admin_sq_mark_cleanup\<close>, \<open>admin_cq_mark_cleanup\<close> and
  \<open>clear_cmd\<close>. Each runs between \<open>spin_lock\<close> and \<open>spin_unlock\<close> on the pair's lock, which is part of
  the state: a path that left it held would make the next operation the fault \<open>Deadlock\<close>.
  Barriers and printk have no counterpart; the order of the stores to device memory is the order
  of the log.
\<close>

subsection \<open>Operations\<close>

definition aqp_lock :: "aqp \<Rightarrow> aqp res" where
  "aqp_lock a = (if a_lock a then Inl Deadlock else Inr (a\<lparr>a_lock := True\<rparr>))"

definition aqp_unlock :: "aqp \<Rightarrow> aqp" where
  "aqp_unlock a = a\<lparr>a_lock := False\<rparr>"

definition clear_cmd :: "cmd \<Rightarrow> cmd" where
  "clear_cmd c = c\<lparr>cmd_dword := map (\<lambda>_. 0) (cmd_dword c)\<rparr>"

definition set_dword :: "nat \<Rightarrow> u32 \<Rightarrow> cmd \<Rightarrow> cmd" where
  "set_dword i v c = c\<lparr>cmd_dword := (cmd_dword c)[i := v]\<rparr>"

text \<open>
  The test for a full ring: \<open>((u16) (tail - head) % qs) == (qs - 1)\<close>. The difference of the 64-bit
  indices is cut to 16 bits before the remainder is taken.
\<close>

definition sq_full :: "queue \<Rightarrow> bool res" where
  "sq_full q =
     (if q_qs q = 0 then Inl DivByZero
      else Inr ((ucast (ucast (q_tail q - q_head q) :: u16) :: u32) mod q_qs q = q_qs q - 1))"

definition admin_enqueue_command :: "aqp \<Rightarrow> cmd \<Rightarrow> (aqp \<times> cmd \<times> s32) res" where
  "admin_enqueue_command a cm =
     bindE (aqp_lock a) (\<lambda>a1.
     bindE (sq_full (a_sq a1)) (\<lambda>full.
     if full then Inr (aqp_unlock a1, cm, - 1)
     else
       let loc = ucast (q_tail (a_sq a1)) :: u16 in
       bindE (take_slot MAX_CMD (q_cid (a_sq a1))) (\<lambda>(cids, found).
       case found of
         None \<Rightarrow> Inr (aqp_unlock a1, cm, - 1)
       | Some i \<Rightarrow>
           let cid = of_nat i :: u64;
               c = set_dword 0 (cmd_dword cm ! 0 OR ucast (push_bit 16 cid)) cm;
               sq = a_sq a1;
               tail' = (q_tail sq + 1) mod ucast (q_qs sq)
           in
           bindE (wr (a_sq_mem a1) (unat loc) c) (\<lambda>mem.
           Inr (aqp_unlock
                 (a1\<lparr>a_sq := sq\<lparr>q_cid := cids, q_tail := tail'\<rparr>,
                     a_sq_mem := mem,
                     a_log := a_log a1 @ [SqStore (unat loc) c, Doorbell (q_db sq) (ucast tail')]\<rparr>),
                c, ucast loc)))))"

text \<open>
  One turn of the reclaiming loop on a marked slot, and the loop. The submission and the
  completion side run the same loop, each on its own queue.
\<close>

definition reclaim_one :: "queue \<Rightarrow> nat \<Rightarrow> queue" where
  "reclaim_one q l =
     (let q1 = q\<lparr>q_mark := (q_mark q)[l := 0], q_head := q_head q + 1\<rparr>
      in if q_head q1 = ucast (q_qs q1)
         then q1\<lparr>q_head := 0, q_phase := (if q_phase q1 = 0 then 1 else 0)\<rparr>
         else q1)"

lemma reclaim_one_mark [simp]: "q_mark (reclaim_one q l) = (q_mark q)[l := 0]"
  by (simp add: reclaim_one_def Let_def)

function mark_loop :: "queue \<Rightarrow> u64 \<Rightarrow> u16 \<Rightarrow> queue res" where
  "mark_loop q old_head i =
     (if q_qs q = 0 then Inl DivByZero
      else
        let l = ucast ((old_head + ucast i) mod ucast (q_qs q)) :: u16 in
        (case rd (q_mark q) (unat l) of
          Inl f \<Rightarrow> Inl f
        | Inr m \<Rightarrow>
            if m \<noteq> 0 then mark_loop (reclaim_one q (unat l)) old_head (i + 1)
            else Inr q))"
  by pat_completeness auto

text \<open>Each turn clears a mark, so the loop ends whatever the indices are.\<close>

lemma filter_update_less:
  "i < length xs \<Longrightarrow> P (xs ! i) \<Longrightarrow> \<not> P y \<Longrightarrow>
    length (filter P (xs[i := y])) < length (filter P xs)"
  by (induction xs arbitrary: i) (auto split: nat.splits)

termination mark_loop
  by (relation "measure (\<lambda>(q, old_head, i). length (filter (\<lambda>m. m \<noteq> 0) (q_mark q)))")
    (auto simp: rd_Inr_iff intro!: filter_update_less)

declare mark_loop.simps [simp del]

definition admin_sq_mark_cleanup :: "aqp \<Rightarrow> u16 \<Rightarrow> aqp res" where
  "admin_sq_mark_cleanup a loc =
     bindE (aqp_lock a) (\<lambda>a1.
     bindE (rd (a_sq_mem a1) (unat loc)) (\<lambda>cm.
     let cid = ucast (drop_bit 16 (cmd_dword cm ! 0)) :: u16; sq = a_sq a1 in
     bindE (give_slot (q_cid sq) (unat cid)) (\<lambda>cids.
     bindE (wr (q_mark sq) (unat loc) 1) (\<lambda>marks.
     let old_head = q_head sq in
     bindE (mark_loop (sq\<lparr>q_cid := cids, q_mark := marks\<rparr>) old_head 0) (\<lambda>sq'.
     Inr (aqp_unlock (a1\<lparr>a_sq := sq'\<rparr>)))))))"

definition admin_cq_mark_cleanup :: "aqp \<Rightarrow> u16 \<Rightarrow> aqp res" where
  "admin_cq_mark_cleanup a loc =
     bindE (aqp_lock a) (\<lambda>a1.
     let cq = a_cq a1 in
     bindE (wr (q_mark cq) (unat loc) 1) (\<lambda>marks.
     let old_head = q_head cq in
     bindE (mark_loop (cq\<lparr>q_mark := marks\<rparr>) old_head 0) (\<lambda>cq'.
     let a2 = a1\<lparr>a_cq := cq'\<rparr>;
         a3 = (if old_head \<noteq> q_head cq'
               then a2\<lparr>a_log := a_log a2 @ [Doorbell (q_db cq') (ucast (q_head cq'))]\<rparr>
               else a2)
     in Inr (aqp_unlock a3))))"

text \<open>
  The polling loop, from iteration \<open>i\<close>. It stops at the end of the ring, so \<open>i\<close> stays below the
  ring's 32-bit size and its 32-bit counter never wraps.
\<close>

function poll_loop :: "queue \<Rightarrow> cpl list \<Rightarrow> u16 \<Rightarrow> nat \<Rightarrow> s32 res" where
  "poll_loop q mem cid i =
     (if q_qs q = 0 then Inl DivByZero
      else
        let l = ucast ((q_head q + of_nat i) mod ucast (q_qs q)) :: u32 in
        (case rd mem (unat l) of
          Inl f \<Rightarrow> Inl f
        | Inr e \<Rightarrow>
            let dword = cpl_dword e ! 3 in
            if dword AND 0x0000ffff = ucast cid
               \<and> (if drop_bit 16 dword AND 1 \<noteq> 0 then 1 else 0) = q_phase q
            then Inr l
            else if q_head q + of_nat i + 1 \<ge> ucast (q_qs q) then Inr (- 1)
            else poll_loop q mem cid (Suc i)))"
  by pat_completeness auto

definition dist_to :: "u64 \<Rightarrow> u64 \<Rightarrow> nat" where
  "dist_to x n = (if unat x < unat n then unat n - unat x else unat n + 1)"

lemma dist_to_less:
  assumes "\<not> n \<le> x + 1"
  shows "dist_to (x + 1) n < dist_to x n"
proof -
  from assms have lt: "unat (x + 1) < unat n"
    by (simp add: word_le_nat_alt)
  show ?thesis
  proof (cases "x + 1 = 0")
    case True
    then have "x = - 1" by (simp add: eq_neg_iff_add_eq_0)
    with lt True have "\<not> unat x < unat n"
      using unat_u64 [of n] by (simp add: unsigned_minus_1_eq_mask mask_eq_exp_minus_1)
    with lt show ?thesis by (simp add: dist_to_def)
  next
    case False
    then have "unat (x + 1) = Suc (unat x)"
      by (simp add: unatSuc add.commute)
    with lt show ?thesis by (simp add: dist_to_def)
  qed
qed

termination poll_loop
proof (relation "measure (\<lambda>(q, mem, cid, i). dist_to (q_head q + of_nat i) (ucast (q_qs q)))",
    goal_cases)
  case 1
  show ?case by simp
next
  case (2 q mem cid i l e d)
  then show ?case
    using dist_to_less [of "ucast (q_qs q)" "q_head q + of_nat i"] by (simp add: add_ac)
qed

declare poll_loop.simps [simp del]

definition admin_cq_poll :: "aqp \<Rightarrow> u16 \<Rightarrow> (aqp \<times> s32) res" where
  "admin_cq_poll a cid =
     bindE (aqp_lock a) (\<lambda>a1.
     bindE (poll_loop (a_cq a1) (a_cq_mem a1) cid 0) (\<lambda>r.
     Inr (aqp_unlock a1, r)))"

end
