(* ===== verification/Ring.thy ===== *)
theory Ring
  imports Admin_Queue
begin

section \<open>Rings as windows of slots\<close>

text \<open>
  The abstract view of a queue. A ring of \<open>N\<close> slots with head \<open>h\<close> and a window of \<open>w\<close> slots from the
  head on is the list of those slots, each with whether it is marked as done. The driver clamps
  ring sizes to 4096 (\<open>admin_init\<close>, \<open>admin_create_io_queue_pair\<close>). Reclaiming drops the done slots at
  the front of the window: slots may be done in any order and are freed in ring order.
\<close>

abbreviation qN :: "queue \<Rightarrow> nat" where
  "qN q \<equiv> unat (q_qs q)"

abbreviation qh :: "queue \<Rightarrow> nat" where
  "qh q \<equiv> unat (q_head q)"

abbreviation qt :: "queue \<Rightarrow> nat" where
  "qt q \<equiv> unat (q_tail q)"

definition ring_wf :: "queue \<Rightarrow> bool" where
  "ring_wf q \<longleftrightarrow> 0 < qN q \<and> qN q \<le> 4096 \<and> qh q < qN q \<and> length (q_mark q) = qN q"

definition slot_at :: "queue \<Rightarrow> nat \<Rightarrow> nat" where
  "slot_at q j = (qh q + j) mod qN q"

definition ring_ok :: "nat \<Rightarrow> queue \<Rightarrow> bool" where
  "ring_ok w q \<longleftrightarrow> ring_wf q \<and> w \<le> qN q
     \<and> (\<forall>j. w \<le> j \<and> j < qN q \<longrightarrow> q_mark q ! slot_at q j = 0)"

definition ring_abs :: "nat \<Rightarrow> queue \<Rightarrow> (nat \<times> bool) list" where
  "ring_abs w q = map (\<lambda>j. (slot_at q j, q_mark q ! slot_at q j \<noteq> 0)) [0..<w]"

lemma length_ring_abs [simp]: "length (ring_abs w q) = w"
  by (simp add: ring_abs_def)

lemma ring_abs_Suc: "ring_abs (Suc w) q =
    (slot_at q 0, q_mark q ! slot_at q 0 \<noteq> 0) # map (\<lambda>j. (slot_at q (Suc j), q_mark q ! slot_at q (Suc j) \<noteq> 0)) [0..<w]"
  by (simp add: ring_abs_def upt_conv_Cons map_Suc_upt [symmetric] del: upt_Suc)

lemma slot_at_less: "ring_wf q \<Longrightarrow> slot_at q j < qN q"
  by (simp add: slot_at_def ring_wf_def)

lemma slot_at_0: "ring_wf q \<Longrightarrow> slot_at q 0 = qh q"
  by (simp add: slot_at_def ring_wf_def)

lemma mod_shift_le:
  fixes h i j n :: nat
  assumes "(h + i) mod n = (h + j) mod n" and "i \<le> j" and "j < n"
  shows "i = j"
proof -
  have "n dvd (h + j) - (h + i)"
    using assms(1,2) by (subst mod_eq_dvd_iff_nat [symmetric]) simp_all
  then have "n dvd j - i" by simp
  with assms(3) have "j - i = 0"
    by (metis dvd_imp_le less_imp_diff_less not_le zero_less_iff_neq_zero)
  with assms(2) show ?thesis by simp
qed

lemma mod_shift_inj:
  fixes h i j n :: nat
  assumes "(h + i) mod n = (h + j) mod n" and "i < n" and "j < n"
  shows "i = j"
  using assms mod_shift_le [of h i n j] mod_shift_le [of h j n i] by (cases "i \<le> j") auto

lemma slot_at_inj: "slot_at q i = slot_at q j \<Longrightarrow> i < qN q \<Longrightarrow> j < qN q \<Longrightarrow> i = j"
  unfolding slot_at_def by (rule mod_shift_inj)

lemma distinct_slots: "ring_ok w q \<Longrightarrow> distinct (map fst (ring_abs w q))"
  by (auto simp: ring_abs_def distinct_map inj_on_def ring_ok_def intro: slot_at_inj)

text \<open>Slots follow each other, and a window grows at its end.\<close>

lemma slot_at_Suc: "slot_at q (Suc j) = (slot_at q j + 1) mod qN q"
  by (simp add: slot_at_def mod_Suc_eq)

lemma ring_abs_snoc: "ring_abs (Suc w) q = ring_abs w q @ [(slot_at q w, q_mark q ! slot_at q w \<noteq> 0)]"
  by (simp add: ring_abs_def)

lemma slot_at_notin: "w < qN q \<Longrightarrow> slot_at q w \<notin> fst ` set (ring_abs w q)"
  using slot_at_inj [of q w] by (fastforce simp: ring_abs_def)

lemma slot_after_last: "ring_abs w q \<noteq> [] \<Longrightarrow> slot_at q w = (fst (last (ring_abs w q)) + 1) mod qN q"
  using slot_at_Suc [of q "w - 1"] by (cases w) (simp_all add: ring_abs_def)

text \<open>
  What a ring is to implement, for either side: a queue of at most \<open>n - 1\<close> slots with what is in them and
  whether they are done. A slot is appended after the last one, with any content that \<open>adm\<close> admits; any slot
  may be done, and leaves the queue when all before it are.
\<close>

inductive fifo_step ::
  "nat \<Rightarrow> ((nat \<times> 'p \<times> bool) list \<Rightarrow> 'p \<Rightarrow> bool) \<Rightarrow> (nat \<times> 'p \<times> bool) list \<Rightarrow> (nat \<times> 'p \<times> bool) list \<Rightarrow> bool"
  for n adm where
  f_append: "length q < n - 1 \<Longrightarrow> s < n \<Longrightarrow> q \<noteq> [] \<longrightarrow> s = (fst (last q) + 1) mod n \<Longrightarrow>
    s \<notin> fst ` set q \<Longrightarrow> adm q p \<Longrightarrow> fifo_step n adm q (q @ [(s, p, False)])"
| f_finish: "(s, p, False) \<in> set q \<Longrightarrow>
    fifo_step n adm q (dropWhile (\<lambda>(s', p, d). d) (map (\<lambda>(s', p, d). (s', p, d \<or> s' = s)) q))"

subsection \<open>Reclaiming\<close>

fun reclaim_n :: "nat \<Rightarrow> queue \<Rightarrow> queue" where
  "reclaim_n 0 q = q"
| "reclaim_n (Suc k) q = reclaim_n k (reclaim_one q (qh q))"

lemma reclaim_one_fields [simp]:
  "q_qs (reclaim_one q l) = q_qs q" "q_tail (reclaim_one q l) = q_tail q"
  "q_cid (reclaim_one q l) = q_cid q" "q_db (reclaim_one q l) = q_db q"
  "q_es (reclaim_one q l) = q_es q" "q_addr (reclaim_one q l) = q_addr q"
  "q_no (reclaim_one q l) = q_no q"
  by (simp_all add: reclaim_one_def Let_def)

lemma reclaim_n_fields [simp]:
  "q_qs (reclaim_n k q) = q_qs q" "q_tail (reclaim_n k q) = q_tail q"
  "q_cid (reclaim_n k q) = q_cid q" "q_db (reclaim_n k q) = q_db q"
  "q_es (reclaim_n k q) = q_es q" "q_addr (reclaim_n k q) = q_addr q"
  "q_no (reclaim_n k q) = q_no q"
  by (induction k arbitrary: q) simp_all

lemma reclaim_one_wrap:
  assumes "ring_wf q"
  shows "qh (reclaim_one q l) = (if qh q + 1 = qN q then 0 else qh q + 1)"
    and "q_phase (reclaim_one q l) =
      (if qh q + 1 = qN q then if q_phase q = 0 then 1 else 0 else q_phase q)"
proof -
  have "unat (q_head q + 1) = qh q + 1"
    using assms by (simp add: ring_wf_def unat_word_ariths)
  moreover have "q_head q + 1 = ucast (q_qs q) \<longleftrightarrow> unat (q_head q + 1) = qN q"
    by (simp add: word_eq_unat word_nat)
  ultimately show "qh (reclaim_one q l) = (if qh q + 1 = qN q then 0 else qh q + 1)"
    and "q_phase (reclaim_one q l) =
      (if qh q + 1 = qN q then if q_phase q = 0 then 1 else 0 else q_phase q)"
    by (simp_all add: reclaim_one_def Let_def)
qed

lemma reclaim_one_wf: "ring_wf q \<Longrightarrow> ring_wf (reclaim_one q l)"
  using reclaim_one_wrap(1) [of q l] by (auto simp: ring_wf_def)

lemma reclaim_one_slot: "ring_wf q \<Longrightarrow> slot_at (reclaim_one q l) j = slot_at q (Suc j)"
  by (auto simp: slot_at_def reclaim_one_wrap ring_wf_def simp flip: add_Suc)

lemma reclaim_one_ok:
  assumes ok: "ring_ok (Suc w) q"
  shows "ring_ok w (reclaim_one q (qh q))"
    and "ring_abs w (reclaim_one q (qh q)) = tl (ring_abs (Suc w) q)"
proof -
  let ?q = "reclaim_one q (qh q)"
  from ok have wf: "ring_wf q" and w: "Suc w \<le> qN q"
    and zero: "\<And>j. Suc w \<le> j \<Longrightarrow> j < qN q \<Longrightarrow> q_mark q ! slot_at q j = 0"
    by (auto simp: ring_ok_def)
  have len: "length (q_mark q) = qN q" and h: "qh q < qN q"
    using wf by (auto simp: ring_wf_def)
  have keep: "q_mark ?q ! slot_at ?q j = q_mark q ! slot_at q (Suc j)" if "Suc j < qN q" for j
  proof -
    have "slot_at q (Suc j) \<noteq> qh q"
      using slot_at_inj [of q "Suc j" 0] slot_at_0 [OF wf] that by auto
    then show ?thesis
      by (simp add: reclaim_one_slot [OF wf])
  qed
  have last: "q_mark ?q ! slot_at ?q (qN q - 1) = 0"
  proof -
    have "slot_at q (qN q) = qh q"
      using wf by (simp add: slot_at_def ring_wf_def)
    then have "slot_at q (Suc (qN q - 1)) = qh q"
      using w by simp
    then show ?thesis
      using h len by (simp add: reclaim_one_slot [OF wf])
  qed
  show "ring_ok w ?q"
    unfolding ring_ok_def
  proof (intro conjI allI impI)
    show "ring_wf ?q" by (rule reclaim_one_wf [OF wf])
    show "w \<le> qN ?q" using w by simp
    fix j assume j: "w \<le> j \<and> j < qN ?q"
    show "q_mark ?q ! slot_at ?q j = 0"
    proof (cases "Suc j < qN q")
      case True
      with keep zero [of "Suc j"] j show ?thesis by simp
    next
      case False
      moreover have "j < qN q" using j by simp
      ultimately have "j = qN q - 1" by linarith
      with last show ?thesis by simp
    qed
  qed
  show "ring_abs w ?q = tl (ring_abs (Suc w) q)"
    unfolding ring_abs_Suc using keep w
    by (auto simp: ring_abs_def reclaim_one_slot [OF wf])
qed

lemma reclaim_n_ok:
  "ring_ok (k + w) q \<Longrightarrow>
    ring_ok w (reclaim_n k q) \<and> ring_abs w (reclaim_n k q) = drop k (ring_abs (k + w) q)"
proof (induction k arbitrary: q)
  case 0
  then show ?case by simp
next
  case (Suc k)
  have "ring_ok (Suc (k + w)) q" using Suc.prems by simp
  note one = reclaim_one_ok [OF this]
  show ?case
    using Suc.IH [OF one(1)] one(2) by (simp add: drop_Suc)
qed

lemma reclaim_n_head:
  assumes "ring_wf q" and "k \<le> qN q"
  shows "qh (reclaim_n k q) = (if qh q + k < qN q then qh q + k else qh q + k - qN q)
    \<and> q_phase (reclaim_n k q) =
      (if qh q + k < qN q then q_phase q else if q_phase q = 0 then 1 else 0)"
  using assms
proof (induction k arbitrary: q)
  case 0
  then show ?case by (simp add: ring_wf_def)
next
  case (Suc k)
  have wf: "ring_wf (reclaim_one q (qh q))"
    by (rule reclaim_one_wf [OF Suc.prems(1)])
  have "qh q < qN q" using Suc.prems(1) by (simp add: ring_wf_def)
  then show ?case
    using Suc.IH [OF wf] Suc.prems(2) reclaim_one_wrap [OF Suc.prems(1), of "qh q"]
    by auto
qed

text \<open>
  The loop of the source: it reclaims the marked slots at the front of the window and stops at
  the first unmarked one.
\<close>

lemma mark_loop_step:
  assumes wf: "ring_wf q" and pos: "(unat old + unat i) mod qN q = qh q"
    and "unat i \<le> 4096" and "unat old < 4096"
  shows "mark_loop q old i =
    (if q_mark q ! qh q \<noteq> 0 then mark_loop (reclaim_one q (qh q)) old (i + 1) else Inr q)"
proof -
  have "unat (old + ucast i) = unat old + unat i"
    using assms(3,4) by (simp add: unat_word_ariths word_nat)
  then have "unat ((old + ucast i) mod ucast (q_qs q)) = qh q"
    using pos by (simp add: unat_mod_distrib word_nat)
  then have "unat (ucast ((old + ucast i) mod ucast (q_qs q)) :: u16) = qh q"
    using wf by (simp add: unat_ucast_mod ring_wf_def)
  moreover have "q_qs q \<noteq> 0" "qh q < length (q_mark q)"
    using wf by (auto simp: ring_wf_def)
  ultimately show ?thesis
    by (subst mark_loop.simps) (simp add: Let_def)
qed

lemma mark_loop_reclaims:
  assumes "ring_ok w q" and "(unat old + unat i) mod qN q = qh q"
    and "unat i + w \<le> 4096" and "unat old < 4096"
  shows "mark_loop q old i = Inr (reclaim_n (length (takeWhile snd (ring_abs w q))) q)"
  using assms
proof (induction w arbitrary: q i)
  case 0
  from 0 have wf: "ring_wf q" by (simp add: ring_ok_def)
  then have "q_mark q ! qh q = 0"
    using 0(1) slot_at_0 [OF wf] unfolding ring_ok_def by (auto simp: ring_wf_def)
  with mark_loop_step [OF wf 0(2)] 0 show ?case
    by (simp add: ring_abs_def)
next
  case (Suc w)
  let ?q = "reclaim_one q (qh q)"
  from Suc.prems have wf: "ring_wf q" by (simp add: ring_ok_def)
  note step = mark_loop_step [OF wf Suc.prems(2)]
  have head: "ring_abs (Suc w) q = (qh q, q_mark q ! qh q \<noteq> 0) # tl (ring_abs (Suc w) q)"
    by (simp add: ring_abs_Suc slot_at_0 [OF wf])
  show ?case
  proof (cases "q_mark q ! qh q = 0")
    case True
    then have "takeWhile snd (ring_abs (Suc w) q) = []"
      by (subst head) simp
    with step Suc.prems True show ?thesis
      by simp
  next
    case False
    have i1: "unat (i + 1) = unat i + 1"
      using Suc.prems(3) by (simp add: unat_word_ariths)
    have "(unat old + unat (i + 1)) mod qN ?q = qh ?q"
      using Suc.prems(2) i1 reclaim_one_wrap(1) [OF wf, of "qh q"]
        mod_Suc [of "unat old + unat i" "qN q"] by simp
    then have "mark_loop ?q old (i + 1) = Inr (reclaim_n (length (takeWhile snd (ring_abs w ?q))) ?q)"
      using Suc.prems i1 by (intro Suc.IH reclaim_one_ok(1)) simp_all
    moreover have "length (takeWhile snd (ring_abs (Suc w) q)) =
        Suc (length (takeWhile snd (ring_abs w ?q)))"
      using False reclaim_one_ok(2) [OF Suc.prems(1)] by (subst head) simp
    ultimately show ?thesis
      using step False Suc.prems by simp
  qed
qed

lemma small_not_minus_1: "n < 4096 \<Longrightarrow> (of_nat n :: s32) \<noteq> - 1"
proof
  assume n: "n < 4096" and "(of_nat n :: s32) = - 1"
  then have "unat (of_nat n :: s32) = unat (- 1 :: s32)" by simp
  with n show False
    by (simp add: unat_of_nat unsigned_minus_1_eq_mask mask_eq_exp_minus_1)
qed

text \<open>Marking a slot of the window and reclaiming: the effect on the abstract view.\<close>

definition mark_done :: "nat \<Rightarrow> (nat \<times> bool) list \<Rightarrow> (nat \<times> bool) list" where
  "mark_done loc xs = map (\<lambda>(s, d). (s, d \<or> s = loc)) xs"

definition finish :: "nat \<Rightarrow> (nat \<times> bool) list \<Rightarrow> (nat \<times> bool) list" where
  "finish loc xs = dropWhile snd (mark_done loc xs)"

lemma finish_view:
  "map (\<lambda>(s, d). (s, f s, d)) (finish loc xs) =
    dropWhile (\<lambda>(s, p, d). d) (map (\<lambda>(s, p, d). (s, p, d \<or> s = loc)) (map (\<lambda>(s, d). (s, f s, d)) xs))"
  by (induction xs) (auto simp: finish_def mark_done_def)

lemma finish_keeps:
  assumes "(s, False) \<in> set xs" and "s \<noteq> loc"
  shows "(s, False) \<in> set (finish loc xs)"
proof -
  have keep: "y \<in> set ys \<Longrightarrow> \<not> snd y \<Longrightarrow> y \<in> set (dropWhile snd ys)" for y :: "nat \<times> bool" and ys
    by (induction ys) auto
  have "(s, False) \<in> set (mark_done loc xs)" using assms by (force simp: mark_done_def)
  then show ?thesis by (simp add: finish_def keep)
qed

lemma ring_abs_mark:
  assumes "ring_ok w q" and "loc \<in> fst ` set (ring_abs w q)"
  shows "ring_ok w (q\<lparr>q_mark := (q_mark q)[loc := 1]\<rparr>)"
    and "ring_abs w (q\<lparr>q_mark := (q_mark q)[loc := 1]\<rparr>) = mark_done loc (ring_abs w q)"
proof -
  let ?q = "q\<lparr>q_mark := (q_mark q)[loc := 1]\<rparr>"
  have wf: "ring_wf q" using assms by (simp add: ring_ok_def)
  have s: "slot_at ?q j = slot_at q j" for j by (simp add: slot_at_def)
  have len: "slot_at q j < length (q_mark q)" for j
    using slot_at_less [OF wf] wf by (simp add: ring_wf_def)
  obtain k where k: "k < w" "loc = slot_at q k"
    using assms(2) by (auto simp: ring_abs_def)
  have "w \<le> qN q" using assms(1) by (simp add: ring_ok_def)
  have out: "loc \<noteq> slot_at q j" if "w \<le> j" "j < qN q" for j
    using slot_at_inj [of q j k] k that \<open>w \<le> qN q\<close> by auto
  show "ring_ok w ?q"
    using assms(1) out by (auto simp: ring_ok_def ring_wf_def s)
  show "ring_abs w ?q = mark_done loc (ring_abs w q)"
  proof -
    have "loc < length (q_mark q)" using len [of k] k(2) by simp
    then show ?thesis by (auto simp: ring_abs_def mark_done_def s nth_list_update)
  qed
qed

lemma mark_and_reclaim:
  assumes "ring_ok w q" and "loc \<in> fst ` set (ring_abs w q)"
  defines "k \<equiv> length (takeWhile snd (mark_done loc (ring_abs w q)))"
  shows "\<exists>q'. mark_loop (q\<lparr>q_mark := (q_mark q)[loc := 1]\<rparr>) (q_head q) 0 = Inr q'
    \<and> q' = reclaim_n k (q\<lparr>q_mark := (q_mark q)[loc := 1]\<rparr>)
    \<and> k \<le> w \<and> ring_ok (w - k) q' \<and> ring_abs (w - k) q' = finish loc (ring_abs w q)"
proof -
  let ?q = "q\<lparr>q_mark := (q_mark q)[loc := 1]\<rparr>"
  note m = ring_abs_mark [OF assms(1,2)]
  have kw: "k \<le> w"
    using length_takeWhile_le [of snd "mark_done loc (ring_abs w q)"]
    by (simp add: k_def mark_done_def)
  have wf: "0 < qN q" "qN q \<le> 4096" "qh q < qN q" "w \<le> qN q"
    using assms(1) by (auto simp: ring_ok_def ring_wf_def)
  have "mark_loop ?q (q_head q) 0 = Inr (reclaim_n k ?q)"
    using mark_loop_reclaims [OF m(1), of "q_head q" 0] wf m(2) by (simp add: k_def)
  moreover have "ring_ok (w - k) (reclaim_n k ?q) \<and>
      ring_abs (w - k) (reclaim_n k ?q) = drop k (mark_done loc (ring_abs w q))"
    using reclaim_n_ok [of k "w - k" ?q] kw m by simp
  ultimately show ?thesis
    using kw by (auto simp: finish_def k_def dropWhile_eq_drop)
qed

subsection \<open>The test for a full ring\<close>

text \<open>
  The number of slots between head and tail, and what the source's test computes: exact when the tail has
  not wrapped below the head, and off by the remainder of 65536 by the ring size when it has.
\<close>

definition sq_count :: "queue \<Rightarrow> nat" where
  "sq_count q = (if qh q \<le> qt q then qt q - qh q else qN q - (qh q - qt q))"

lemma sub_mod_65536: "(t + 18446744073709551616 - h) mod 65536 = 65536 + t - (h :: nat)"
  if "t < h" "h < 65536"
proof -
  have "t + 18446744073709551616 - h = (65536 + t - h) + 281474976710655 * 65536"
    using that by simp
  then have "(t + 18446744073709551616 - h) mod 65536 = (65536 + t - h) mod 65536"
    by (simp only: mod_mult_self1)
  also have "\<dots> = 65536 + t - h"
    using that by (intro mod_less) simp
  finally show ?thesis .
qed

lemma sq_full_eq:
  assumes "0 < qN q" and "qN q \<le> 65536" and "qh q < qN q" and "qt q < qN q"
  shows "sq_full q = Inr ((if qh q \<le> qt q then qt q - qh q else (65536 + qt q - qh q) mod qN q)
    = qN q - 1)"
proof -
  have "unat (ucast (q_tail q - q_head q) :: u16) =
      (if qh q \<le> qt q then qt q - qh q else 65536 + qt q - qh q)"
    using assms sub_mod_65536 [of "qt q" "qh q"]
    by (auto simp: unat_ucast_mod unat_sub_if' )
  then have "unat ((ucast (ucast (q_tail q - q_head q) :: u16) :: u32) mod q_qs q) =
      (if qh q \<le> qt q then qt q - qh q else (65536 + qt q - qh q) mod qN q)"
    using assms by (auto simp: unat_mod_distrib word_nat)
  moreover have "unat (q_qs q - 1) = qN q - 1"
    using assms(1) by (simp add: unat_sub_if' word_less_nat_alt)
  moreover have "q_qs q \<noteq> 0"
    using assms(1) by auto
  ultimately show ?thesis
    by (simp add: sq_full_def word_eq_unat)
qed

lemma sq_full_exact:
  assumes "0 < qN q" and "qN q dvd 65536" and "qh q < qN q" and "qt q < qN q"
  shows "sq_full q = Inr (sq_count q = qN q - 1)"
proof -
  obtain m where m: "65536 = qN q * m"
    using assms(2) by (auto simp: dvd_def)
  have "qN q \<le> 65536"
    using assms(2) by (rule dvd_imp_le) simp
  note eq = sq_full_eq [OF assms(1) this assms(3,4)]
  show ?thesis
  proof (cases "qh q \<le> qt q")
    case True
    then show ?thesis by (simp add: eq sq_count_def)
  next
    case False
    obtain m' where "m = Suc m'"
      using m by (cases m) auto
    then have "65536 + qt q - qh q = (qN q - (qh q - qt q)) + m' * qN q"
      using m False assms(3) by (simp add: algebra_simps)
    then have "(65536 + qt q - qh q) mod qN q = (qN q - (qh q - qt q)) mod qN q"
      by (simp only: mod_mult_self1)
    also have "\<dots> = qN q - (qh q - qt q)"
      using False assms(1) by (intro mod_less) simp
    finally have "(65536 + qt q - qh q) mod qN q = qN q - (qh q - qt q)" .
    with False show ?thesis by (simp add: eq sq_count_def)
  qed
qed

text \<open>
  C37. The full test is right for every head and tail of a ring of 2 to 65536 slots exactly when
  the ring size divides 65536. For any other size there is a head and a tail for which it
  calls a full ring not full, because the 64-bit difference is cut to 16 bits before the remainder
  is taken. CAP.MQES may give such a size.
\<close>

theorem full_test_exact_iff:
  assumes "2 \<le> unat n" and "unat n \<le> 65536"
  shows "(\<forall>q. q_qs q = n \<and> qh q < unat n \<and> qt q < unat n \<longrightarrow>
            sq_full q = Inr (sq_count q = unat n - 1)) \<longleftrightarrow> unat n dvd 65536"
proof
  assume "unat n dvd 65536"
  with assms show "\<forall>q. q_qs q = n \<and> qh q < unat n \<and> qt q < unat n \<longrightarrow>
            sq_full q = Inr (sq_count q = unat n - 1)"
    by (auto simp: sq_full_exact)
next
  assume all: "\<forall>q. q_qs q = n \<and> qh q < unat n \<and> qt q < unat n \<longrightarrow>
            sq_full q = Inr (sq_count q = unat n - 1)"
  define q where "q = \<lparr>q_no = 0, q_es = 0, q_qs = n, q_head = 1, q_tail = 0, q_phase = 0, q_db = 0,
    q_addr = 0, q_mark = [], q_cid = []\<rparr>"
  have "sq_full q = Inr (sq_count q = unat n - 1)"
    using all assms by (simp add: q_def)
  moreover have "sq_count q = unat n - 1"
    by (simp add: sq_count_def q_def)
  ultimately have "65535 mod unat n = unat n - 1"
    using sq_full_eq [of q] assms by (simp add: q_def)
  then have "65536 mod unat n = 0"
    using assms mod_Suc [of 65535 "unat n"] by simp
  then show "unat n dvd 65536" by (simp add: dvd_eq_mod_eq_0)
qed

theorem full_test_exact_iff_witness:
  "(\<forall>q. q_qs q = 5 \<and> qh q < unat (5::u32) \<and> qt q < unat (5::u32) \<longrightarrow>
      sq_full q = Inr (sq_count q = unat (5::u32) - 1)) \<longleftrightarrow> unat (5::u32) dvd 65536"
  by (rule full_test_exact_iff) simp_all

subsection \<open>Polling\<close>

definition cpl_cid :: "cpl \<Rightarrow> u32" where
  "cpl_cid e = cpl_dword e ! 3 AND 0x0000ffff"

definition cpl_phase :: "cpl \<Rightarrow> u8" where
  "cpl_phase e = (if drop_bit 16 (cpl_dword e ! 3) AND 1 \<noteq> 0 then 1 else 0)"

definition cpl_match :: "queue \<Rightarrow> u16 \<Rightarrow> cpl \<Rightarrow> bool" where
  "cpl_match q cid e \<longleftrightarrow> cpl_cid e = ucast cid \<and> cpl_phase e = q_phase q"

lemma poll_loop_find:
  assumes "0 < qN q" and "qh q < qN q" and "length mem = qN q" and "qh q + i < qN q"
  shows "poll_loop q mem cid i = Inr
    (case List.find (\<lambda>l. cpl_match q cid (mem ! l)) [qh q + i..<qN q] of
       None \<Rightarrow> - 1 | Some l \<Rightarrow> of_nat l)"
  using assms
proof (induction "qN q - (qh q + i)" arbitrary: i)
  case 0
  then show ?case by simp
next
  case (Suc k)
  have n: "qN q < 4294967296" by (rule unat_u32)
  have pos: "unat (q_head q + of_nat i) = qh q + i"
    using Suc.prems n by (simp add: unat_word_ariths unat_of_nat)
  then have idx: "unat ((q_head q + of_nat i) mod ucast (q_qs q)) = qh q + i"
    using Suc.prems by (simp add: unat_mod_distrib word_nat)
  then have idx32: "unat (ucast ((q_head q + of_nat i) mod ucast (q_qs q)) :: u32) = qh q + i"
    using Suc.prems n by (simp add: unat_ucast_mod)
  then have w32: "ucast ((q_head q + of_nat i) mod ucast (q_qs q)) = (of_nat (qh q + i) :: u32)"
    using Suc.prems n unfolding word_eq_unat idx32 by (simp only: unat_of_nat) simp
  have nxt: "unat (q_head q + of_nat i + 1) = qh q + i + 1"
    using pos Suc.prems n by (simp add: unat_word_ariths)
  have stop: "q_head q + of_nat i + 1 \<ge> ucast (q_qs q) \<longleftrightarrow> qN q \<le> qh q + i + 1"
    unfolding word_le_nat_alt nxt by (simp add: word_nat)
  have nz: "q_qs q \<noteq> 0" using Suc.prems by auto
  have step: "poll_loop q mem cid i =
      (if cpl_match q cid (mem ! (qh q + i)) then Inr (of_nat (qh q + i))
       else if qN q \<le> qh q + i + 1 then Inr (- 1) else poll_loop q mem cid (Suc i))"
    using nz idx32 Suc.prems stop
    by (subst poll_loop.simps)
      (simp add: Let_def w32 cpl_match_def cpl_cid_def cpl_phase_def)
  have cons: "[qh q + i..<qN q] = (qh q + i) # [qh q + Suc i..<qN q]"
    using Suc.prems by (simp add: upt_conv_Cons)
  show ?case
  proof (cases "qh q + Suc i < qN q")
    case True
    then have "poll_loop q mem cid (Suc i) = Inr
      (case List.find (\<lambda>l. cpl_match q cid (mem ! l)) [qh q + Suc i..<qN q] of
         None \<Rightarrow> - 1 | Some l \<Rightarrow> of_nat l)"
      using Suc by (intro Suc.hyps) auto
    with step True show ?thesis
      by (simp add: cons del: upt_Suc)
  next
    case False
    then have "[qh q + Suc i..<qN q] = []" by simp
    with step False show ?thesis
      by (simp only: cons) simp
  qed
qed

end
