(* ===== verification/Submission.thy ===== *)
theory Submission
  imports Ring
begin

section \<open>The submission side: an abstract queue of commands in flight\<close>

text \<open>
  The contract of \<open>admin_enqueue_command\<close> and \<open>admin_sq_mark_cleanup\<close>. The abstract state is the
  list of the slots from head to tail, oldest first, each with the command id it carries and
  whether it is done. Submitting appends a slot with a fresh id; finishing a slot marks it done,
  frees its id and drops the done slots at the front. \<open>sq_inv\<close> is the invariant under which
  the two operations implement this, and which they keep.
\<close>

subsection \<open>Command ids in commands\<close>

definition cmd_cid :: "cmd \<Rightarrow> nat" where
  "cmd_cid c = unat (drop_bit 16 (cmd_dword c ! 0))"

definition plain_cmd :: "cmd \<Rightarrow> bool" where
  "plain_cmd c \<longleftrightarrow> wf_cmd c \<and> unat (cmd_dword c ! 0) < 65536"

definition with_cid :: "nat \<Rightarrow> cmd \<Rightarrow> cmd" where
  "with_cid i c = set_dword 0 (cmd_dword c ! 0 OR ucast (push_bit 16 (of_nat i :: u64))) c"

lemma unat_cid_field: "unat (ucast (push_bit 16 (of_nat i :: u64)) :: u32) = i * 65536" if "i < 65536"
  using that by (simp add: unat_ucast_mod push_bit_eq_mult unat_word_ariths unat_of_nat)

lemma cid_field_roundtrip:
  fixes d :: u32
  assumes "unat d < 65536" and "i < 65536"
  shows "unat (drop_bit 16 (d OR ucast (push_bit 16 (of_nat i :: u64)))) = i"
proof -
  have "drop_bit 16 d = 0"
    using assms(1) by (simp add: word_eq_unat drop_bit_unat)
  then show ?thesis
    using assms(2) unat_cid_field [of i] drop_bit_unat [of 16 "ucast (push_bit 16 (of_nat i :: u64)) :: u32"]
    by (simp del: drop_bit_eq_div)
qed

lemma with_cid_cid: "plain_cmd c \<Longrightarrow> i < 65536 \<Longrightarrow> cmd_cid (with_cid i c) = i"
proof -
  assume "plain_cmd c" and i: "i < 65536"
  then have "cmd_dword (with_cid i c) ! 0 = cmd_dword c ! 0 OR ucast (push_bit 16 (of_nat i :: u64))"
    and "unat (cmd_dword c ! 0) < 65536"
    by (simp_all add: plain_cmd_def wf_cmd_def with_cid_def set_dword_def)
  with i show ?thesis
    by (simp only: cmd_cid_def cid_field_roundtrip)
qed

subsection \<open>The abstract view and the invariant\<close>

definition sq_ring :: "aqp \<Rightarrow> (nat \<times> bool) list" where
  "sq_ring a = ring_abs (sq_count (a_sq a)) (a_sq a)"

definition cid_at :: "aqp \<Rightarrow> nat \<Rightarrow> nat" where
  "cid_at a s = cmd_cid (a_sq_mem a ! s)"

definition sq_view :: "aqp \<Rightarrow> (nat \<times> nat \<times> bool) list" where
  "sq_view a = map (\<lambda>(s, d). (s, cid_at a s, d)) (sq_ring a)"

definition live :: "aqp \<Rightarrow> nat list" where
  "live a = map fst (filter (\<lambda>(s, d). \<not> d) (sq_ring a))"

definition sq_inv :: "aqp \<Rightarrow> bool" where
  "sq_inv a \<longleftrightarrow>
     \<not> a_lock a \<and> ring_ok (sq_count (a_sq a)) (a_sq a) \<and> qt (a_sq a) < qN (a_sq a)
     \<and> 2 \<le> qN (a_sq a) \<and> qN (a_sq a) dvd 65536
     \<and> length (a_sq_mem a) = qN (a_sq a) \<and> length (q_cid (a_sq a)) = MAX_CMD
     \<and> dropWhile snd (sq_ring a) = sq_ring a
     \<and> distinct (map (cid_at a) (live a))
     \<and> list_all (\<lambda>s. cid_at a s < MAX_CMD) (live a)
     \<and> (\<forall>i < MAX_CMD. q_cid (a_sq a) ! i \<noteq> 0 \<longleftrightarrow> i \<in> cid_at a ` set (live a))"

lemma sq_count_less: "sq_inv a \<Longrightarrow> sq_count (a_sq a) < qN (a_sq a)"
  by (auto simp: sq_inv_def sq_count_def ring_ok_def ring_wf_def)

lemma slot_at_count: "qh q < qN q \<Longrightarrow> qt q < qN q \<Longrightarrow> slot_at q (sq_count q) = qt q"
proof (cases "qh q \<le> qt q")
  case True
  assume "qt q < qN q"
  with True show ?thesis by (simp add: slot_at_def sq_count_def)
next
  case False
  assume "qh q < qN q" "qt q < qN q"
  then have "qh q + (qN q - (qh q - qt q)) = qt q + qN q"
    using False by simp
  moreover have "(qt q + qN q) mod qN q = qt q"
    using \<open>qt q < qN q\<close> by simp
  ultimately show ?thesis
    using False by (simp only: slot_at_def sq_count_def if_False)
qed

lemma tail_notin_window:
  assumes "sq_inv a" shows "qt (a_sq a) \<notin> fst ` set (sq_ring a)"
proof -
  have "slot_at (a_sq a) (sq_count (a_sq a)) = qt (a_sq a)"
    using assms by (intro slot_at_count) (auto simp: sq_inv_def ring_ok_def ring_wf_def)
  with slot_at_notin [OF sq_count_less [OF assms]] show ?thesis by (simp add: sq_ring_def)
qed

lemma live_slot_less: "sq_inv a \<Longrightarrow> s \<in> set (live a) \<Longrightarrow> s < qN (a_sq a)"
  by (auto simp: live_def sq_ring_def ring_abs_def sq_inv_def ring_ok_def slot_at_less)

subsection \<open>Submitting\<close>

text \<open>Advancing the tail: the window grows by the old tail slot.\<close>

lemma advance_tail:
  assumes ok: "ring_ok (sq_count q) q" and t: "qt q < qN q" and room: "sq_count q \<noteq> qN q - 1"
    and q': "q' = q\<lparr>q_cid := cids, q_tail := (q_tail q + 1) mod ucast (q_qs q)\<rparr>"
  shows "ring_ok (sq_count q') q'" and "qt q' < qN q'"
    and "sq_count q' = Suc (sq_count q)"
    and "ring_abs (sq_count q') q' = ring_abs (sq_count q) q @ [(qt q, False)]"
proof -
  from ok have wf: "0 < qN q" "qN q \<le> 4096" "qh q < qN q"
    by (auto simp: ring_ok_def ring_wf_def)
  have "unat (q_tail q + 1) = qt q + 1"
    using t wf by (simp add: unat_word_ariths)
  then have t': "qt q' = (qt q + 1) mod qN q"
    by (simp add: q' unat_mod_distrib word_nat)
  show "qt q' < qN q'" using wf t' by (simp add: q')
  have s: "slot_at q' j = slot_at q j" for j by (simp add: q' slot_at_def)
  have f: "q_mark q' = q_mark q" "qN q' = qN q" "qh q' = qh q" by (simp_all add: q')
  show c: "sq_count q' = Suc (sq_count q)"
    using t t' wf room f by (cases "qt q + 1 = qN q") (auto simp: sq_count_def split: if_splits)
  have lt: "sq_count q < qN q" using room wf t by (auto simp: sq_count_def)
  have z: "q_mark q ! slot_at q (sq_count q) = 0"
    using ok lt by (simp add: ring_ok_def)
  show "ring_ok (sq_count q') q'"
    using ok lt by (simp add: ring_ok_def ring_wf_def c s f Suc_le_eq)
  show "ring_abs (sq_count q') q' = ring_abs (sq_count q) q @ [(qt q, False)]"
    using z slot_at_count [OF wf(3) t] by (simp add: ring_abs_def c s f)
qed

lemma length_live: "length (live a) \<le> sq_count (a_sq a)"
  using length_filter_le [of "\<lambda>(s, d). \<not> d" "sq_ring a"] by (simp add: live_def sq_ring_def)

text \<open>There are more ids than slots, so an id is free whatever is in flight.\<close>

lemma cid_available:
  assumes "sq_inv a"
  shows "\<exists>i < MAX_CMD. q_cid (a_sq a) ! i = 0"
proof (rule ccontr)
  assume "\<not> ?thesis"
  with assms have "{..<MAX_CMD} \<subseteq> cid_at a ` set (live a)"
    by (auto simp: sq_inv_def)
  then have "MAX_CMD \<le> card (cid_at a ` set (live a))"
    using card_mono [of "cid_at a ` set (live a)" "{..<MAX_CMD}"] by simp
  also have "\<dots> \<le> length (live a)"
    using card_image_le [of "set (live a)" "cid_at a"] card_length [of "live a"]
    by (simp del: card_image)
  also have "\<dots> < 4096"
    using length_live [of a] sq_count_less [OF assms] assms
    by (auto simp: sq_inv_def ring_ok_def ring_wf_def)
  finally show False by (simp add: MAX_CMD_def)
qed

text \<open>The state after a command was accepted with id \<open>i\<close>.\<close>

definition enqueued :: "aqp \<Rightarrow> nat \<Rightarrow> cmd \<Rightarrow> aqp" where
  "enqueued a i c =
     (let sq = a_sq a; tail' = (q_tail sq + 1) mod ucast (q_qs sq)
      in a\<lparr>a_sq := sq\<lparr>q_cid := (q_cid sq)[i := 1], q_tail := tail'\<rparr>,
           a_sq_mem := (a_sq_mem a)[qt sq := with_cid i c],
           a_log := a_log a @ [SqStore (qt sq) (with_cid i c), Doorbell (q_db sq) (ucast tail')]\<rparr>)"

lemma unlock_lock: "\<not> a_lock a \<Longrightarrow> a\<lparr>a_lock := False\<rparr> = a"
  by (cases a) simp

lemma enqueue_full:
  assumes "sq_inv a" and "sq_count (a_sq a) = qN (a_sq a) - 1"
  shows "admin_enqueue_command a c = Inr (a, c, - 1)"
proof -
  have "sq_full (a_sq a) = Inr True"
    using assms by (subst sq_full_exact) (auto simp: sq_inv_def ring_ok_def ring_wf_def)
  with assms(1) show ?thesis
    by (simp add: admin_enqueue_command_def aqp_lock_def aqp_unlock_def sq_inv_def unlock_lock)
qed

lemma enqueue_accepts:
  assumes inv: "sq_inv a" and room: "sq_count (a_sq a) \<noteq> qN (a_sq a) - 1"
  shows "\<exists>i < MAX_CMD. q_cid (a_sq a) ! i = 0 \<and> (\<forall>j < i. q_cid (a_sq a) ! j \<noteq> 0)
    \<and> admin_enqueue_command a c = Inr (enqueued a i c, with_cid i c, of_nat (qt (a_sq a)))"
proof -
  let ?q = "a_sq a"
  have f: "sq_full ?q = Inr False" and len: "length (q_cid ?q) = MAX_CMD"
    and t: "qt ?q < qN ?q" "qN ?q \<le> 4096" "length (a_sq_mem a) = qN ?q" and l: "\<not> a_lock a"
    using inv room by (auto simp: sq_inv_def ring_ok_def ring_wf_def sq_full_exact)
  obtain i where i: "i < MAX_CMD" "q_cid ?q ! i = 0" "\<forall>j < i. q_cid ?q ! j \<noteq> 0"
    "take_slot MAX_CMD (q_cid ?q) = Inr ((q_cid ?q)[i := 1], Some i)"
    using take_slot_spec [of MAX_CMD "q_cid ?q"] len cid_available [OF inv] by auto
  have loc: "unat (ucast (q_tail ?q) :: u16) = qt ?q"
    using t by (simp add: unat_ucast_mod)
  then have "unat (ucast (ucast (q_tail ?q) :: u16) :: s32) = qt ?q"
    by (simp add: word_nat)
  then have ret: "(ucast (ucast (q_tail ?q) :: u16) :: s32) = of_nat (qt ?q)"
    using t unfolding word_eq_unat by (simp only: unat_of_nat) simp
  have "admin_enqueue_command a c = Inr (enqueued a i c, with_cid i c, of_nat (qt ?q))"
    using i(4) f l t loc ret
    by (simp add: admin_enqueue_command_def aqp_lock_def aqp_unlock_def enqueued_def with_cid_def
        Let_def)
  with i show ?thesis by blast
qed

lemma enqueued_ring:
  assumes inv: "sq_inv a" and room: "sq_count (a_sq a) \<noteq> qN (a_sq a) - 1"
  shows "ring_ok (sq_count (a_sq (enqueued a i c))) (a_sq (enqueued a i c))"
    and "qt (a_sq (enqueued a i c)) < qN (a_sq a)"
    and "sq_ring (enqueued a i c) = sq_ring a @ [(qt (a_sq a), False)]"
proof -
  have ok: "ring_ok (sq_count (a_sq a)) (a_sq a)" "qt (a_sq a) < qN (a_sq a)"
    using inv by (simp_all add: sq_inv_def)
  have q': "a_sq (enqueued a i c) = (a_sq a)\<lparr>q_cid := (q_cid (a_sq a))[i := 1],
      q_tail := (q_tail (a_sq a) + 1) mod ucast (q_qs (a_sq a))\<rparr>"
    by (simp add: enqueued_def Let_def)
  note adv = advance_tail [OF ok room q']
  show "ring_ok (sq_count (a_sq (enqueued a i c))) (a_sq (enqueued a i c))" by (rule adv(1))
  show "qt (a_sq (enqueued a i c)) < qN (a_sq a)" using adv(2) by (simp add: q')
  show "sq_ring (enqueued a i c) = sq_ring a @ [(qt (a_sq a), False)]"
    using adv(4) by (simp add: sq_ring_def)
qed

lemma enqueued_view:
  assumes inv: "sq_inv a" and room: "sq_count (a_sq a) \<noteq> qN (a_sq a) - 1"
    and c: "plain_cmd c" and i: "i < MAX_CMD" "q_cid (a_sq a) ! i = 0"
  shows "sq_view (enqueued a i c) = sq_view a @ [(qt (a_sq a), i, False)]"
    and "sq_inv (enqueued a i c)"
proof -
  let ?q = "a_sq a" and ?a = "enqueued a i c"
  note ring = enqueued_ring [OF inv room]
  have mem: "a_sq_mem ?a = (a_sq_mem a)[qt ?q := with_cid i c]"
    and cids: "q_cid (a_sq ?a) = (q_cid ?q)[i := 1]" and same: "q_qs (a_sq ?a) = q_qs ?q"
      "a_lock ?a = a_lock a"
    by (simp_all add: enqueued_def Let_def)
  have len: "qt ?q < length (a_sq_mem a)" using inv by (simp add: sq_inv_def)
  have new: "cid_at ?a (qt ?q) = i"
    using len c i by (simp add: cid_at_def mem with_cid_cid MAX_CMD_def)
  have old: "cid_at ?a s = cid_at a s" if "s \<in> fst ` set (sq_ring a)" for s
  proof -
    have "qt ?q \<noteq> s" using that tail_notin_window [OF inv] by blast
    then show ?thesis by (simp add: cid_at_def mem)
  qed
  have "cid_at ?a s = cid_at a s" if "(s, d) \<in> set (sq_ring a)" for s d
    using that by (intro old) force
  then show view: "sq_view ?a = sq_view a @ [(qt ?q, i, False)]"
    using new by (auto simp: sq_view_def ring(3))
  have lv: "live ?a = live a @ [qt ?q]"
    by (simp add: live_def ring(3))
  have in_ring: "s \<in> fst ` set (sq_ring a)" if "s \<in> set (live a)" for s
    using that by (auto simp: live_def)
  have mapped: "map (cid_at ?a) (live ?a) = map (cid_at a) (live a) @ [i]"
    using old in_ring new by (simp add: lv)
  have fresh: "i \<notin> cid_at a ` set (live a)"
    using inv i by (auto simp: sq_inv_def)
  show "sq_inv ?a"
    unfolding sq_inv_def
  proof (intro conjI)
    show "distinct (map (cid_at ?a) (live ?a))"
      using inv fresh by (simp add: mapped sq_inv_def)
    have "set (map (cid_at ?a) (live ?a)) = insert i (cid_at a ` set (live a))"
      by (simp add: mapped)
    then have img: "cid_at ?a ` set (live ?a) = insert i (cid_at a ` set (live a))"
      by simp
    have "\<forall>k \<in> cid_at ?a ` set (live ?a). k < MAX_CMD"
      unfolding img using inv i by (auto simp: list_all_iff sq_inv_def)
    then show "list_all (\<lambda>s. cid_at ?a s < MAX_CMD) (live ?a)"
      by (simp add: list_all_iff)
    show "\<forall>j<MAX_CMD. q_cid (a_sq ?a) ! j \<noteq> 0 \<longleftrightarrow> j \<in> cid_at ?a ` set (live ?a)"
      using inv i by (auto simp: img cids sq_inv_def nth_list_update)
    show "dropWhile snd (sq_ring ?a) = sq_ring ?a"
    proof -
      have "sq_ring a = [] \<or> \<not> snd (hd (sq_ring a))"
        using inv by (simp add: sq_inv_def dropWhile_eq_self_iff)
      then show ?thesis
        unfolding ring(3) dropWhile_eq_self_iff by (cases "sq_ring a") auto
    qed
  qed (use inv ring same in \<open>auto simp: sq_inv_def mem cids\<close>)
qed

subsection \<open>Finishing a command\<close>

lemma sq_count_reclaim:
  assumes "ring_wf q" and "qt q < qN q" and "k \<le> sq_count q"
  shows "sq_count (reclaim_n k q) = sq_count q - k"
proof -
  have "qh q < qN q" using assms(1) by (simp add: ring_wf_def)
  moreover have "sq_count q < qN q"
    using assms(2) \<open>qh q < qN q\<close> by (auto simp: sq_count_def)
  ultimately show ?thesis
    using reclaim_n_head [OF assms(1), of k] assms(2,3)
    by (auto simp: sq_count_def split: if_splits)
qed

text \<open>The state after slot \<open>loc\<close> was finished: its id is free, its slot marked, done slots gone.\<close>

definition finished :: "aqp \<Rightarrow> nat \<Rightarrow> aqp" where
  "finished a loc =
     (let q = (a_sq a)\<lparr>q_cid := (q_cid (a_sq a))[cid_at a loc := 0],
                      q_mark := (q_mark (a_sq a))[loc := 1]\<rparr>
      in a\<lparr>a_sq := reclaim_n (length (takeWhile snd (mark_done loc (sq_ring a)))) q\<rparr>)"

lemma ring_cid_frame:
  "ring_abs w (q\<lparr>q_cid := t\<rparr>) = ring_abs w q" "ring_ok w (q\<lparr>q_cid := t\<rparr>) = ring_ok w q"
  "sq_count (q\<lparr>q_cid := t\<rparr>) = sq_count q"
  by (simp_all add: ring_abs_def ring_ok_def ring_wf_def slot_at_def sq_count_def)

lemma live_in_ring: "s \<in> set (live a) \<Longrightarrow> s \<in> fst ` set (sq_ring a)"
  by (auto simp: live_def)

lemma finish_runs:
  assumes inv: "sq_inv a" and loc: "loc \<in> set (live a)"
  shows "admin_sq_mark_cleanup a (of_nat loc) = Inr (finished a loc)"
    and "sq_ring (finished a loc) = finish loc (sq_ring a)"
    and "ring_ok (sq_count (a_sq (finished a loc))) (a_sq (finished a loc))"
proof -
  let ?q = "(a_sq a)\<lparr>q_cid := (q_cid (a_sq a))[cid_at a loc := 0]\<rparr>"
  let ?w = "sq_count (a_sq a)"
  let ?k = "length (takeWhile snd (mark_done loc (sq_ring a)))"
  let ?q1 = "?q\<lparr>q_mark := (q_mark ?q)[loc := 1]\<rparr>"
  have lt: "loc < qN (a_sq a)" by (rule live_slot_less [OF inv loc])
  have wf: "ring_wf (a_sq a)" "qN (a_sq a) \<le> 4096" "length (a_sq_mem a) = qN (a_sq a)"
    "length (q_mark (a_sq a)) = qN (a_sq a)" "length (q_cid (a_sq a)) = MAX_CMD" "\<not> a_lock a"
    "qt (a_sq a) < qN (a_sq a)"
    using inv by (auto simp: sq_inv_def ring_ok_def ring_wf_def)
  have u: "unat (of_nat loc :: u16) = loc"
    using lt wf by (simp add: unat_of_nat)
  have cid: "unat (ucast (drop_bit 16 (cmd_dword (a_sq_mem a ! loc) ! 0)) :: u16) = cid_at a loc"
    using unat_u32 [of "cmd_dword (a_sq_mem a ! loc) ! 0"]
    by (simp add: unat_ucast_mod cid_at_def cmd_cid_def drop_bit_unat del: drop_bit_eq_div)
  have cid_lt: "cid_at a loc < MAX_CMD"
    using inv loc by (auto simp: sq_inv_def list_all_iff)
  have ok: "ring_ok ?w ?q" and mem: "loc \<in> fst ` set (ring_abs ?w ?q)"
    using inv live_in_ring [OF loc] by (auto simp: ring_cid_frame sq_inv_def sq_ring_def)
  have abs: "ring_abs ?w ?q = sq_ring a" by (simp add: ring_cid_frame sq_ring_def)
  obtain q' where q': "mark_loop ?q1 (q_head ?q) 0 = Inr q'" "q' = reclaim_n ?k ?q1" "?k \<le> ?w"
    "ring_ok (?w - ?k) q'" "ring_abs (?w - ?k) q' = finish loc (sq_ring a)"
    using mark_and_reclaim [OF ok mem] by (auto simp: abs)
  have fin: "a_sq (finished a loc) = q'"
    by (simp add: finished_def q'(2) Let_def)
  have "ring_wf ?q1" using wf by (simp add: ring_wf_def)
  moreover have "sq_count ?q1 = ?w" by (simp add: sq_count_def)
  ultimately have cnt: "sq_count q' = ?w - ?k"
    using sq_count_reclaim [of ?q1 ?k] q'(2,3) wf by simp
  show "sq_ring (finished a loc) = finish loc (sq_ring a)"
    by (simp add: sq_ring_def [of "finished a loc"] fin cnt q'(5))
  show "ring_ok (sq_count (a_sq (finished a loc))) (a_sq (finished a loc))"
    by (simp add: fin cnt q'(4))
  have "admin_sq_mark_cleanup a (of_nat loc) = Inr (a\<lparr>a_sq := q'\<rparr>)"
    using q'(1) u cid cid_lt wf lt
    by (simp add: admin_sq_mark_cleanup_def aqp_lock_def aqp_unlock_def give_slot_def Let_def
        unlock_lock)
  moreover have "finished a loc = a\<lparr>a_sq := q'\<rparr>"
    by (simp add: finished_def q'(2) Let_def)
  ultimately show "admin_sq_mark_cleanup a (of_nat loc) = Inr (finished a loc)" by simp
qed

lemma live_finish:
  assumes "distinct (map fst (sq_ring a))"
  shows "map fst (filter (\<lambda>(s, d). \<not> d) (finish loc (sq_ring a))) = filter (\<lambda>s. s \<noteq> loc) (live a)"
proof -
  have drop: "filter (\<lambda>(s, d). \<not> d) (dropWhile snd xs) = filter (\<lambda>(s, d). \<not> d) xs"
    for xs :: "(nat \<times> bool) list"
    by (induction xs) auto
  have "map fst (filter (\<lambda>(s, d). \<not> d) (mark_done loc xs)) =
      filter (\<lambda>s. s \<noteq> loc) (map fst (filter (\<lambda>(s, d). \<not> d) xs))" for xs
    by (induction xs) (auto simp: mark_done_def)
  then show ?thesis
    by (simp add: finish_def drop live_def)
qed

lemma finished_inv:
  assumes inv: "sq_inv a" and loc: "loc \<in> set (live a)"
  shows "sq_inv (finished a loc)"
    and "live (finished a loc) = filter (\<lambda>s. s \<noteq> loc) (live a)"
    and "sq_view (finished a loc) =
      dropWhile (\<lambda>(s, i, d). d) (map (\<lambda>(s, i, d). (s, i, d \<or> s = loc)) (sq_view a))"
proof -
  let ?a = "finished a loc"
  note run = finish_runs [OF inv loc]
  have mem: "a_sq_mem ?a = a_sq_mem a" and same: "q_qs (a_sq ?a) = q_qs (a_sq a)"
    "q_tail (a_sq ?a) = q_tail (a_sq a)" "a_lock ?a = a_lock a"
    and cids: "q_cid (a_sq ?a) = (q_cid (a_sq a))[cid_at a loc := 0]"
    by (simp_all add: finished_def Let_def)
  have at: "cid_at ?a s = cid_at a s" for s by (simp add: cid_at_def mem)
  have dist: "distinct (map fst (sq_ring a))"
    using inv distinct_slots by (simp add: sq_inv_def sq_ring_def)
  show lv: "live ?a = filter (\<lambda>s. s \<noteq> loc) (live a)"
    using live_finish [OF dist] by (simp add: live_def [of ?a] run(2))
  have inj: "inj_on (cid_at a) (set (live a))" and dl: "distinct (live a)"
    using inv by (auto simp: sq_inv_def distinct_map)
  show "sq_view ?a =
      dropWhile (\<lambda>(s, i, d). d) (map (\<lambda>(s, i, d). (s, i, d \<or> s = loc)) (sq_view a))"
    by (simp only: sq_view_def at run(2) finish_view)
  show "sq_inv ?a"
    unfolding sq_inv_def
  proof (intro conjI)
    show "distinct (map (cid_at ?a) (live ?a))"
      using inj dl by (auto simp: lv at distinct_map inj_on_def)
    show "list_all (\<lambda>s. cid_at ?a s < MAX_CMD) (live ?a)"
      using inv by (auto simp: lv at list_all_iff sq_inv_def)
    have "cid_at a loc < length (q_cid (a_sq a))"
      using inv loc by (auto simp: sq_inv_def list_all_iff)
    moreover have "cid_at a ` {s \<in> set (live a). s \<noteq> loc} = cid_at a ` set (live a) - {cid_at a loc}"
      using inj loc by (auto simp: inj_on_def)
    ultimately show "\<forall>i<MAX_CMD. q_cid (a_sq ?a) ! i \<noteq> 0 \<longleftrightarrow> i \<in> cid_at ?a ` set (live ?a)"
      using inv by (auto simp: lv at cids sq_inv_def nth_list_update)
    show "dropWhile snd (sq_ring ?a) = sq_ring ?a"
      by (simp add: run(2) finish_def)
  qed (use inv run(3) same in \<open>auto simp: sq_inv_def mem cids\<close>)
qed

subsection \<open>Interleavings\<close>

text \<open>
  Any number of host threads submit commands, finish commands in flight, poll for completions and
  reclaim completion slots, in any order, while the controller writes the completion ring. Every
  host step is one critical section of the pair's lock, so the steps are atomic.
\<close>

inductive host_step :: "aqp \<Rightarrow> aqp \<Rightarrow> bool" where
  submit: "plain_cmd c \<Longrightarrow> admin_enqueue_command a c = Inr (a', c', r) \<Longrightarrow> host_step a a'"
| finish: "loc \<in> set (live a) \<Longrightarrow> admin_sq_mark_cleanup a (of_nat loc) = Inr a' \<Longrightarrow> host_step a a'"
| poll: "admin_cq_poll a cid = Inr (a', r) \<Longrightarrow> host_step a a'"
| reclaim: "admin_cq_mark_cleanup a cloc = Inr a' \<Longrightarrow> host_step a a'"
| device: "host_step a (a\<lparr>a_cq_mem := m\<rparr>)"

definition sq_fresh :: "aqp \<Rightarrow> bool" where
  "sq_fresh a \<longleftrightarrow>
     \<not> a_lock a \<and> q_head (a_sq a) = 0 \<and> q_tail (a_sq a) = 0
     \<and> 2 \<le> qN (a_sq a) \<and> qN (a_sq a) \<le> 4096 \<and> qN (a_sq a) dvd 65536
     \<and> q_mark (a_sq a) = replicate (qN (a_sq a)) 0 \<and> q_cid (a_sq a) = replicate MAX_CMD 0
     \<and> length (a_sq_mem a) = qN (a_sq a)"

abbreviation reachable_from :: "aqp \<Rightarrow> aqp \<Rightarrow> bool" where
  "reachable_from \<equiv> host_step\<^sup>*\<^sup>*"

text \<open>
  What the interleavings are to implement: a queue of at most \<open>n - 1\<close> commands in flight. A command
  is appended in the slot after the last one, with an id that no command in flight has; any command
  in flight may finish, and leaves the queue when all before it have.
\<close>

type_synonym inflight = "(nat \<times> nat \<times> bool) list"

abbreviation queue_step :: "nat \<Rightarrow> inflight \<Rightarrow> inflight \<Rightarrow> bool" where
  "queue_step n \<equiv> fifo_step n (\<lambda>q i. i < MAX_CMD \<and> (\<forall>s'. (s', i, False) \<notin> set q))"

lemma sq_fresh_inv:
  assumes "sq_fresh a" shows "sq_inv a"
proof -
  let ?q = "a_sq a"
  have c: "sq_count ?q = 0" using assms by (simp add: sq_fresh_def sq_count_def)
  have wf: "ring_wf ?q" using assms by (simp add: sq_fresh_def ring_wf_def)
  have "ring_ok 0 ?q"
    using assms slot_at_less [OF wf] wf by (simp add: ring_ok_def sq_fresh_def)
  moreover have "sq_ring a = []" by (simp add: sq_ring_def ring_abs_def c)
  ultimately show ?thesis
    using assms by (simp add: sq_inv_def c live_def sq_fresh_def)
qed

text \<open>The steps of the completion side and of the controller leave the submission side alone.\<close>

lemma sq_inv_frame:
  assumes "sq_inv a" and "a_sq a' = a_sq a" and "a_sq_mem a' = a_sq_mem a" and "\<not> a_lock a'"
  shows "sq_inv a'" "live a' = live a" "sq_view a' = sq_view a"
proof -
  have r: "sq_ring a' = sq_ring a" by (simp add: sq_ring_def assms)
  moreover have "cid_at a' = cid_at a" by (simp add: fun_eq_iff cid_at_def assms)
  ultimately show "sq_inv a'" "live a' = live a" "sq_view a' = sq_view a"
    using assms by (simp_all add: sq_inv_def live_def sq_view_def)
qed

lemma cq_poll_frame:
  "admin_cq_poll a cid = Inr (a', r) \<Longrightarrow> a' = a\<lparr>a_lock := False\<rparr>"
  by (auto simp: admin_cq_poll_def aqp_lock_def aqp_unlock_def split: if_splits)

lemma cq_cleanup_frame:
  assumes "admin_cq_mark_cleanup a loc = Inr a'"
  shows "a_sq a' = a_sq a" "a_sq_mem a' = a_sq_mem a" "\<not> a_lock a'"
  using assms
  by (auto simp: admin_cq_mark_cleanup_def aqp_lock_def aqp_unlock_def Let_def split: if_splits)

text \<open>The ids in flight are those of the view.\<close>

lemma view_slots: "fst ` set (sq_view a) = fst ` set (sq_ring a)" "length (sq_view a) = sq_count (a_sq a)"
  by (force simp: sq_view_def) (simp add: sq_view_def sq_ring_def)

lemma view_live: "(s, i, False) \<in> set (sq_view a) \<longleftrightarrow> s \<in> set (live a) \<and> i = cid_at a s"
  by (force simp: sq_view_def live_def)

lemma view_last:
  assumes "sq_inv a" and "sq_view a \<noteq> []"
  shows "qt (a_sq a) = (fst (last (sq_view a)) + 1) mod qN (a_sq a)"
proof -
  have "sq_ring a \<noteq> []" "fst (last (sq_view a)) = fst (last (sq_ring a))"
    using assms(2) by (simp_all add: sq_view_def last_map split_beta)
  moreover have "slot_at (a_sq a) (sq_count (a_sq a)) = qt (a_sq a)"
    using assms(1) by (intro slot_at_count) (auto simp: sq_inv_def ring_ok_def ring_wf_def)
  ultimately show ?thesis
    using slot_after_last [of "sq_count (a_sq a)" "a_sq a"] by (simp add: sq_ring_def)
qed

text \<open>
  Each step keeps the invariant and the size of the ring, and is a step of the abstract queue or leaves it
  as it is.
\<close>

lemma host_step_refines:
  assumes "host_step a a'" and inv: "sq_inv a"
  shows "sq_inv a' \<and> qN (a_sq a') = qN (a_sq a)
    \<and> (sq_view a' = sq_view a \<or> queue_step (qN (a_sq a)) (sq_view a) (sq_view a'))"
  using assms(1)
proof cases
  case (submit c c' r)
  show ?thesis
  proof (cases "sq_count (a_sq a) = qN (a_sq a) - 1")
    case True
    with submit inv show ?thesis by (simp add: enqueue_full)
  next
    case False
    then obtain i where i: "i < MAX_CMD" "q_cid (a_sq a) ! i = 0" "a' = enqueued a i c"
      using enqueue_accepts [OF inv False, of c] submit by auto
    note new = enqueued_view [OF inv False submit(1) i(1,2)]
    have "i \<notin> cid_at a ` set (live a)" using inv i(1,2) by (auto simp: sq_inv_def)
    then have "queue_step (qN (a_sq a)) (sq_view a) (sq_view a @ [(qt (a_sq a), i, False)])"
      using inv i(1) False sq_count_less [OF inv] tail_notin_window [OF inv] view_last [OF inv]
      by (intro f_append) (auto simp: view_slots view_live sq_inv_def)
    with new i(3) show ?thesis by (simp add: enqueued_def Let_def)
  qed
next
  case (finish loc)
  then have a': "a' = finished a loc" using finish_runs(1) [OF inv] by simp
  have "(loc, cid_at a loc, False) \<in> set (sq_view a)" using finish(1) by (simp add: view_live)
  from f_finish [OF this] show ?thesis
    using finished_inv [OF inv finish(1)] by (simp add: a' finished_def Let_def)
next
  case (poll cid r)
  then have "a' = a\<lparr>a_lock := False\<rparr>" by (intro cq_poll_frame) simp
  then show ?thesis using sq_inv_frame [OF inv] by simp
next
  case (reclaim cloc)
  then show ?thesis using sq_inv_frame [OF inv] cq_cleanup_frame by simp
next
  case (device m)
  then show ?thesis using sq_inv_frame [OF inv, of a'] inv by (simp add: sq_inv_def)
qed

interpretation sub: simulation host_step "\<lambda>a. sq_inv a \<and> qN (a_sq a) = n" sq_view "queue_step n" for n
  by unfold_locales (use host_step_refines in blast)+

subsection \<open>Properties\<close>

text \<open>A queue pair with rings of n slots as initialisation leaves them, for concrete runs.\<close>

definition blank_queue :: "u32 \<Rightarrow> addr \<Rightarrow> queue" where
  "blank_queue n db =
     \<lparr>q_no = 0, q_es = 64, q_qs = n, q_head = 0, q_tail = 0, q_phase = 1, q_db = db, q_addr = 0,
      q_mark = replicate (unat n) 0, q_cid = replicate MAX_CMD 0\<rparr>"

definition blank_aqp :: "u32 \<Rightarrow> aqp" where
  "blank_aqp n =
     \<lparr>a_cq = blank_queue n 0x1004, a_cq_dma = 0, a_sq = blank_queue n 0x1000, a_sq_dma = 0,
      a_lock = False, a_use_mark = [], a_io_qp_list = [], a_supported = 0, a_used = 0,
      a_sq_dma_addrs = [], a_cq_dma_addrs = [],
      a_sq_mem = replicate (unat n) \<lparr>cmd_dword = replicate 16 0\<rparr>,
      a_cq_mem = replicate (unat n) \<lparr>cpl_dword = replicate 4 0\<rparr>, a_log = []\<rparr>"

definition zero_cmd :: cmd where
  "zero_cmd = \<lparr>cmd_dword = replicate 16 0\<rparr>"

lemma blank_fresh: "2 \<le> unat n \<Longrightarrow> unat n \<le> 4096 \<Longrightarrow> unat n dvd 65536 \<Longrightarrow> sq_fresh (blank_aqp n)"
  by (simp add: sq_fresh_def blank_aqp_def blank_queue_def)

lemma zero_cmd_plain: "plain_cmd zero_cmd"
  by (simp add: plain_cmd_def wf_cmd_def zero_cmd_def)

text \<open>
  C3. admin_enqueue_command implements appending to the abstract queue. In a state that satisfies
  the invariant: when all slots but one are taken it returns -1 and changes nothing; otherwise it
  takes the least free command id, returns the tail slot, and the queue of commands in flight grows by
  that slot with that id. The command stored in the ring is the caller's with the id in bits 31 to
  16 of its first dword, it is stored before the doorbell is written, and the invariant holds again.
\<close>

theorem enqueue_refines:
  assumes "sq_inv a" and "plain_cmd c"
  shows "if sq_count (a_sq a) = qN (a_sq a) - 1
    then admin_enqueue_command a c = Inr (a, c, - 1)
    else \<exists>i a'. (q_cid (a_sq a) ! i = 0 \<and> (\<forall>j < i. q_cid (a_sq a) ! j \<noteq> 0))
      \<and> admin_enqueue_command a c = Inr (a', with_cid i c, of_nat (qt (a_sq a)))
      \<and> cmd_cid (with_cid i c) = i
      \<and> sq_view a' = sq_view a @ [(qt (a_sq a), i, False)]
      \<and> a_log a' = a_log a @ [SqStore (qt (a_sq a)) (with_cid i c),
          Doorbell (q_db (a_sq a)) (ucast (q_tail (a_sq a')))]
      \<and> sq_inv a'"
proof (cases "sq_count (a_sq a) = qN (a_sq a) - 1")
  case True
  then show ?thesis by (simp add: enqueue_full [OF assms(1)])
next
  case False
  obtain i where i: "i < MAX_CMD" "q_cid (a_sq a) ! i = 0" "\<forall>j < i. q_cid (a_sq a) ! j \<noteq> 0"
    "admin_enqueue_command a c = Inr (enqueued a i c, with_cid i c, of_nat (qt (a_sq a)))"
    using enqueue_accepts [OF assms(1) False] by blast
  have "cmd_cid (with_cid i c) = i"
    using i(1) assms(2) by (intro with_cid_cid) (simp_all add: MAX_CMD_def)
  moreover have "a_log (enqueued a i c) = a_log a @ [SqStore (qt (a_sq a)) (with_cid i c),
      Doorbell (q_db (a_sq a)) (ucast (q_tail (a_sq (enqueued a i c))))]"
    by (simp add: enqueued_def Let_def)
  ultimately show ?thesis
    using False i enqueued_view [OF assms(1) False assms(2) i(1,2)] by auto
qed

theorem enqueue_refines_witness:
  "\<exists>i a'. admin_enqueue_command (blank_aqp 4) zero_cmd = Inr (a', with_cid i zero_cmd, of_nat 0)
      \<and> sq_view a' = [(0, i, False)] \<and> sq_inv a'"
proof -
  have inv: "sq_inv (blank_aqp 4)" by (intro sq_fresh_inv blank_fresh) simp_all
  have q: "sq_count (a_sq (blank_aqp 4)) = 0" "qt (a_sq (blank_aqp 4)) = 0"
    "qN (a_sq (blank_aqp 4)) = 4"
    by (simp_all add: blank_aqp_def blank_queue_def sq_count_def)
  then have "sq_view (blank_aqp 4) = []"
    by (simp add: sq_view_def sq_ring_def ring_abs_def)
  then show ?thesis
    using enqueue_refines [OF inv zero_cmd_plain] by (auto simp: q)
qed

text \<open>
  C4. admin_sq_mark_cleanup implements finishing a command of the abstract queue. For a slot that is in
  flight it returns normally, the slot is marked done and done slots are dropped from the
  front of the queue, so slots are freed in ring order whatever the order in which commands finish; the
  command id of the slot is free again, those of the others stay taken, and the invariant holds again.
\<close>

theorem sq_cleanup_refines:
  assumes "sq_inv a" and "loc \<in> set (live a)"
  shows "\<exists>a'. admin_sq_mark_cleanup a (of_nat loc) = Inr a'
    \<and> sq_view a' = dropWhile (\<lambda>(s, i, d). d) (map (\<lambda>(s, i, d). (s, i, d \<or> s = loc)) (sq_view a))
    \<and> q_cid (a_sq a') = (q_cid (a_sq a))[cid_at a loc := 0]
    \<and> live a' = filter (\<lambda>s. s \<noteq> loc) (live a) \<and> sq_inv a'"
  using finish_runs(1) [OF assms] finished_inv [OF assms]
  by (intro exI [of _ "finished a loc"]) (simp add: finished_def Let_def)

text \<open>
  C1. In every state that host threads and the controller can reach from a freshly
  initialised admin queue whose ring size divides 65536: the lock is free; the commands in flight have distinct
  command ids and are fewer than the ring has slots; submitting neither faults nor runs out of
  ids, it refuses exactly when the ring is full; finishing any command in flight succeeds; and the
  slots from head to tail are a state the abstract queue can get to from the empty one.
\<close>

theorem admin_queue_safety:
  assumes "reachable_from a0 a" and "sq_fresh a0"
  shows "\<not> a_lock a \<and> distinct (map (cid_at a) (live a)) \<and> length (live a) < qN (a_sq a)
    \<and> (\<forall>c. \<exists>a' c' r. admin_enqueue_command a c = Inr (a', c', r)
          \<and> (r = - 1 \<longleftrightarrow> sq_count (a_sq a) = qN (a_sq a) - 1))
    \<and> (\<forall>loc \<in> set (live a). \<exists>a'. admin_sq_mark_cleanup a (of_nat loc) = Inr a')
    \<and> (queue_step (qN (a_sq a0)))\<^sup>*\<^sup>* [] (sq_view a)"
proof -
  have start: "sq_inv a0 \<and> qN (a_sq a0) = qN (a_sq a0)" by (simp add: sq_fresh_inv [OF assms(2)])
  then have inv: "sq_inv a" using sub.run_keeps [OF assms(1)] by blast
  have "sq_view a0 = []"
    using assms(2) by (simp add: sq_fresh_def sq_count_def flip: length_0_conv add: view_slots)
  then have "(queue_step (qN (a_sq a0)))\<^sup>*\<^sup>* [] (sq_view a)"
    using sub.run_simulated [OF assms(1) start] by simp
  moreover
  have "length (live a) < qN (a_sq a)"
    using length_live [of a] sq_count_less [OF inv] by simp
  moreover have "\<exists>a' c' r. admin_enqueue_command a c = Inr (a', c', r)
          \<and> (r = - 1 \<longleftrightarrow> sq_count (a_sq a) = qN (a_sq a) - 1)" for c
  proof (cases "sq_count (a_sq a) = qN (a_sq a) - 1")
    case True
    then show ?thesis by (simp add: enqueue_full [OF inv])
  next
    case False
    have "qt (a_sq a) < 4096"
      using inv by (auto simp: sq_inv_def ring_ok_def ring_wf_def)
    then have "(of_nat (qt (a_sq a)) :: s32) \<noteq> - 1" by (rule small_not_minus_1)
    with False enqueue_accepts [OF inv False, of c] show ?thesis by auto
  qed
  ultimately show ?thesis
    using inv finish_runs(1) [OF inv] by (auto simp: sq_inv_def)
qed

text \<open>One command in flight in slot 0 of a ring of four.\<close>

definition one_in_flight :: aqp where
  "one_in_flight = enqueued (blank_aqp 4) 0 zero_cmd"

lemma one_in_flight:
  "sq_inv one_in_flight" "sq_ring one_in_flight = [(0, False)]" "live one_in_flight = [0]"
  "reachable_from (blank_aqp 4) one_in_flight"
proof -
  let ?b = "blank_aqp 4"
  have inv: "sq_inv ?b" by (intro sq_fresh_inv blank_fresh) simp_all
  have c: "sq_count (a_sq ?b) = 0" "qt (a_sq ?b) = 0" "qN (a_sq ?b) = 4"
    and z: "q_cid (a_sq ?b) ! 0 = 0"
    by (simp_all add: blank_aqp_def blank_queue_def sq_count_def MAX_CMD_def)
  have room: "sq_count (a_sq ?b) \<noteq> qN (a_sq ?b) - 1" by (simp add: c)
  show "sq_inv one_in_flight"
    unfolding one_in_flight_def using z
    by (intro enqueued_view(2) [OF inv room zero_cmd_plain]) (simp_all add: MAX_CMD_def)
  have "sq_ring ?b = []" by (simp add: sq_ring_def ring_abs_def c)
  then show ring: "sq_ring one_in_flight = [(0, False)]"
    by (simp add: one_in_flight_def enqueued_ring(3) [OF inv room] c)
  then show "live one_in_flight = [0]"
    by (simp add: live_def)
  obtain i where i: "\<forall>j < i. q_cid (a_sq ?b) ! j \<noteq> 0"
    "admin_enqueue_command ?b zero_cmd = Inr (enqueued ?b i zero_cmd, with_cid i zero_cmd, of_nat 0)"
    using enqueue_accepts [OF inv room, of zero_cmd] by (auto simp: c)
  then have "i = 0" using z by auto
  with i(2) have "host_step ?b one_in_flight"
    unfolding one_in_flight_def by (intro submit [OF zero_cmd_plain]) simp
  then show "reachable_from ?b one_in_flight"
    by (rule r_into_rtranclp)
qed

theorem sq_cleanup_refines_witness:
  "\<exists>a'. admin_sq_mark_cleanup one_in_flight (of_nat 0) = Inr a' \<and> live a' = []
    \<and> sq_view a' = [] \<and> sq_inv a'"
proof -
  have "sq_view one_in_flight = [(0, cid_at one_in_flight 0, False)]"
    by (simp add: sq_view_def one_in_flight(2))
  then show ?thesis
    using sq_cleanup_refines [OF one_in_flight(1), of 0] by (auto simp: one_in_flight(3))
qed

theorem admin_queue_safety_witness:
  "\<not> a_lock one_in_flight \<and> length (live one_in_flight) < qN (a_sq one_in_flight)
    \<and> (\<exists>a'. admin_sq_mark_cleanup one_in_flight (of_nat 0) = Inr a')"
  using admin_queue_safety [OF one_in_flight(4)] blank_fresh [of 4] by (simp add: one_in_flight(3))

text \<open>Submitting the same command a number of times, with the values returned.\<close>

fun submit_n :: "nat \<Rightarrow> cmd \<Rightarrow> aqp \<Rightarrow> (aqp \<times> s32 list) res" where
  "submit_n 0 c a = Inr (a, [])"
| "submit_n (Suc n) c a =
     bindE (admin_enqueue_command a c) (\<lambda>(a1, c1, r).
     bindE (submit_n n c a1) (\<lambda>(a2, rs). Inr (a2, r # rs)))"

lemma submit_n_numeral: "submit_n (numeral k) c a =
     bindE (admin_enqueue_command a c) (\<lambda>(a1, c1, r).
     bindE (submit_n (pred_numeral k) c a1) (\<lambda>(a2, rs). Inr (a2, r # rs)))"
  by (simp add: numeral_eq_Suc)

text \<open>The operations' defining equations, for running them on concrete states.\<close>

lemmas pair_ops = admin_enqueue_command_def admin_sq_mark_cleanup_def admin_cq_mark_cleanup_def
  admin_cq_poll_def aqp_lock_def aqp_unlock_def sq_full_def set_dword_def give_slot_def
  reclaim_one_def Let_def MAX_CMD_def

lemma minus_1_cut: "ucast (ucast (- 1 :: u64) :: u16) = (65535 :: u32)"
  unfolding word_eq_unat
  by (simp add: unat_ucast_mod unsigned_minus_1_eq_mask mask_eq_exp_minus_1)

text \<open>
  With a ring of five slots, a size that does not divide 65536, the submission
  ring overruns. Submit one command and finish it, then submit five more with none finishing: the ring can
  hold four, but all five are accepted, the fifth in the slot before the head. The tail then equals the
  head, so the ring with five commands in flight looks empty to the controller.
\<close>

lemma ring_of_five_overruns:
  "bindE (submit_n 1 zero_cmd (blank_aqp 5)) (\<lambda>(a, _).
   bindE (admin_sq_mark_cleanup a 0) (\<lambda>a.
   bindE (submit_n 5 zero_cmd a) (\<lambda>(a, rs).
   Inr (rs, q_head (a_sq a), q_tail (a_sq a))))) = Inr ([1, 2, 3, 4, 0], 1, 1)"
  by (simp add: blank_aqp_def blank_queue_def zero_cmd_def submit_n_numeral pair_ops take_slot_def
      take_loop.simps mark_loop.simps minus_1_cut)

end
