(* ===== verification/Completion.thy ===== *)
theory Completion
  imports Submission
begin

section \<open>The completion side: phase tags and the head\<close>

text \<open>
  The contract of \<open>admin_cq_poll\<close> and \<open>admin_cq_mark_cleanup\<close>. The controller writes completions
  in ring order and flips their phase tag on every lap; the driver keeps the phase it expects.
  \<open>cq_quiet\<close> is the state with no completion waiting: the entries before the head belong to the
  current lap, those from the head on to the one before.
\<close>

abbreviation flip :: "u8 \<Rightarrow> u8" where
  "flip p \<equiv> (if p = 0 then 1 else 0)"

definition cq_wf :: "aqp \<Rightarrow> bool" where
  "cq_wf a \<longleftrightarrow> ring_wf (a_cq a) \<and> 2 \<le> qN (a_cq a) \<and> length (a_cq_mem a) = qN (a_cq a)
     \<and> (q_phase (a_cq a) = 0 \<or> q_phase (a_cq a) = 1)"

definition cq_quiet :: "aqp \<Rightarrow> bool" where
  "cq_quiet a \<longleftrightarrow> cq_wf a \<and> ring_ok 0 (a_cq a)
     \<and> (\<forall>l < qN (a_cq a). cpl_phase (a_cq_mem a ! l) =
          (if l < qh (a_cq a) then q_phase (a_cq a) else flip (q_phase (a_cq a))))"

lemma flip_flip: "p = 0 \<or> p = 1 \<Longrightarrow> flip (flip p) = p"
  by auto

lemma cq_poll_find:
  assumes "\<not> a_lock a" and "cq_wf a"
  shows "admin_cq_poll a cid = Inr (a,
    case List.find (\<lambda>l. cpl_match (a_cq a) cid (a_cq_mem a ! l)) [qh (a_cq a)..<qN (a_cq a)] of
      None \<Rightarrow> - 1 | Some l \<Rightarrow> of_nat l)"
  using assms poll_loop_find [of "a_cq a" "a_cq_mem a" 0 cid]
  by (simp add: admin_cq_poll_def aqp_lock_def aqp_unlock_def cq_wf_def ring_wf_def unlock_lock)

lemma cq_poll_quiet:
  assumes "\<not> a_lock a" and "cq_quiet a"
  shows "admin_cq_poll a cid = Inr (a, - 1)"
proof -
  have "cq_wf a" using assms(2) by (simp add: cq_quiet_def)
  have "List.find (\<lambda>l. cpl_match (a_cq a) cid (a_cq_mem a ! l)) [qh (a_cq a)..<qN (a_cq a)] = None"
    using assms(2) by (auto simp: find_None_iff cpl_match_def cq_quiet_def)
  with cq_poll_find [OF assms(1) \<open>cq_wf a\<close>, of cid] show ?thesis by simp
qed

text \<open>The controller posts one completion at the head.\<close>

definition post :: "aqp \<Rightarrow> cpl \<Rightarrow> aqp" where
  "post a e = a\<lparr>a_cq_mem := (a_cq_mem a)[qh (a_cq a) := e]\<rparr>"

lemma cq_poll_posted:
  assumes "\<not> a_lock a" and "cq_quiet a" and "cpl_match (a_cq a) cid e"
  shows "admin_cq_poll (post a e) cid = Inr (post a e, of_nat (qh (a_cq a)))"
proof -
  let ?h = "qh (a_cq a)"
  have wf: "cq_wf (post a e)" and h: "?h < qN (a_cq a)" "?h < length (a_cq_mem a)"
    using assms(2) by (auto simp: cq_quiet_def cq_wf_def post_def ring_wf_def)
  have "[?h..<qN (a_cq a)] = ?h # [Suc ?h..<qN (a_cq a)]"
    using h by (simp add: upt_conv_Cons)
  then have "List.find (\<lambda>l. cpl_match (a_cq (post a e)) cid (a_cq_mem (post a e) ! l))
      [qh (a_cq (post a e))..<qN (a_cq (post a e))] = Some ?h"
    using assms(3) h by (simp add: post_def)
  with cq_poll_find [OF _ wf, of cid] assms(1) show ?thesis
    by (simp add: post_def)
qed

text \<open>Consuming the completion at the head: the state afterwards.\<close>

definition consumed :: "aqp \<Rightarrow> aqp" where
  "consumed a =
     (let cq = a_cq a; cq' = reclaim_one (cq\<lparr>q_mark := (q_mark cq)[qh cq := 1]\<rparr>) (qh cq)
      in a\<lparr>a_cq := cq', a_log := a_log a @ [Doorbell (q_db cq) (ucast (q_head cq'))]\<rparr>)"

lemma mark_head_once:
  assumes "ring_ok 0 q"
  shows "mark_loop (q\<lparr>q_mark := (q_mark q)[qh q := 1]\<rparr>) (q_head q) 0 =
    Inr (reclaim_one (q\<lparr>q_mark := (q_mark q)[qh q := 1]\<rparr>) (qh q))"
proof -
  have wf: "ring_wf q" and N: "0 < qN q" using assms by (auto simp: ring_ok_def ring_wf_def)
  have one: "ring_ok 1 q" using assms N by (auto simp: ring_ok_def)
  have abs: "ring_abs 1 q = [(qh q, False)]"
    using assms N slot_at_0 [OF wf] unfolding ring_abs_def ring_ok_def by auto
  then have "mark_done (qh q) (ring_abs 1 q) = [(qh q, True)]"
    by (simp add: mark_done_def)
  with mark_and_reclaim [OF one, of "qh q"] abs show ?thesis by auto
qed

lemma cq_cleanup_head:
  assumes l: "\<not> a_lock a" and wf: "cq_wf a" and ok: "ring_ok 0 (a_cq a)"
  shows "admin_cq_mark_cleanup a (of_nat (qh (a_cq a))) = Inr (consumed a)"
proof -
  let ?q = "a_cq a" and ?m = "\<lambda>q. q\<lparr>q_mark := (q_mark q)[qh q := 1]\<rparr>"
  have w: "ring_wf ?q" "ring_wf (?m ?q)" and N: "2 \<le> qN ?q" "qh ?q < qN ?q" "qN ?q \<le> 4096"
    "length (q_mark ?q) = qN ?q"
    using wf by (auto simp: cq_wf_def ring_wf_def)
  have u: "unat (of_nat (qh ?q) :: u16) = qh ?q"
    using N by (simp add: unat_ucast_mod)
  have "qh (reclaim_one (?m ?q) (qh ?q)) \<noteq> qh ?q"
    using reclaim_one_wrap(1) [OF w(2), of "qh ?q"] N by auto
  then have "q_head ?q \<noteq> q_head (reclaim_one (?m ?q) (qh ?q))" by metis
  with mark_head_once [OF ok] u l N show ?thesis
    by (simp add: admin_cq_mark_cleanup_def aqp_lock_def aqp_unlock_def consumed_def Let_def
        unlock_lock)
qed

lemma consumed_quiet:
  assumes q: "cq_quiet a" and e: "cpl_phase e = q_phase (a_cq a)"
  shows "cq_quiet (consumed (post a e))"
    and "qh (a_cq (consumed (post a e))) = (qh (a_cq a) + 1) mod qN (a_cq a)"
    and "q_phase (a_cq (consumed (post a e))) =
      (if qh (a_cq a) + 1 = qN (a_cq a) then flip (q_phase (a_cq a)) else q_phase (a_cq a))"
proof -
  let ?q = "a_cq a" and ?a = "consumed (post a e)"
  let ?m = "?q\<lparr>q_mark := (q_mark ?q)[qh ?q := 1]\<rparr>"
  have wf: "cq_wf a" "ring_ok 0 ?q" using q by (auto simp: cq_quiet_def)
  have w: "ring_wf ?q" "ring_wf ?m" and N: "2 \<le> qN ?q" "qh ?q < qN ?q" "length (a_cq_mem a) = qN ?q"
    using wf by (auto simp: cq_wf_def ring_wf_def)
  have cq: "a_cq ?a = reclaim_one ?m (qh ?q)" and mem: "a_cq_mem ?a = (a_cq_mem a)[qh ?q := e]"
    by (simp_all add: consumed_def post_def Let_def)
  have "ring_ok 1 ?q" using wf(2) N by (auto simp: ring_ok_def)
  moreover have "qh ?q \<in> fst ` set (ring_abs 1 ?q)"
    using slot_at_0 [OF w(1)] by (simp add: ring_abs_def)
  ultimately have "ring_ok (Suc 0) ?m" using ring_abs_mark(1) by simp
  then have ok: "ring_ok 0 (a_cq ?a)"
    using reclaim_one_ok(1) [of 0 ?m] by (simp add: cq)
  note wrap = reclaim_one_wrap [OF w(2), of "qh ?q"]
  show "qh (a_cq ?a) = (qh ?q + 1) mod qN ?q"
    using wrap(1) N by (auto simp: cq)
  show "q_phase (a_cq ?a) = (if qh ?q + 1 = qN ?q then flip (q_phase ?q) else q_phase ?q)"
    using wrap(2) by (simp add: cq)
  have two: "q_phase ?q = 0 \<or> q_phase ?q = 1" using wf(1) by (simp add: cq_wf_def)
  have old: "cpl_phase (a_cq_mem a ! l) = (if l < qh ?q then q_phase ?q else flip (q_phase ?q))"
    if "l < qN ?q" for l
    using q that unfolding cq_quiet_def by blast
  have "cpl_phase (a_cq_mem ?a ! l) =
      (if l < qh (a_cq ?a) then q_phase (a_cq ?a) else flip (q_phase (a_cq ?a)))"
    if "l < qN (a_cq ?a)" for l
    using that old [of l] N e two wrap by (auto simp: cq mem nth_list_update)
  then show "cq_quiet ?a"
    unfolding cq_quiet_def cq_wf_def
    using ok two wrap N by (auto simp: cq mem ring_ok_def)
qed

text \<open>Reclaiming any slot of the window, with all that it does to the state.\<close>

lemma cq_cleanup_runs:
  assumes l: "\<not> a_lock a" and ok: "ring_ok w (a_cq a)" and w: "w < qN (a_cq a)"
    and loc: "loc \<in> fst ` set (ring_abs w (a_cq a))"
    and k: "k = length (takeWhile snd (mark_done loc (ring_abs w (a_cq a))))"
  shows "\<exists>a'. admin_cq_mark_cleanup a (of_nat loc) = Inr a'
    \<and> ring_abs (w - k) (a_cq a') = finish loc (ring_abs w (a_cq a)) \<and> ring_ok (w - k) (a_cq a')
    \<and> qh (a_cq a') = (qh (a_cq a) + k) mod qN (a_cq a)
    \<and> q_phase (a_cq a') = (if qh (a_cq a) + k < qN (a_cq a) then q_phase (a_cq a)
                            else flip (q_phase (a_cq a)))
    \<and> a_log a' = a_log a @ (if k = 0 then []
                            else [Doorbell (q_db (a_cq a)) (ucast (q_head (a_cq a')))])
    \<and> k \<le> w \<and> q_qs (a_cq a') = q_qs (a_cq a) \<and> q_db (a_cq a') = q_db (a_cq a)
    \<and> a_cq_mem a' = a_cq_mem a \<and> \<not> a_lock a'"
proof -
  let ?q = "a_cq a" and ?m = "(a_cq a)\<lparr>q_mark := (q_mark (a_cq a))[loc := 1]\<rparr>"
  obtain q' where q': "mark_loop ?m (q_head ?q) 0 = Inr q'" "q' = reclaim_n k ?m" "k \<le> w"
    "ring_ok (w - k) q'" "ring_abs (w - k) q' = finish loc (ring_abs w ?q)"
    using mark_and_reclaim [OF ok loc] by (auto simp: k)
  have wf: "ring_wf ?q" "ring_wf ?m" and N: "qN ?q \<le> 4096" "qh ?q < qN ?q" "length (q_mark ?q) = qN ?q"
    using ok by (auto simp: ring_ok_def ring_wf_def)
  have k_le: "k \<le> w" by (rule q'(3))
  have "loc < qN ?q"
    using loc slot_at_less [OF wf(1)] by (auto simp: ring_abs_def)
  then have u: "unat (of_nat loc :: u16) = loc" and lt: "loc < length (q_mark ?q)"
    using N by (simp_all add: unat_of_nat)
  have head: "qh q' = (if qh ?q + k < qN ?q then qh ?q + k else qh ?q + k - qN ?q)"
    and ph: "q_phase q' = (if qh ?q + k < qN ?q then q_phase ?q else flip (q_phase ?q))"
    using reclaim_n_head [OF wf(2), of k] q'(2,3) w by simp_all
  have hd: "qh q' = (qh ?q + k) mod qN ?q"
    using head N q'(3) w by (auto simp: mod_if)
  have "q_head ?q = q_head q' \<longleftrightarrow> qh ?q = qh q'" by (simp add: word_eq_unat)
  also have "\<dots> \<longleftrightarrow> k = 0" using head N q'(3) w by auto
  finally have moved: "q_head ?q = q_head q' \<longleftrightarrow> k = 0" .
  have db: "q_db q' = q_db ?q" by (simp add: q'(2))
  define a' where "a' = a\<lparr>a_cq := q', a_log := a_log a @ (if k = 0 then []
      else [Doorbell (q_db ?q) (ucast (q_head q'))])\<rparr>"
  have "admin_cq_mark_cleanup a (of_nat loc) = Inr a'"
    using l q'(1) u lt moved db
    by (simp add: admin_cq_mark_cleanup_def aqp_lock_def aqp_unlock_def Let_def a'_def unlock_lock)
  then show ?thesis
    using l q'(4,5) hd ph k_le db by (intro exI [of _ a']) (simp add: a'_def q'(2))
qed

subsection \<open>Properties\<close>

text \<open>
  admin_cq_poll returns the index of the first completion, from the head to the end of the ring,
  whose command id is the one asked for and whose phase tag is the current phase, and -1 when
  there is none. It changes nothing and leaves the lock free. It does not look past the end of the ring.
\<close>

theorem cq_poll_first_match:
  assumes "\<not> a_lock a" and "cq_wf a"
  shows "admin_cq_poll a cid = Inr (a,
    case List.find (\<lambda>l. cpl_cid (a_cq_mem a ! l) = ucast cid
                      \<and> cpl_phase (a_cq_mem a ! l) = q_phase (a_cq a))
           [qh (a_cq a)..<qN (a_cq a)] of
      None \<Rightarrow> - 1 | Some l \<Rightarrow> of_nat l)"
  using cq_poll_find [OF assms] by (simp add: cpl_match_def)

theorem cq_poll_first_match_witness:
  "admin_cq_poll (blank_aqp 4) 0 = Inr (blank_aqp 4, - 1)"
  using cq_poll_first_match [of "blank_aqp 4" 0]
  by (simp add: blank_aqp_def blank_queue_def cq_wf_def ring_wf_def upt_rec cpl_phase_def)

text \<open>
  admin_cq_mark_cleanup with any window of completions that were taken or may still
  be taken out of order, smaller than the ring: it marks the slot, drops the marked slots at the front of the
  window, moves the head by their number modulo the ring size, flips the phase exactly when the head passes the
  end of the ring, and writes the new head to the doorbell exactly when the head moved.
\<close>

theorem cq_cleanup_refines:
  assumes l: "\<not> a_lock a" and ok: "ring_ok w (a_cq a)" and w: "w < qN (a_cq a)"
    and loc: "loc \<in> fst ` set (ring_abs w (a_cq a))"
    and k: "k = length (takeWhile snd (mark_done loc (ring_abs w (a_cq a))))"
  shows "\<exists>a'. admin_cq_mark_cleanup a (of_nat loc) = Inr a'
    \<and> ring_abs (w - k) (a_cq a') = finish loc (ring_abs w (a_cq a)) \<and> ring_ok (w - k) (a_cq a')
    \<and> qh (a_cq a') = (qh (a_cq a) + k) mod qN (a_cq a)
    \<and> q_phase (a_cq a') = (if qh (a_cq a) + k < qN (a_cq a) then q_phase (a_cq a)
                            else flip (q_phase (a_cq a)))
    \<and> a_log a' = a_log a @ (if k = 0 then []
                            else [Doorbell (q_db (a_cq a)) (ucast (q_head (a_cq a')))])"
  using cq_cleanup_runs [OF l ok w loc k] by blast

text \<open>A blank queue pair whose completion side waits for slots 0 and 1, in any order.\<close>

theorem cq_cleanup_refines_witness:
  "\<exists>a'. admin_cq_mark_cleanup (blank_aqp 4) (of_nat 1) = Inr a'
    \<and> ring_abs 2 (a_cq a') = [(0, False), (1, True)] \<and> a_log a' = []"
proof -
  have abs: "ring_abs 2 (a_cq (blank_aqp 4)) = [(0, False), (1, False)]"
    by (simp add: ring_abs_def slot_at_def blank_aqp_def blank_queue_def upt_rec)
  have ok: "ring_ok 2 (a_cq (blank_aqp 4))"
    by (auto simp: ring_ok_def ring_wf_def slot_at_def blank_aqp_def blank_queue_def)
  show ?thesis
    using cq_cleanup_refines [of "blank_aqp 4" 2 1 0] ok
    unfolding abs by (auto simp: mark_done_def finish_def blank_aqp_def blank_queue_def)
qed

text \<open>
  C13. A full turn of the completion side. With no completion waiting, a poll returns -1
  whatever id it asks for. After the controller posts a completion at the head with the current phase, a
  poll for its id returns the head; reclaiming that slot advances the head by one modulo the ring
  size, flips the phase at the end of the ring, rings the doorbell with the new head, and leaves no
  completion waiting, so entries of an earlier lap are never taken again.
\<close>

theorem completion_turn:
  assumes "\<not> a_lock a" and "cq_quiet a"
    and "cpl_cid e = ucast cid" and "cpl_phase e = q_phase (a_cq a)"
  shows "admin_cq_poll a any_cid = Inr (a, - 1)
    \<and> admin_cq_poll (post a e) cid = Inr (post a e, of_nat (qh (a_cq a)))
    \<and> (\<exists>a'. admin_cq_mark_cleanup (post a e) (of_nat (qh (a_cq a))) = Inr a'
        \<and> qh (a_cq a') = (qh (a_cq a) + 1) mod qN (a_cq a)
        \<and> q_phase (a_cq a') = (if qh (a_cq a) + 1 = qN (a_cq a) then flip (q_phase (a_cq a))
                                else q_phase (a_cq a))
        \<and> a_log a' = a_log a @ [Doorbell (q_db (a_cq a)) (ucast (q_head (a_cq a')))]
        \<and> cq_quiet a')"
proof -
  have p: "\<not> a_lock (post a e)" "cq_wf (post a e)" "ring_ok 0 (a_cq (post a e))"
    using assms(1,2) by (auto simp: post_def cq_quiet_def cq_wf_def)
  have "admin_cq_mark_cleanup (post a e) (of_nat (qh (a_cq a))) = Inr (consumed (post a e))"
    using cq_cleanup_head [OF p] by (simp add: post_def)
  moreover have "a_log (consumed (post a e)) =
      a_log a @ [Doorbell (q_db (a_cq a)) (ucast (q_head (a_cq (consumed (post a e)))))]"
    by (simp add: consumed_def post_def Let_def)
  ultimately show ?thesis
    using cq_poll_quiet [OF assms(1,2)] cq_poll_posted [OF assms(1,2), of cid e] assms(3,4)
      consumed_quiet [OF assms(2,4)]
    by (auto simp: cpl_match_def)
qed

lemma blank_quiet: "2 \<le> unat n \<Longrightarrow> unat n \<le> 4096 \<Longrightarrow> cq_quiet (blank_aqp n)"
  by (auto simp: cq_quiet_def cq_wf_def ring_ok_def ring_wf_def slot_at_def blank_aqp_def
      blank_queue_def cpl_phase_def)

definition done_cpl :: "u32 \<Rightarrow> u32 \<Rightarrow> cpl" where
  "done_cpl dw0 dw3 = \<lparr>cpl_dword = [dw0, 0, 0, dw3]\<rparr>"

theorem completion_turn_witness:
  "admin_cq_poll (post (blank_aqp 4) (done_cpl 0 0x10007)) 7 =
     Inr (post (blank_aqp 4) (done_cpl 0 0x10007), of_nat (qh (a_cq (blank_aqp 4))))"
proof -
  have "\<not> a_lock (blank_aqp 4)" "cq_quiet (blank_aqp 4)"
    by (simp add: blank_aqp_def, rule blank_quiet) simp_all
  moreover have "cpl_cid (done_cpl 0 0x10007) = ucast (7 :: u16)"
    "cpl_phase (done_cpl 0 0x10007) = q_phase (a_cq (blank_aqp 4))"
    by (simp_all add: cpl_cid_def cpl_phase_def done_cpl_def blank_aqp_def blank_queue_def)
  ultimately show ?thesis using completion_turn by blast
qed

end
