(* ===== verification/Admin_Commands.thy ===== *)
theory Admin_Commands
  imports Completion
begin

section \<open>Synchronous admin commands (kernel/nvme/admin.c)\<close>

text \<open>
  Every admin command of the driver runs the same sequence, written out in each function: submit,
  retrying while the ring is full; take the command id out of the command; poll until a
  completion with that id shows up; read it; free the submission slot and the completion slot.

  The controller is not part of the source. It is a parameter \<open>dev\<close>: given the queue pair (the
  rings it shares and what was written to its doorbells) and its own state, it returns the
  completion ring's new contents and its new state. It runs once between two tries of a loop; a
  \<open>dev\<close> that does nothing for a while is a slow controller. A loop that never ends is \<open>None\<close>.
\<close>

type_synonym 'd device = "aqp \<Rightarrow> 'd \<Rightarrow> cpl list \<times> 'd"

partial_function (option) enqueue_retry ::
  "'d device \<Rightarrow> aqp \<Rightarrow> 'd \<Rightarrow> cmd \<Rightarrow> (aqp \<times> 'd \<times> cmd \<times> s32) res option" where
  "enqueue_retry dev a d c =
     (case admin_enqueue_command a c of
       Inl f \<Rightarrow> Some (Inl f)
     | Inr (a1, c1, ret1) \<Rightarrow>
         if ret1 = - 1
         then (let (mem, d1) = dev a1 d in enqueue_retry dev (a1\<lparr>a_cq_mem := mem\<rparr>) d1 c1)
         else Some (Inr (a1, d, c1, ret1)))"

partial_function (option) poll_retry ::
  "'d device \<Rightarrow> aqp \<Rightarrow> 'd \<Rightarrow> u16 \<Rightarrow> (aqp \<times> 'd \<times> s32) res option" where
  "poll_retry dev a d cid =
     (case admin_cq_poll a cid of
       Inl f \<Rightarrow> Some (Inl f)
     | Inr (a1, ret2) \<Rightarrow>
         if ret2 = - 1
         then (let (mem, d1) = dev a1 d in poll_retry dev (a1\<lparr>a_cq_mem := mem\<rparr>) d1 cid)
         else Some (Inr (a1, d, ret2)))"

definition submit_and_wait ::
  "'d device \<Rightarrow> aqp \<Rightarrow> 'd \<Rightarrow> cmd \<Rightarrow> (aqp \<times> 'd \<times> s32 \<times> s32) res option" where
  "submit_and_wait dev a d c =
     bindO (enqueue_retry dev a d c) (\<lambda>(a1, d1, c1, ret1).
     let cid = drop_bit 16 (cmd_dword c1 ! 0) in
     bindO (poll_retry dev a1 d1 (ucast cid)) (\<lambda>(a2, d2, ret2).
     Some (Inr (a2, d2, ret1, ret2))))"

definition read_cpl :: "aqp \<Rightarrow> s32 \<Rightarrow> cpl res" where
  "read_cpl a ret2 = rd (a_cq_mem a) (unat ret2)"

definition mark_cleanup :: "aqp \<Rightarrow> s32 \<Rightarrow> s32 \<Rightarrow> aqp res" where
  "mark_cleanup a ret1 ret2 =
     bindE (admin_sq_mark_cleanup a (ucast ret1)) (\<lambda>a1. admin_cq_mark_cleanup a1 (ucast ret2))"

text \<open>
  The two uses of the sequence: without reading the completion (self test, queue deletion), and with
  it (queue creation reads the completion and does not look at it).
\<close>

definition run_cmd :: "'d device \<Rightarrow> aqp \<times> 'd \<Rightarrow> cmd \<Rightarrow> (aqp \<times> 'd) res option" where
  "run_cmd dev s c =
     bindO (submit_and_wait dev (fst s) (snd s) c) (\<lambda>(a1, d1, ret1, ret2).
     bindO (Some (mark_cleanup a1 ret1 ret2)) (\<lambda>a2. Some (Inr (a2, d1))))"

definition run_cmd_read :: "'d device \<Rightarrow> aqp \<times> 'd \<Rightarrow> cmd \<Rightarrow> (aqp \<times> 'd) res option" where
  "run_cmd_read dev s c =
     bindO (submit_and_wait dev (fst s) (snd s) c) (\<lambda>(a1, d1, ret1, ret2).
     bindO (Some (read_cpl a1 ret2)) (\<lambda>_.
     bindO (Some (mark_cleanup a1 ret1 ret2)) (\<lambda>a2. Some (Inr (a2, d1)))))"

text \<open>
  The command functions. The local \<open>struct cmd\<close> starts with whatever was on the stack, \<open>g\<close>; the
  clearing loop sets its sixteen words to 0.
\<close>

definition self_test_cmd :: "cmd \<Rightarrow> cmd" where
  "self_test_cmd g = set_dword 10 0x01 (set_dword 0 (opcode DEV_SELF_TEST) (clear_cmd g))"

definition admin_dev_self_test :: "'d device \<Rightarrow> cmd \<Rightarrow> aqp \<times> 'd \<Rightarrow> (aqp \<times> 'd) res option" where
  "admin_dev_self_test dev g s = run_cmd dev s (self_test_cmd g)"

text \<open>Storing the queue count of a completion, as \<open>admin_set_num_queues\<close> and \<open>admin_fpga_config\<close> do.\<close>

definition run_cmd_count :: "'d device \<Rightarrow> aqp \<times> 'd \<Rightarrow> cmd \<Rightarrow> (aqp \<times> 'd) res option" where
  "run_cmd_count dev s c =
     bindO (submit_and_wait dev (fst s) (snd s) c) (\<lambda>(a1, d1, ret1, ret2).
     bindO (Some (read_cpl a1 ret2)) (\<lambda>cp.
     let a2 = a1\<lparr>a_supported := drop_bit 16 (cpl_dword cp ! 0) + 1\<rparr> in
     bindO (Some (mark_cleanup a2 ret1 ret2)) (\<lambda>a3. Some (Inr (a3, d1)))))"

definition num_queues_cmd :: "cmd \<Rightarrow> cmd" where
  "num_queues_cmd g =
     set_dword 11 (push_bit 16 65534 OR 65534)
       (set_dword 10 0x07 (set_dword 0 (opcode SET_FEAT) (clear_cmd g)))"

definition admin_set_num_queues :: "'d device \<Rightarrow> cmd \<Rightarrow> aqp \<times> 'd \<Rightarrow> (aqp \<times> 'd) res option" where
  "admin_set_num_queues dev g s = run_cmd_count dev s (num_queues_cmd g)"

definition fpga_cmd :: "cmd \<Rightarrow> cmd" where
  "fpga_cmd g =
     set_dword 8 0 (set_dword 7 0 (set_dword 6 0 (set_dword 5 0 (set_dword 4 0 (set_dword 3 0
       (set_dword 2 0xBADA55F1 (set_dword 1 0x2E5457E3 (set_dword 0 0xF0 (clear_cmd g)))))))))"

definition admin_fpga_config :: "'d device \<Rightarrow> cmd \<Rightarrow> aqp \<times> 'd \<Rightarrow> (aqp \<times> 'd) res option" where
  "admin_fpga_config dev g s = run_cmd_count dev s (fpga_cmd g)"

subsection \<open>The controller's part\<close>

text \<open>
  \<open>posts dev a d e d'\<close>: after running a finite number of times without touching the completion
  ring, the controller writes the completion \<open>e\<close> at the slot of the driver's head. With one
  command in flight that is the next slot of its own.
\<close>

inductive posts :: "'d device \<Rightarrow> aqp \<Rightarrow> 'd \<Rightarrow> cpl \<Rightarrow> 'd \<Rightarrow> bool" for dev where
  now: "dev a d = (a_cq_mem (post a e), d') \<Longrightarrow> posts dev a d e d'"
| later: "dev a d = (a_cq_mem a, d1) \<Longrightarrow> posts dev a d1 e d' \<Longrightarrow> posts dev a d e d'"

text \<open>No command in flight and no completion waiting.\<close>

definition idle :: "aqp \<Rightarrow> bool" where
  "idle a \<longleftrightarrow> sq_inv a \<and> sq_count (a_sq a) = 0 \<and> cq_quiet a"

lemma idle_facts:
  assumes "idle a"
  shows "sq_inv a" "cq_quiet a" "\<not> a_lock a" "sq_ring a = []" "live a = []"
    "q_cid (a_sq a) ! 0 = 0" "sq_count (a_sq a) \<noteq> qN (a_sq a) - 1"
proof -
  show i: "sq_inv a" "cq_quiet a" using assms by (auto simp: idle_def)
  show "\<not> a_lock a" using i by (simp add: sq_inv_def)
  show r: "sq_ring a = []" using assms by (simp add: idle_def sq_ring_def ring_abs_def)
  then show l: "live a = []" by (simp add: live_def)
  show "q_cid (a_sq a) ! 0 = 0" using i(1) l by (auto simp: sq_inv_def MAX_CMD_def)
  show "sq_count (a_sq a) \<noteq> qN (a_sq a) - 1"
    using assms i(1) by (auto simp: idle_def sq_inv_def)
qed

lemma enqueue_idle:
  assumes "idle a"
  shows "enqueue_retry dev a d c =
    Some (Inr (enqueued a 0 c, d, with_cid 0 c, of_nat (qt (a_sq a))))"
proof -
  note f = idle_facts [OF assms]
  obtain i where i: "q_cid (a_sq a) ! i = 0" "\<forall>j < i. q_cid (a_sq a) ! j \<noteq> 0"
    "admin_enqueue_command a c = Inr (enqueued a i c, with_cid i c, of_nat (qt (a_sq a)))"
    using enqueue_accepts [OF f(1,7), of c] by blast
  then have "i = 0" using f(6) by auto
  moreover have "qt (a_sq a) < 4096"
    using f(1) by (auto simp: sq_inv_def ring_ok_def ring_wf_def)
  then have "(of_nat (qt (a_sq a)) :: s32) \<noteq> - 1" by (rule small_not_minus_1)
  ultimately show ?thesis
    using i(3) by (simp add: enqueue_retry.simps [of dev a d c])
qed

text \<open>Waiting for a controller that posts: the poll loop ends with the head's index.\<close>

lemma poll_posts:
  assumes "posts dev a d e d'" and "\<not> a_lock a" and "cq_quiet a"
    and "cpl_match (a_cq a) cid e"
  shows "poll_retry dev a d cid = Some (Inr (post a e, d', of_nat (qh (a_cq a))))"
  using assms
proof (induction rule: posts.induct)
  case (now a d e d')
  have "qh (a_cq a) < 4096"
    using now.prems(2) by (auto simp: cq_quiet_def cq_wf_def ring_wf_def)
  then have "(of_nat (qh (a_cq a)) :: s32) \<noteq> - 1" by (rule small_not_minus_1)
  then have "poll_retry dev (post a e) d' cid = Some (Inr (post a e, d', of_nat (qh (a_cq a))))"
    using cq_poll_posted [OF now.prems] by (simp add: poll_retry.simps)
  moreover have "a\<lparr>a_cq_mem := a_cq_mem (post a e)\<rparr> = post a e"
    by (simp add: post_def)
  ultimately show ?case
    using cq_poll_quiet [OF now.prems(1,2), of cid] now.hyps
    by (subst poll_retry.simps) simp
next
  case (later a d d1 e d')
  have "a\<lparr>a_cq_mem := a_cq_mem a\<rparr> = a" by simp
  with later cq_poll_quiet [OF later.prems(1,2), of cid] show ?case
    by (subst poll_retry.simps) simp
qed

text \<open>
  The state after a command that the controller completed with \<open>e\<close>: the command was submitted with
  id 0, the only one in flight, then its completion was posted and both slots were reclaimed.
\<close>

definition after_cmd :: "aqp \<Rightarrow> cmd \<Rightarrow> cpl \<Rightarrow> aqp" where
  "after_cmd a c e = consumed (finished (post (enqueued a 0 c) e) (qt (a_sq a)))"

text \<open>The controller completes the command \<open>c\<close> with \<open>e\<close>: id 0, and the phase tag of this lap.\<close>

definition completes :: "'d device \<Rightarrow> aqp \<Rightarrow> 'd \<Rightarrow> cmd \<Rightarrow> cpl \<Rightarrow> 'd \<Rightarrow> bool" where
  "completes dev a d c e d' \<longleftrightarrow> posts dev (enqueued a 0 c) d e d'
     \<and> cpl_cid e = 0 \<and> cpl_phase e = q_phase (a_cq a)"

lemma enqueued_cq [simp]: "a_cq (enqueued a i c) = a_cq a" "a_cq_mem (enqueued a i c) = a_cq_mem a"
  "a_lock (enqueued a i c) = a_lock a" "q_db (a_sq (enqueued a i c)) = q_db (a_sq a)"
  by (simp_all add: enqueued_def Let_def)

lemma finished_cq [simp]: "a_cq (finished a l) = a_cq a" "a_cq_mem (finished a l) = a_cq_mem a"
  "a_lock (finished a l) = a_lock a" "a_log (finished a l) = a_log a"
  by (simp_all add: finished_def Let_def)

lemma post_sq [simp]: "a_sq (post a e) = a_sq a" "a_sq_mem (post a e) = a_sq_mem a"
  "a_cq (post a e) = a_cq a" "a_lock (post a e) = a_lock a" "a_log (post a e) = a_log a"
  by (simp_all add: post_def)

lemma consumed_sq [simp]: "a_sq (consumed a) = a_sq a" "a_sq_mem (consumed a) = a_sq_mem a"
  "a_lock (consumed a) = a_lock a"
  by (simp_all add: consumed_def Let_def)

lemma quiet_frame:
  "cq_quiet a \<Longrightarrow> a_cq a' = a_cq a \<Longrightarrow> a_cq_mem a' = a_cq_mem a \<Longrightarrow> cq_quiet a'"
  by (simp add: cq_quiet_def cq_wf_def)

lemma finished_post: "finished (post a e) l = post (finished a l) e"
  by (simp add: finished_def post_def Let_def cid_at_def sq_ring_def)

lemma cut_index: "n < 4096 \<Longrightarrow> ucast (of_nat n :: s32) = (of_nat n :: u16)"
  unfolding word_eq_unat by (simp add: unat_of_nat unat_ucast_mod)

text \<open>The queue pair between the submission and the cleanup of the only command in flight.\<close>

lemma one_in_flight_facts:
  assumes "idle a" and "plain_cmd c"
  shows "sq_inv (enqueued a 0 c)" "live (enqueued a 0 c) = [qt (a_sq a)]"
    "cmd_dword (with_cid 0 c) ! 0 div 65536 = 0" "qt (a_sq a) < 4096" "qh (a_cq a) < 4096"
    "cq_quiet (enqueued a 0 c)" "sq_ring (enqueued a 0 c) = [(qt (a_sq a), False)]"
proof -
  note f = idle_facts [OF assms(1)]
  show "sq_inv (enqueued a 0 c)"
    using f assms(2) by (intro enqueued_view(2)) (simp_all add: MAX_CMD_def)
  show r: "sq_ring (enqueued a 0 c) = [(qt (a_sq a), False)]"
    using enqueued_ring(3) [OF f(1,7), of 0 c] f(4) by simp
  then show "live (enqueued a 0 c) = [qt (a_sq a)]" by (simp add: live_def)
  have "unat (drop_bit 16 (cmd_dword (with_cid 0 c) ! 0)) = 0"
    using with_cid_cid [OF assms(2), of 0] by (simp add: cmd_cid_def)
  then show "cmd_dword (with_cid 0 c) ! 0 div 65536 = 0"
    by (simp add: drop_bit_eq_div unat_eq_0)
  show "qt (a_sq a) < 4096" using f(1) by (auto simp: sq_inv_def ring_ok_def ring_wf_def)
  show "qh (a_cq a) < 4096" using f(2) by (auto simp: cq_quiet_def cq_wf_def ring_wf_def)
  show "cq_quiet (enqueued a 0 c)" by (rule quiet_frame [OF f(2)]) simp_all
qed

lemma submit_and_wait_completes:
  assumes "idle a" and "plain_cmd c" and "completes dev a d c e d'"
  shows "submit_and_wait dev a d c =
    Some (Inr (post (enqueued a 0 c) e, d', of_nat (qt (a_sq a)), of_nat (qh (a_cq a))))"
proof -
  note f = one_in_flight_facts [OF assms(1,2)]
  have p: "posts dev (enqueued a 0 c) d e d'" and m: "cpl_match (a_cq (enqueued a 0 c)) 0 e"
    using assms(3) by (simp_all add: completes_def cpl_match_def)
  have "\<not> a_lock (enqueued a 0 c)" using f(1) by (simp add: sq_inv_def)
  from poll_posts [OF p this f(6) m] show ?thesis
    using enqueue_idle [OF assms(1), of dev d c] f(3)
    by (simp add: submit_and_wait_def drop_bit_eq_div)
qed

lemma mark_cleanup_completes:
  assumes "idle a" and "plain_cmd c" and "cpl_phase e = q_phase (a_cq a)"
  shows "mark_cleanup (post (enqueued a 0 c) e) (of_nat (qt (a_sq a))) (of_nat (qh (a_cq a))) =
      Inr (after_cmd a c e)"
    and "idle (after_cmd a c e)"
proof -
  note f = one_in_flight_facts [OF assms(1,2)]
  let ?b = "post (enqueued a 0 c) e" and ?l = "qt (a_sq a)"
  have b: "sq_inv ?b" "live ?b = [?l]" "sq_ring ?b = [(?l, False)]"
    using sq_inv_frame [OF f(1), of ?b] f(1,2,7) by (simp_all add: sq_inv_def sq_ring_def)
  then have loc: "?l \<in> set (live ?b)" by simp
  have q: "cq_quiet (finished (enqueued a 0 c) ?l)"
    by (rule quiet_frame [OF f(6)]) simp_all
  have wf: "cq_wf (finished ?b ?l)" "ring_ok 0 (a_cq (finished ?b ?l))" "\<not> a_lock (finished ?b ?l)"
    using f(6) b(1) by (auto simp: cq_quiet_def cq_wf_def sq_inv_def post_def)
  show "mark_cleanup ?b (of_nat ?l) (of_nat (qh (a_cq a))) = Inr (after_cmd a c e)"
    using finish_runs(1) [OF b(1) loc] cq_cleanup_head [OF wf(3,1,2)] f(4,5)
    by (simp add: mark_cleanup_def cut_index after_cmd_def del: of_nat_unat)
  have "sq_ring (finished ?b ?l) = []"
    using finish_runs(2) [OF b(1) loc] by (simp add: b(3) finish_def mark_done_def)
  then have "sq_count (a_sq (finished ?b ?l)) = 0"
    by (simp add: sq_ring_def ring_abs_def)
  moreover have "sq_inv (after_cmd a c e)"
    using sq_inv_frame(1) [OF finished_inv(1) [OF b(1) loc]] wf(3) by (simp add: after_cmd_def)
  moreover have "cq_quiet (after_cmd a c e)"
    using consumed_quiet(1) [OF q, of e] assms(3) by (simp add: after_cmd_def finished_post)
  ultimately show "idle (after_cmd a c e)" by (simp add: idle_def after_cmd_def)
qed

lemma run_cmd_completes:
  assumes "idle a" and "plain_cmd c" and "completes dev a d c e d'"
  shows "run_cmd dev (a, d) c = Some (Inr (after_cmd a c e, d'))"
    and "run_cmd_read dev (a, d) c = Some (Inr (after_cmd a c e, d'))"
    and "read_cpl (post (enqueued a 0 c) e) (of_nat (qh (a_cq a))) = Inr e"
proof -
  have p: "cpl_phase e = q_phase (a_cq a)" using assms(3) by (simp add: completes_def)
  note run = submit_and_wait_completes [OF assms] mark_cleanup_completes(1) [OF assms(1,2) p]
  have h: "qh (a_cq a) < 4096" by (rule one_in_flight_facts(5) [OF assms(1,2)])
  have "qh (a_cq a) < length (a_cq_mem a)"
    using idle_facts(2) [OF assms(1)] by (auto simp: cq_quiet_def cq_wf_def ring_wf_def)
  with h show rd: "read_cpl (post (enqueued a 0 c) e) (of_nat (qh (a_cq a))) = Inr e"
    by (simp add: read_cpl_def post_def unat_ucast_mod)
  show "run_cmd dev (a, d) c = Some (Inr (after_cmd a c e, d'))"
    using run by (simp add: run_cmd_def del: of_nat_unat)
  show "run_cmd_read dev (a, d) c = Some (Inr (after_cmd a c e, d'))"
    using run rd by (simp add: run_cmd_read_def del: of_nat_unat)
qed

text \<open>The count of I/O queues is no concern of the rings.\<close>

lemma sq_cleanup_supported:
  assumes "admin_sq_mark_cleanup a l = Inr a'"
  shows "admin_sq_mark_cleanup (a\<lparr>a_supported := n\<rparr>) l = Inr (a'\<lparr>a_supported := n\<rparr>)"
  using assms
  by (auto simp: admin_sq_mark_cleanup_def aqp_lock_def aqp_unlock_def Let_def split: if_splits)

lemma cq_cleanup_supported:
  assumes "admin_cq_mark_cleanup a l = Inr a'"
  shows "admin_cq_mark_cleanup (a\<lparr>a_supported := n\<rparr>) l = Inr (a'\<lparr>a_supported := n\<rparr>)"
proof -
  obtain m cq where "\<not> a_lock a" "wr (q_mark (a_cq a)) (unat l) 1 = Inr m"
    "mark_loop (a_cq a\<lparr>q_mark := m\<rparr>) (q_head (a_cq a)) 0 = Inr cq"
    using assms
    by (auto simp: admin_cq_mark_cleanup_def aqp_lock_def Let_def bindE_Inr_iff split: if_splits)
  then show ?thesis
    using assms by (cases "q_head (a_cq a) = q_head cq")
      (auto simp: admin_cq_mark_cleanup_def aqp_lock_def aqp_unlock_def Let_def)
qed

lemma mark_cleanup_supported:
  assumes "mark_cleanup a r1 r2 = Inr a'"
  shows "mark_cleanup (a\<lparr>a_supported := n\<rparr>) r1 r2 = Inr (a'\<lparr>a_supported := n\<rparr>)"
  using assms sq_cleanup_supported [of a "ucast r1" _ n] cq_cleanup_supported [of _ "ucast r2" a' n]
  by (auto simp: mark_cleanup_def)

lemma idle_supported [simp]: "idle (a\<lparr>a_supported := n\<rparr>) = idle a"
proof -
  let ?b = "a\<lparr>a_supported := n\<rparr>"
  have r: "sq_ring ?b = sq_ring a" by (simp add: sq_ring_def)
  moreover have "live ?b = live a" by (simp add: live_def r)
  moreover have "cid_at ?b = cid_at a" by (simp add: fun_eq_iff cid_at_def)
  ultimately have "sq_inv ?b = sq_inv a" by (simp add: sq_inv_def)
  then show ?thesis by (simp add: idle_def cq_quiet_def cq_wf_def)
qed

lemma run_cmd_count_completes:
  assumes "idle a" and "plain_cmd c" and "completes dev a d c e d'"
  shows "run_cmd_count dev (a, d) c =
    Some (Inr ((after_cmd a c e)\<lparr>a_supported := drop_bit 16 (cpl_dword e ! 0) + 1\<rparr>, d'))"
proof -
  have p: "cpl_phase e = q_phase (a_cq a)" using assms(3) by (simp add: completes_def)
  show ?thesis
    using submit_and_wait_completes [OF assms] run_cmd_completes(3) [OF assms]
      mark_cleanup_supported [OF mark_cleanup_completes(1) [OF assms(1,2) p]]
    by (simp add: run_cmd_count_def Let_def del: of_nat_unat drop_bit_eq_div)
qed

text \<open>What a command leaves alone, and what it writes to the device.\<close>

lemma after_cmd_frame [simp]:
  "a_use_mark (after_cmd a c e) = a_use_mark a" "a_io_qp_list (after_cmd a c e) = a_io_qp_list a"
  "a_supported (after_cmd a c e) = a_supported a" "a_used (after_cmd a c e) = a_used a"
  "a_sq_dma_addrs (after_cmd a c e) = a_sq_dma_addrs a"
  "a_cq_dma_addrs (after_cmd a c e) = a_cq_dma_addrs a"
  "a_lock (after_cmd a c e) = a_lock a"
  "q_db (a_sq (after_cmd a c e)) = q_db (a_sq a)" "q_db (a_cq (after_cmd a c e)) = q_db (a_cq a)"
  "q_es (a_sq (after_cmd a c e)) = q_es (a_sq a)" "q_es (a_cq (after_cmd a c e)) = q_es (a_cq a)"
  by (simp_all add: after_cmd_def consumed_def finished_def post_def enqueued_def Let_def
      reclaim_one_def)

lemma consumed_post_log:
  assumes "cq_quiet a"
  shows "a_log (consumed (post a e)) =
    a_log a @ [Doorbell (q_db (a_cq a)) (of_nat ((qh (a_cq a) + 1) mod qN (a_cq a)))]"
proof -
  let ?q = "reclaim_one ((a_cq a)\<lparr>q_mark := (q_mark (a_cq a))[qh (a_cq a) := 1]\<rparr>) (qh (a_cq a))"
  have wf: "ring_wf (a_cq a)" using assms by (simp add: cq_quiet_def cq_wf_def)
  then have wf': "ring_wf ((a_cq a)\<lparr>q_mark := (q_mark (a_cq a))[qh (a_cq a) := 1]\<rparr>)"
    and lt: "qh (a_cq a) < qN (a_cq a)"
    by (simp_all add: ring_wf_def)
  have "qh ?q = (qh (a_cq a) + 1) mod qN (a_cq a)"
    using reclaim_one_wrap(1) [OF wf', of "qh (a_cq a)"] lt by auto
  then have "(ucast (q_head ?q) :: u32) = of_nat ((qh (a_cq a) + 1) mod qN (a_cq a))"
    by (metis of_nat_unat)
  then show ?thesis by (simp add: consumed_def post_def Let_def)
qed

lemma after_cmd_log:
  assumes "idle a" and "plain_cmd c"
  shows "a_log (after_cmd a c e) = a_log a @ [SqStore (qt (a_sq a)) (with_cid 0 c),
    Doorbell (q_db (a_sq a)) (of_nat ((qt (a_sq a) + 1) mod qN (a_sq a))),
    Doorbell (q_db (a_cq a)) (of_nat ((qh (a_cq a) + 1) mod qN (a_cq a)))]"
proof -
  let ?b = "finished (enqueued a 0 c) (qt (a_sq a))"
  have "cq_quiet ?b"
    by (rule quiet_frame [OF one_in_flight_facts(6) [OF assms]]) simp_all
  from consumed_post_log [OF this, of e] have "a_log (after_cmd a c e) = a_log (enqueued a 0 c) @
      [Doorbell (q_db (a_cq a)) (of_nat ((qh (a_cq a) + 1) mod qN (a_cq a)))]"
    by (simp add: after_cmd_def finished_post)
  moreover have "unat ((q_tail (a_sq a) + 1) mod ucast (q_qs (a_sq a))) =
      (qt (a_sq a) + 1) mod qN (a_sq a)"
    using one_in_flight_facts(4) [OF assms]
    by (simp add: unat_mod_distrib word_nat unat_word_ariths)
  then have "(ucast ((q_tail (a_sq a) + 1) mod ucast (q_qs (a_sq a))) :: u32) =
      of_nat ((qt (a_sq a) + 1) mod qN (a_sq a))"
    by (metis of_nat_unat)
  ultimately show ?thesis by (simp add: enqueued_def Let_def)
qed

subsection \<open>A channel for commands\<close>

text \<open>
  What the queue creation and deletion code needs of the command sequence: run in a ready state, a
  command that gets its answer leads to the next state, which is ready again.
\<close>

fun run_all :: "('s \<Rightarrow> 'c \<Rightarrow> ('e + 's) option) \<Rightarrow> 's \<Rightarrow> 'c list \<Rightarrow> ('e + 's) option" where
  "run_all run s [] = Some (Inr s)"
| "run_all run s (c # cs) = bindO (run s c) (\<lambda>s1. run_all run s1 cs)"

fun all_answered :: "('s \<Rightarrow> 'c \<Rightarrow> 's \<Rightarrow> bool) \<Rightarrow> 's \<Rightarrow> 'c list \<Rightarrow> 's \<Rightarrow> bool" where
  "all_answered ans s [] s' \<longleftrightarrow> s' = s"
| "all_answered ans s (c # cs) s' \<longleftrightarrow> (\<exists>s1. ans s c s1 \<and> all_answered ans s1 cs s')"

locale command_channel =
  fixes run :: "'s \<Rightarrow> 'c \<Rightarrow> ('e + 's) option"
    and ready :: "'s \<Rightarrow> bool"
    and fit :: "'c \<Rightarrow> bool"
    and answered :: "'s \<Rightarrow> 'c \<Rightarrow> 's \<Rightarrow> bool"
  assumes run_answered: "ready s \<Longrightarrow> fit c \<Longrightarrow> answered s c s' \<Longrightarrow> run s c = Some (Inr s')"
    and ready_answered: "ready s \<Longrightarrow> fit c \<Longrightarrow> answered s c s' \<Longrightarrow> ready s'"
begin

lemma run_all_answered:
  "ready s \<Longrightarrow> list_all fit cs \<Longrightarrow> all_answered answered s cs s' \<Longrightarrow>
    run_all run s cs = Some (Inr s') \<and> ready s'"
proof (induction cs arbitrary: s)
  case (Cons c cs)
  then obtain s1 where "answered s c s1" "all_answered answered s1 cs s'" by auto
  with Cons show ?case using run_answered ready_answered by fastforce
qed simp

end

definition answers :: "'d device \<Rightarrow> aqp \<times> 'd \<Rightarrow> cmd \<Rightarrow> aqp \<times> 'd \<Rightarrow> bool" where
  "answers dev s c s' \<longleftrightarrow>
     (\<exists>e. completes dev (fst s) (snd s) c e (snd s') \<and> fst s' = after_cmd (fst s) c e)"

lemma idle_after: "idle a \<Longrightarrow> plain_cmd c \<Longrightarrow> completes dev a d c e d' \<Longrightarrow> idle (after_cmd a c e)"
  by (rule mark_cleanup_completes(2)) (simp_all add: completes_def)

interpretation chan: command_channel "run_cmd dev" "\<lambda>s. idle (fst s)" plain_cmd "answers dev"
  for dev :: "'d device"
proof
  fix s s' :: "aqp \<times> 'd" and c
  assume i: "idle (fst s)" "plain_cmd c" "answers dev s c s'"
  then obtain e where e: "completes dev (fst s) (snd s) c e (snd s')" "fst s' = after_cmd (fst s) c e"
    by (auto simp: answers_def)
  show "run_cmd dev s c = Some (Inr s')"
    using run_cmd_completes(1) [OF i(1,2) e(1)] e(2) by (metis prod.collapse)
  show "idle (fst s')" using idle_after [OF i(1,2) e(1)] e(2) by simp
qed

interpretation chan_read: command_channel "run_cmd_read dev" "\<lambda>s. idle (fst s)" plain_cmd "answers dev"
  for dev :: "'d device"
proof
  fix s s' :: "aqp \<times> 'd" and c
  assume i: "idle (fst s)" "plain_cmd c" "answers dev s c s'"
  then obtain e where e: "completes dev (fst s) (snd s) c e (snd s')" "fst s' = after_cmd (fst s) c e"
    by (auto simp: answers_def)
  show "run_cmd_read dev s c = Some (Inr s')"
    using run_cmd_completes(2) [OF i(1,2) e(1)] e(2) by (metis prod.collapse)
  show "idle (fst s')" using idle_after [OF i(1,2) e(1)] e(2) by simp
qed

subsection \<open>Concrete controllers\<close>

text \<open>
  A controller that answers every command at its next turn with the result \<open>dw0\<close>: it posts a
  completion when the last thing written to it was the doorbell of the submission queue.
\<close>

fun rung :: "aqp \<Rightarrow> bool" where
  "rung a = (case rev (a_log a) of Doorbell db _ # _ \<Rightarrow> db = q_db (a_sq a) | _ \<Rightarrow> False)"

definition prompt_device :: "u32 \<Rightarrow> 'd device" where
  "prompt_device dw0 a d =
     (if rung a
      then (a_cq_mem a)[qh (a_cq a) := done_cpl dw0 (push_bit 16 (ucast (q_phase (a_cq a))))]
      else a_cq_mem a, d)"

lemma prompt_device_completes:
  assumes "idle a"
  shows "completes (prompt_device dw0) a d c
    (done_cpl dw0 (push_bit 16 (ucast (q_phase (a_cq a))))) d"
proof -
  have "q_phase (a_cq a) = 0 \<or> q_phase (a_cq a) = 1"
    using idle_facts(2) [OF assms] by (simp add: cq_quiet_def cq_wf_def)
  then have "cpl_cid (done_cpl dw0 (push_bit 16 (ucast (q_phase (a_cq a))))) = 0"
    "cpl_phase (done_cpl dw0 (push_bit 16 (ucast (q_phase (a_cq a))))) = q_phase (a_cq a)"
    by (auto simp: cpl_cid_def cpl_phase_def done_cpl_def)
  moreover have "rung (enqueued a 0 c)" by (simp add: enqueued_def Let_def)
  ultimately show ?thesis
    by (auto simp: completes_def prompt_device_def post_def intro!: posts.now)
qed

lemma blank_idle: "2 \<le> unat n \<Longrightarrow> unat n \<le> 4096 \<Longrightarrow> unat n dvd 65536 \<Longrightarrow> idle (blank_aqp n)"
  by (simp add: idle_def sq_fresh_inv blank_fresh blank_quiet)
    (simp add: blank_aqp_def blank_queue_def sq_count_def)

lemma clear_cmd_zero: "wf_cmd g \<Longrightarrow> clear_cmd g = zero_cmd"
  by (cases g) (simp add: clear_cmd_def wf_cmd_def zero_cmd_def map_replicate_const)

lemma zero_cmd_nth [simp]: "i < 16 \<Longrightarrow> cmd_dword zero_cmd ! i = 0" "length (cmd_dword zero_cmd) = 16"
  by (simp_all add: zero_cmd_def)

lemma length_set_dword [simp]: "length (cmd_dword (set_dword i v c)) = length (cmd_dword c)"
  by (simp add: set_dword_def)

lemma nth_set_dword [simp]: "cmd_dword (set_dword i v c) ! j =
    (if i = j \<and> j < length (cmd_dword c) then v else cmd_dword c ! j)"
  by (cases "i = j") (auto simp: set_dword_def list_update_beyond)

lemma num_queues_cmd_plain: "wf_cmd g \<Longrightarrow> plain_cmd (num_queues_cmd g)"
  by (simp add: num_queues_cmd_def clear_cmd_zero plain_cmd_def wf_cmd_def)

lemma self_test_cmd_plain: "wf_cmd g \<Longrightarrow> plain_cmd (self_test_cmd g)"
  by (simp add: self_test_cmd_def clear_cmd_zero plain_cmd_def wf_cmd_def)

lemma fpga_cmd_plain: "wf_cmd g \<Longrightarrow> plain_cmd (fpga_cmd g)"
  by (simp add: fpga_cmd_def clear_cmd_zero plain_cmd_def wf_cmd_def)

subsection \<open>Properties\<close>

text \<open>
  C5. A whole synchronous command on an idle admin queue. If the controller completes the
  command after a finite number of turns, however many, the sequence submit, poll, reclaim ends: it leaves
  the queue idle again, having written exactly the command to the tail slot, the new tail to the submission
  doorbell and the new head to the completion doorbell, in this order, and it touches no other field.
\<close>

theorem sync_command_completes:
  assumes "idle a" and "plain_cmd c" and "completes dev a d c e d'"
  shows "\<exists>a'. run_cmd dev (a, d) c = Some (Inr (a', d')) \<and> idle a'
    \<and> a_log a' = a_log a @ [SqStore (qt (a_sq a)) (with_cid 0 c),
        Doorbell (q_db (a_sq a)) (of_nat ((qt (a_sq a) + 1) mod qN (a_sq a))),
        Doorbell (q_db (a_cq a)) (of_nat ((qh (a_cq a) + 1) mod qN (a_cq a)))]
    \<and> a_use_mark a' = a_use_mark a \<and> a_supported a' = a_supported a \<and> a_used a' = a_used a
    \<and> a_io_qp_list a' = a_io_qp_list a"
  using run_cmd_completes(1) [OF assms] idle_after [OF assms] after_cmd_log [OF assms(1,2), of e]
  by (intro exI [of _ "after_cmd a c e"]) simp

theorem sync_command_completes_witness:
  "\<exists>a'. run_cmd (prompt_device 0) (blank_aqp 4, ()) zero_cmd = Some (Inr (a', ())) \<and> idle a'
    \<and> a_log a' = [SqStore 0 (with_cid 0 zero_cmd), Doorbell 0x1000 1, Doorbell 0x1004 1]"
proof -
  have i: "idle (blank_aqp 4)" by (rule blank_idle) simp_all
  show ?thesis
    using sync_command_completes [OF i zero_cmd_plain prompt_device_completes [OF i, where d = "()"]]
    by (auto simp: blank_aqp_def blank_queue_def)
qed

text \<open>
  C30. Setting the number of queues. The command is Set Features (opcode 9) for feature 7 with
  65534 in both halves of dword 11. With a completion \<open>e\<close> the supported number of I/O
  queue pairs becomes the upper half of \<open>e\<close>'s dword 0 plus one, between 1 and 65536; the lower
  half, the number of submission queues granted, has no influence. The queue is idle again.
\<close>

theorem set_num_queues_grants:
  assumes "idle a" and "wf_cmd g" and "completes dev a d (num_queues_cmd g) e d'"
  shows "\<exists>a'. admin_set_num_queues dev g (a, d) = Some (Inr (a', d')) \<and> idle a'
    \<and> unat (a_supported a') = unat (cpl_dword e ! 0) div 65536 + 1
    \<and> cmd_dword (num_queues_cmd g) =
        [9, 0, 0, 0, 0, 0, 0, 0, 0, 0, 7, 0xFFFEFFFE, 0, 0, 0, 0]"
proof -
  note p = num_queues_cmd_plain [OF assms(2)]
  have lt: "unat (cpl_dword e ! 0) div 65536 < 65536"
    using unat_u32 [of "cpl_dword e ! 0"] by simp
  then have "unat (drop_bit 16 (cpl_dword e ! 0) + 1) = unat (cpl_dword e ! 0) div 65536 + 1"
    by (simp add: unat_word_ariths drop_bit_unat del: drop_bit_eq_div)
  moreover have "cmd_dword (num_queues_cmd g) =
      [9, 0, 0, 0, 0, 0, 0, 0, 0, 0, 7, 0xFFFEFFFE, 0, 0, 0, 0]"
    by (simp add: num_queues_cmd_def clear_cmd_zero [OF assms(2)])
      (simp add: set_dword_def zero_cmd_def numeral_eq_Suc)
  ultimately show ?thesis
    using run_cmd_count_completes [OF assms(1) p assms(3)] idle_after [OF assms(1) p assms(3)]
    by (simp add: admin_set_num_queues_def del: drop_bit_eq_div)
qed

theorem set_num_queues_grants_witness:
  "\<exists>a'. admin_set_num_queues (prompt_device 0x7FFFF) zero_cmd (blank_aqp 4, ()) = Some (Inr (a', ()))
    \<and> a_supported a' = 8"
proof -
  have i: "idle (blank_aqp 4)" by (rule blank_idle) simp_all
  have w: "wf_cmd zero_cmd" by (simp add: wf_cmd_def)
  show ?thesis
    using set_num_queues_grants [OF i w prompt_device_completes [OF i, of "0x7FFFF" "()"]]
    by (auto simp: done_cpl_def word_eq_unat)
qed

text \<open>A controller that never touches the completion ring.\<close>

definition mute :: "'d device \<Rightarrow> bool" where
  "mute dev \<longleftrightarrow> (\<forall>a d. fst (dev a d) = a_cq_mem a)"

lemma poll_retry_mute:
  assumes "poll_retry dev a d cid = Some y" and "mute dev" and "\<not> a_lock a" and "cq_quiet a"
  shows False
  using assms
proof (induction rule: poll_retry.raw_induct [rotated, consumes 1, case_names step])
  case (step f dev a d cid y)
  obtain d1 where dev: "dev a d = (a_cq_mem a, d1)"
    using step.prems(1) by (cases "dev a d") (metis mute_def fst_conv)
  have "a\<lparr>a_cq_mem := a_cq_mem a\<rparr> = a" by simp
  then have "f dev a d1 cid = Some y"
    using step.hyps cq_poll_quiet [OF step.prems(2,3), of cid] dev by simp
  from step.IH [OF this] step.prems show ?case by simp
qed

lemma submit_mute:
  assumes "idle a" and "plain_cmd c" and "mute dev"
  shows "submit_and_wait dev a d c = None"
proof -
  note f = one_in_flight_facts [OF assms(1,2)]
  have "\<not> a_lock (enqueued a 0 c)" using f(1) by (simp add: sq_inv_def)
  then have "poll_retry dev (enqueued a 0 c) d 0 = None"
    using poll_retry_mute [OF _ assms(3) _ f(6)] by (metis not_None_eq)
  then show ?thesis
    using enqueue_idle [OF assms(1), of dev d c] f(3)
    by (simp add: submit_and_wait_def drop_bit_eq_div)
qed

text \<open>
  C31. There is no timeout. Against a controller that never writes a completion no admin
  command returns: the self test, the configuration of the queue count and the FPGA configuration poll for ever. The
  value CAP.TO that initialisation reads into ctrl->timeout is used by none of them.
\<close>

theorem mute_controller_hangs:
  assumes "idle a" and "wf_cmd g" and "mute dev"
  shows "admin_dev_self_test dev g (a, d) = None \<and> admin_set_num_queues dev g (a, d) = None
    \<and> admin_fpga_config dev g (a, d) = None"
  using submit_mute [OF assms(1) self_test_cmd_plain [OF assms(2)] assms(3), of d]
    submit_mute [OF assms(1) num_queues_cmd_plain [OF assms(2)] assms(3), of d]
    submit_mute [OF assms(1) fpga_cmd_plain [OF assms(2)] assms(3), of d]
  by (simp add: admin_dev_self_test_def admin_set_num_queues_def admin_fpga_config_def run_cmd_def
      run_cmd_count_def)

theorem mute_controller_hangs_witness:
  "admin_dev_self_test (\<lambda>a n. (a_cq_mem a, Suc n)) zero_cmd (blank_aqp 4, 0) = None"
proof -
  have i: "idle (blank_aqp 4)" by (rule blank_idle) simp_all
  have m: "mute (\<lambda>a n. (a_cq_mem a, Suc n))" and w: "wf_cmd zero_cmd"
    by (simp_all add: mute_def wf_cmd_def)
  show ?thesis using mute_controller_hangs [OF i w m, of 0] by simp
qed

end
