(* ===== verification/Admin_Race.thy ===== *)
theory Admin_Race
  imports Admin_Commands
begin

section \<open>Two threads on the admin queue (kernel/nvme/admin.c)\<close>

text \<open>
  Every admin command ends with admin_sq_mark_cleanup and then admin_cq_mark_cleanup, two
  critical sections. The first frees the command id, the second takes the completion off the ring.
  Another thread may come in between.
\<close>

text \<open>A completion that waits at the head is no concern of the submission side, which takes id 0 when idle.\<close>

lemma enqueued_post: "enqueued (post a e) i c = post (enqueued a i c) e"
  by (simp add: enqueued_def post_def Let_def)

lemma enqueue_waiting:
  assumes "idle a" and "a' = a \<or> a' = post a e"
  shows "admin_enqueue_command a' c = Inr (enqueued a' 0 c, with_cid 0 c, of_nat (qt (a_sq a)))"
proof -
  note f = idle_facts [OF assms(1)]
  have inv: "sq_inv a'" "a_sq a' = a_sq a"
    using sq_inv_frame(1) [OF f(1), of a'] assms(2) f(1,3) by auto
  obtain i where "\<forall>j < i. q_cid (a_sq a') ! j \<noteq> 0"
    "admin_enqueue_command a' c = Inr (enqueued a' i c, with_cid i c, of_nat (qt (a_sq a')))"
    using enqueue_accepts [OF inv(1), of c] f(7) inv(2) by auto
  moreover from this(1) have "i = 0" using f(6) inv(2) by auto
  ultimately show ?thesis by (simp add: inv(2))
qed

text \<open>The only command in flight is finished: the queue is idle again.\<close>

lemma finish_only:
  assumes "idle a" and "plain_cmd c"
  shows "admin_sq_mark_cleanup (post (enqueued a 0 c) e) (of_nat (qt (a_sq a))) =
      Inr (post (finished (enqueued a 0 c) (qt (a_sq a))) e)"
    and "idle (finished (enqueued a 0 c) (qt (a_sq a)))"
proof -
  note f = one_in_flight_facts [OF assms]
  let ?l = "qt (a_sq a)" and ?a = "enqueued a 0 c"
  have loc: "?l \<in> set (live ?a)" by (simp add: f(2))
  have "sq_inv (post ?a e)" "live (post ?a e) = live ?a"
    using sq_inv_frame [OF f(1), of "post ?a e"] f(1) by (simp_all add: sq_inv_def)
  then show "admin_sq_mark_cleanup (post ?a e) (of_nat ?l) = Inr (post (finished ?a ?l) e)"
    using finish_runs(1) [of "post ?a e" ?l] loc by (simp add: finished_post)
  have "sq_ring (finished ?a ?l) = []"
    using finish_runs(2) [OF f(1) loc] by (simp add: f(7) finish_def mark_done_def)
  then have "sq_count (a_sq (finished ?a ?l)) = 0" by (simp add: sq_ring_def ring_abs_def)
  moreover have "cq_quiet (finished ?a ?l)" by (rule quiet_frame [OF f(6)]) simp_all
  ultimately show "idle (finished ?a ?l)" using finished_inv(1) [OF f(1) loc] by (simp add: idle_def)
qed

text \<open>Reclaiming a slot that is not in the window leaves its mark behind.\<close>

lemma cq_cleanup_outside:
  assumes "\<not> a_lock a" and "ring_ok 0 (a_cq a)" and "l < qN (a_cq a)" and "l \<noteq> qh (a_cq a)"
  shows "admin_cq_mark_cleanup a (of_nat l) = Inr (a\<lparr>a_cq := (a_cq a)\<lparr>q_mark := (q_mark (a_cq a))[l := 1]\<rparr>\<rparr>)"
proof -
  let ?q = "a_cq a" and ?m = "(a_cq a)\<lparr>q_mark := (q_mark (a_cq a))[l := 1]\<rparr>"
  have wf: "ring_wf ?q" "ring_wf ?m" using assms(2) by (auto simp: ring_ok_def ring_wf_def)
  have N: "qN ?q \<le> 4096" "qh ?q < qN ?q" "length (q_mark ?q) = qN ?q" using wf(1) by (auto simp: ring_wf_def)
  have u: "unat (of_nat l :: u16) = l" using assms(3) N(1) by (simp add: unat_of_nat)
  have "q_mark ?q ! qh ?q = 0"
    using assms(2) N(2) slot_at_0 [OF wf(1)] unfolding ring_ok_def by force
  then have "mark_loop ?m (q_head ?q) 0 = Inr ?m"
    using mark_loop_step [OF wf(2), of "q_head ?q" 0] N assms(4) by simp
  then show ?thesis
    using assms(1,3) u N(3) by (simp add: admin_cq_mark_cleanup_def aqp_lock_def aqp_unlock_def Let_def unlock_lock)
qed

text \<open>
  Both threads clean up while the first one's completion still waits at the head and the second one's
  command is in flight.
\<close>

lemma both_clean_up:
  assumes "idle b" and "plain_cmd c'" and "cpl_phase e = q_phase (a_cq b)" and h: "h = qh (a_cq b)"
  obtains a4 a5 where "admin_cq_mark_cleanup (post (enqueued b 0 c') e) (of_nat h) = Inr a4"
    "mark_cleanup a4 (of_nat (qt (a_sq b))) (of_nat h) = Inr a5" "live a5 = []"
    "q_mark (a_cq a5) ! h \<noteq> 0" "qh (a_cq a5) = (h + 1) mod qN (a_cq b)" "qh (a_cq a5) \<noteq> h"
proof -
  let ?b = "enqueued b 0 c'" and ?u = "qt (a_sq b)"
  let ?a4 = "consumed (post ?b e)" and ?f = "finished (consumed (post (enqueued b 0 c') e)) (qt (a_sq b))"
  note g = one_in_flight_facts [OF assms(1,2)]
  have lock: "\<not> a_lock ?b" using g(1) by (simp add: sq_inv_def)
  have wf: "cq_wf (post ?b e)" "ring_ok 0 (a_cq (post ?b e))"
    using g(6) by (auto simp: cq_quiet_def cq_wf_def post_def)
  have c1: "admin_cq_mark_cleanup (post ?b e) (of_nat h) = Inr ?a4"
    using cq_cleanup_head [OF _ wf] lock h by simp
  have after: "cq_quiet ?a4" "qh (a_cq ?a4) = (h + 1) mod qN (a_cq b)"
    using consumed_quiet [OF g(6), of e] assms(3) h by simp_all
  have N: "h < qN (a_cq b)" "2 \<le> qN (a_cq b)" "qN (a_cq ?a4) = qN (a_cq b)"
    using g(6) h by (auto simp: cq_quiet_def cq_wf_def ring_wf_def consumed_def Let_def)
  then have off: "h \<noteq> qh (a_cq ?a4)" using after(2) by (cases "h + 1 = qN (a_cq b)") auto
  have i4: "sq_inv ?a4" "live ?a4 = [?u]" using sq_inv_frame [OF g(1), of ?a4] lock g(2) by simp_all
  have c2: "admin_sq_mark_cleanup ?a4 (of_nat ?u) = Inr ?f" "live ?f = []"
    using finish_runs(1) [OF i4(1)] finished_inv(2) [OF i4(1)] i4(2) by simp_all
  have "ring_ok 0 (a_cq ?f)" "\<not> a_lock ?f" using after(1) lock by (simp_all add: cq_quiet_def)
  from cq_cleanup_outside [OF this(2,1), of h] N off
  have c3: "admin_cq_mark_cleanup ?f (of_nat h) =
      Inr (?f\<lparr>a_cq := (a_cq ?a4)\<lparr>q_mark := (q_mark (a_cq ?a4))[h := 1]\<rparr>\<rparr>)" (is "_ = Inr ?a5") by simp
  have "mark_cleanup ?a4 (of_nat ?u) (of_nat h) = Inr ?a5"
    using c2(1) c3 g(4,5) h by (simp add: mark_cleanup_def cut_index del: of_nat_unat)
  then show thesis
    by (rule that [OF c1])
      (use c2(2) N after off in \<open>simp_all add: live_def sq_ring_def cq_quiet_def ring_ok_def ring_wf_def\<close>)
qed

text \<open>
  C6. A command id is free before its completion is off the ring. One thread submits \<open>c\<close>, the
  controller completes it with \<open>e\<close>, and the thread calls admin_sq_mark_cleanup. A second thread now submits
  \<open>c'\<close>: it gets the same id, and its first poll returns the completion of \<open>c\<close>, although the controller
  has not seen \<open>c'\<close>. When both threads have cleaned up, \<open>c'\<close> counts as finished and its id is
  free, and the mark of a slot behind the head stays set, so that a later lap will take that slot as reclaimed
  before anything is in it. Had the first thread cleaned up the completion side as well, the poll would have returned -1.
\<close>

theorem stale_completion_taken:
  assumes "idle a" and "plain_cmd c" and "plain_cmd c'" and "cpl_cid e = 0" and "cpl_phase e = q_phase (a_cq a)"
    and "h = qh (a_cq a)"
  shows "\<exists>a1 c1 r1 a2 a3 c3 r3 a4 a5.
      admin_enqueue_command a c = Inr (a1, c1, r1) \<and> admin_cq_poll (post a1 e) 0 = Inr (post a1 e, of_nat h)
    \<and> admin_sq_mark_cleanup (post a1 e) (ucast r1) = Inr a2
    \<and> admin_enqueue_command a2 c' = Inr (a3, c3, r3) \<and> cmd_cid c3 = cmd_cid c1
    \<and> admin_cq_poll a3 0 = Inr (a3, of_nat h)
    \<and> admin_cq_mark_cleanup a3 (of_nat h) = Inr a4
    \<and> mark_cleanup a4 r3 (of_nat h) = Inr a5 \<and> live a5 = []
    \<and> q_mark (a_cq a5) ! h \<noteq> 0 \<and> qh (a_cq a5) = (h + 1) mod qN (a_cq a) \<and> qh (a_cq a5) \<noteq> h
    \<and> (\<exists>b1. mark_cleanup (post a1 e) r1 (of_nat h) = Inr b1
        \<and> (\<exists>b2. admin_enqueue_command b1 c' = Inr (b2, c3, of_nat (qt (a_sq b1))) \<and> admin_cq_poll b2 0 = Inr (b2, - 1)))"
proof -
  let ?t = "qt (a_sq a)" and ?a1 = "enqueued a 0 c"
  define b where "b = finished ?a1 ?t"
  let ?b1 = "enqueued b 0 c'" and ?u = "qt (a_sq b)"
  note f = one_in_flight_facts [OF assms(1,2)]
  have idle_b: "idle b" and fin: "admin_sq_mark_cleanup (post ?a1 e) (of_nat ?t) = Inr (post b e)"
    using finish_only [OF assms(1,2)] by (simp_all add: b_def)
  note g = one_in_flight_facts [OF idle_b assms(3)]
  have cq: "a_cq b = a_cq a" by (simp add: b_def)
  have lock: "\<not> a_lock ?a1" "\<not> a_lock ?b1" using f(1) g(1) by (simp_all add: sq_inv_def)
  have m: "cpl_match (a_cq ?a1) 0 e" "cpl_match (a_cq ?b1) 0 e" using assms(4,5) by (simp_all add: cpl_match_def cq)
  have e1: "admin_enqueue_command a c = Inr (?a1, with_cid 0 c, of_nat ?t)"
    by (rule enqueue_waiting [OF assms(1)]) simp
  have e2: "admin_enqueue_command (post b e) c' = Inr (post ?b1 e, with_cid 0 c', of_nat ?u)"
    using enqueue_waiting [OF idle_b, of "post b e" e c'] by (simp add: enqueued_post)
  have p1: "admin_cq_poll (post ?a1 e) 0 = Inr (post ?a1 e, of_nat h)"
    using cq_poll_posted [OF lock(1) f(6) m(1)] assms(6) by simp
  have p2: "admin_cq_poll (post ?b1 e) 0 = Inr (post ?b1 e, of_nat h)"
    using cq_poll_posted [OF lock(2) g(6) m(2)] assms(6) by (simp add: cq)
  obtain a4 a5 where last: "admin_cq_mark_cleanup (post ?b1 e) (of_nat h) = Inr a4"
    "mark_cleanup a4 (of_nat ?u) (of_nat h) = Inr a5" "live a5 = []"
    "q_mark (a_cq a5) ! h \<noteq> 0" "qh (a_cq a5) = (h + 1) mod qN (a_cq a)" "qh (a_cq a5) \<noteq> h"
    using both_clean_up [OF idle_b assms(3)] assms(5,6) unfolding cq by blast
  have cut: "ucast (of_nat ?t :: s32) = (of_nat ?t :: u16)"
    using f(4) by (simp add: cut_index del: of_nat_unat)
  have cid: "cmd_cid (with_cid 0 c') = cmd_cid (with_cid 0 c)"
    using with_cid_cid [OF assms(2), of 0] with_cid_cid [OF assms(3), of 0] by simp
  note mca = mark_cleanup_completes [OF assms(1,2,5)]
  note d = one_in_flight_facts [OF mca(2) assms(3)] 
  have e3: "admin_enqueue_command (after_cmd a c e) c' =
      Inr (enqueued (after_cmd a c e) 0 c', with_cid 0 c', of_nat (qt (a_sq (after_cmd a c e))))"
    by (rule enqueue_waiting [OF mca(2)]) simp
  have "admin_cq_poll (enqueued (after_cmd a c e) 0 c') 0 = Inr (enqueued (after_cmd a c e) 0 c', - 1)"
    using cq_poll_quiet [OF _ d(6), of 0] d(1) by (simp add: sq_inv_def)
  with e1 p1 fin e2 p2 last cid mca(1) e3 cut assms(6)
  show ?thesis
    by (intro exI [of _ ?a1] exI [of _ "with_cid 0 c"] exI [of _ "of_nat ?t"] exI [of _ "post b e"]
        exI [of _ "post ?b1 e"] exI [of _ "with_cid 0 c'"] exI [of _ "of_nat ?u"] exI [of _ a4] exI [of _ a5])
      (simp del: of_nat_unat)
qed

theorem stale_completion_taken_witness:
  "\<exists>a1 c1 r1 a2 a3 c3 r3. admin_enqueue_command (blank_aqp 4) zero_cmd = Inr (a1, c1, r1)
    \<and> admin_sq_mark_cleanup (post a1 (done_cpl 0 0x10000)) (ucast r1) = Inr a2
    \<and> admin_enqueue_command a2 zero_cmd = Inr (a3, c3, r3) \<and> admin_cq_poll a3 0 = Inr (a3, of_nat (qh (a_cq (blank_aqp 4))))"
proof -
  have i: "idle (blank_aqp 4)" by (rule blank_idle) simp_all
  have "cpl_cid (done_cpl 0 0x10000) = 0" "cpl_phase (done_cpl 0 0x10000) = q_phase (a_cq (blank_aqp 4))"
    by (simp_all add: cpl_cid_def cpl_phase_def done_cpl_def blank_aqp_def blank_queue_def)
  from stale_completion_taken [OF i zero_cmd_plain zero_cmd_plain this refl] show ?thesis by blast
qed

end
