(* ===== verification/Kernel.thy ===== *)
theory Kernel
  imports Prelude "HOL-Library.Multiset"
begin

section \<open>The kernel services the driver calls\<close>

text \<open>
  The kernel is not part of the source. What it answers is a parameter of the model: an \<open>api\<close> gives
  each service's result as a function of all calls made before (so it may fail at any point and
  never needs to return the same address twice) and of the arguments. The calls the driver
  makes, with their results, are the log \<open>calls\<close>; the resources the driver holds are read off it.

  Pointers that carry an error code follow \<open>linux/err.h\<close>: the code is the pointer's value, and
  the last 4095 addresses are errors. Error codes are integers; nothing is computed with them.
\<close>

datatype kcall =
    Kmalloc u64 addr
  | Kfree addr
  | DmaAlloc u64 addr u64
  | DmaFree u64 addr u64
  | GetUserPages u64 u64 int "addr list"
  | PutPage addr
  | DmaMapPage addr u64 int
  | DmaUnmapPage u64
  | PciIomap addr addr
  | PciIounmap addr
  | IoStore64 addr u64
  | DmaSetMask addr u64
  | PciSetMaster addr
  | PciClearMaster addr
  | PciRequestRegion addr int
  | PciReleaseRegion addr
  | PciEnableDevice addr int
  | PciDisableDevice addr
  | CdevAdd addr u32 int
  | CdevDel addr
  | DeviceCreate u32 addr
  | DeviceDestroy u32
  | AllocChrdevRegion u32 u32 int
  | UnregisterChrdevRegion u32 u32
  | ClassCreate addr
  | ClassDestroy addr
  | PciRegisterDriver int
  | PciUnregisterDriver

type_synonym calls = "kcall list"

text \<open>Memory services: \<open>kmalloc\<close>, \<open>kcalloc\<close> and \<open>dma_alloc_coherent\<close>.\<close>

record mem_api =
  kmalloc_result :: "calls \<Rightarrow> u64 \<Rightarrow> addr"
  dma_alloc_result :: "calls \<Rightarrow> u64 \<Rightarrow> addr \<times> u64"

definition kmalloc :: "mem_api \<Rightarrow> u64 \<Rightarrow> calls \<Rightarrow> addr \<times> calls" where
  "kmalloc api sz k = (let p = kmalloc_result api k sz in (p, k @ [Kmalloc sz p]))"

text \<open>\<open>kcalloc\<close> fails when the product of its arguments overflows.\<close>

definition kcalloc :: "mem_api \<Rightarrow> u64 \<Rightarrow> u64 \<Rightarrow> calls \<Rightarrow> addr \<times> calls" where
  "kcalloc api n sz k =
     (if 2 ^ 64 \<le> unat n * unat sz then (NULL, k) else kmalloc api (n * sz) k)"

definition kfree :: "addr \<Rightarrow> calls \<Rightarrow> calls" where
  "kfree p k = k @ [Kfree p]"

definition dma_alloc_coherent :: "mem_api \<Rightarrow> u64 \<Rightarrow> calls \<Rightarrow> addr \<times> u64 \<times> calls" where
  "dma_alloc_coherent api sz k =
     (let (p, b) = dma_alloc_result api k sz in (p, b, k @ [DmaAlloc sz p b]))"

definition dma_free_coherent :: "u64 \<Rightarrow> addr \<Rightarrow> u64 \<Rightarrow> calls \<Rightarrow> calls" where
  "dma_free_coherent sz p b k = k @ [DmaFree sz p b]"

text \<open>Error pointers.\<close>

definition ERR_PTR :: "int \<Rightarrow> addr" where
  "ERR_PTR e = word_of_int e"

definition PTR_ERR :: "addr \<Rightarrow> int" where
  "PTR_ERR p = sint p"

definition IS_ERR :: "addr \<Rightarrow> bool" where
  "IS_ERR p \<longleftrightarrow> - 4095 \<le> p"

text \<open>The error codes the driver returns.\<close>

abbreviation (input) EBADF :: int where "EBADF \<equiv> 9"
abbreviation (input) ENOMEM :: int where "ENOMEM \<equiv> 12"
abbreviation (input) EINVAL :: int where "EINVAL \<equiv> 22"

lemma IS_ERR_ERR_PTR:
  assumes "- 4095 \<le> e" and "e < 0"
  shows "IS_ERR (ERR_PTR e)" and "PTR_ERR (ERR_PTR e) = e" and "ERR_PTR e \<noteq> NULL"
proof -
  have "(e + 18446744073709551616) mod 18446744073709551616 = e + 18446744073709551616"
    using assms by (intro mod_pos_pos_trivial) simp_all
  then have u: "uint (ERR_PTR e) = e + 18446744073709551616"
    by (simp add: ERR_PTR_def uint_word_of_int)
  have "uint (- 4095 :: u64) = 18446744073709547521" by simp
  then show "IS_ERR (ERR_PTR e)"
    using u assms by (simp only: IS_ERR_def word_le_def)
  have "uint (ERR_PTR e) \<noteq> 0" using u assms by linarith
  then show "ERR_PTR e \<noteq> NULL" by auto
  show "PTR_ERR (ERR_PTR e) = e"
    using assms by (simp add: PTR_ERR_def ERR_PTR_def signed_of_int signed_take_bit_int_eq_self)
qed

lemma not_IS_ERR_NULL [simp]: "\<not> IS_ERR NULL"
  by (simp add: IS_ERR_def)

subsection \<open>What the driver holds\<close>

text \<open>
  A successful call that acquires something owes the calls that release it, with the same
  arguments: a DMA buffer is to be freed with the size and both addresses of its allocation, every
  user page that was pinned is to be put. \<open>holds log\<close> is what is still owed after a log, and
  \<open>None\<close> when the log releases something that is not held: a double free, a free with the wrong
  size, the unmapping of an address that was never mapped.
\<close>

fun owes :: "kcall \<Rightarrow> kcall multiset" where
  "owes (Kmalloc sz p) = (if p = NULL then {#} else {#Kfree p#})"
| "owes (DmaAlloc sz p b) = (if p = NULL then {#} else {#DmaFree sz p b#})"
| "owes (GetUserPages v n e pages) = (if e \<le> 0 then {#} else mset (map PutPage pages))"
| "owes (DmaMapPage pg b e) = (if e = 0 then {#DmaUnmapPage b#} else {#})"
| "owes (PciIomap d p) = (if p = NULL then {#} else {#PciIounmap p#})"
| "owes (PciSetMaster d) = {#PciClearMaster d#}"
| "owes (PciRequestRegion d e) = (if e = 0 then {#PciReleaseRegion d#} else {#})"
| "owes (PciEnableDevice d e) = (if e < 0 then {#} else {#PciDisableDevice d#})"
| "owes (CdevAdd c dev e) = (if e = 0 then {#CdevDel c#} else {#})"
| "owes (DeviceCreate dev p) = (if IS_ERR p then {#} else {#DeviceDestroy dev#})"
| "owes (AllocChrdevRegion dev n e) = (if e < 0 then {#} else {#UnregisterChrdevRegion dev n#})"
| "owes (ClassCreate p) = (if IS_ERR p then {#} else {#ClassDestroy p#})"
| "owes (PciRegisterDriver e) = (if e = 0 then {#PciUnregisterDriver#} else {#})"
| "owes _ = {#}"

fun releases :: "kcall \<Rightarrow> bool" where
  "releases (Kfree p) = (p \<noteq> NULL)"
| "releases (DmaFree sz p b) = True"
| "releases (PutPage pg) = True"
| "releases (DmaUnmapPage b) = True"
| "releases (PciIounmap p) = True"
| "releases (PciClearMaster d) = True"
| "releases (PciReleaseRegion d) = True"
| "releases (PciDisableDevice d) = True"
| "releases (CdevDel c) = True"
| "releases (DeviceDestroy dev) = True"
| "releases (UnregisterChrdevRegion dev n) = True"
| "releases (ClassDestroy p) = True"
| "releases PciUnregisterDriver = True"
| "releases _ = False"

fun track :: "kcall multiset option \<Rightarrow> kcall \<Rightarrow> kcall multiset option" where
  "track None c = None"
| "track (Some pend) c =
     (if releases c then (if c \<in># pend then Some (pend - {#c#}) else None)
      else Some (pend + owes c))"

definition holds :: "calls \<Rightarrow> kcall multiset option" where
  "holds log = foldl track (Some {#}) log"

lemma holds_append: "holds (xs @ ys) = foldl track (holds xs) ys"
  by (simp add: holds_def)

text \<open>Runs of acquisitions and of releases.\<close>

lemma holds_acquire:
  "\<forall>c \<in> set cs. \<not> releases c \<Longrightarrow> foldl track (Some R) cs = Some (R + (\<Sum>c \<leftarrow> cs. owes c))"
  by (induction cs arbitrary: R) (simp_all add: ac_simps)

lemma holds_release:
  "\<forall>c \<in> set cs. releases c \<Longrightarrow> foldl track (Some (R + mset cs)) cs = Some R"
  by (induction cs arbitrary: R) simp_all

lemma holds_released:
  assumes "holds log = Some (R + mset cs)" and "\<forall>c \<in> set cs. releases c"
  shows "holds (log @ cs) = Some R"
  using assms holds_release [of cs R] by (simp add: holds_append)

lemma track_None [simp]: "foldl track None cs = None"
  by (induction cs) simp_all

end
