(* ===== verification/Io_Queues.thy ===== *)
theory Io_Queues
  imports Admin_Commands Kernel "HOL-Library.Sublist"
begin

section \<open>I/O queue pairs (kernel/nvme/admin.c)\<close>

text \<open>
  \<open>admin_create_io_queue_pair\<close> and \<open>admin_delete_io_queue_pair\<close>. The state is the admin queue pair
  with the controller behind it, the members of \<open>struct ctrl\<close> that admin.c uses, the \<open>struct
  queue_pair\<close>s in kernel memory, and the log of kernel calls. An array that \<open>kmalloc\<close> failed to
  provide is the empty list, so any use of it is a fault.
\<close>

record 'd host =
  h_aqp :: aqp
  h_dev :: 'd
  h_max_queue_size :: u32
  h_dstrd :: u32
  h_page_size :: u32
  h_timeout :: u32
  h_qps :: "addr \<rightharpoonup> queue_pair"
  h_calls :: calls

text \<open>What the code relies on from outside: memory, the controller, and uninitialised storage.\<close>

record 'd world =
  w_mem :: mem_api
  w_dev :: "'d device"
  w_cmd :: cmd
  w_qp :: queue_pair

text \<open>A command through the channel, on the whole state.\<close>

definition channel ::
  "(aqp \<times> 'd \<Rightarrow> cmd \<Rightarrow> (aqp \<times> 'd) res option) \<Rightarrow> 'd host \<Rightarrow> cmd \<Rightarrow> 'd host res option" where
  "channel run h c =
     bindO (run (h_aqp h, h_dev h) c) (\<lambda>(a, d). Some (Inr (h\<lparr>h_aqp := a, h_dev := d\<rparr>)))"

text \<open>Claiming a pair: under the lock, count it and take the first unused number.\<close>

definition claim_pair :: "aqp \<Rightarrow> (aqp \<times> nat option) res" where
  "claim_pair a =
     bindE (aqp_lock a) (\<lambda>a1.
     if a_used a1 = a_supported a1 then Inr (aqp_unlock a1, None)
     else
       let a2 = a1\<lparr>a_used := a_used a1 + 1\<rparr> in
       bindE (take_slot (unat (a_supported a2)) (a_use_mark a2)) (\<lambda>(marks, found).
       Inr (aqp_unlock (a2\<lparr>a_use_mark := marks\<rparr>), found)))"

definition io_queue_size :: "u32 \<Rightarrow> u32" where
  "io_queue_size max_queue_size = (if 4096 < max_queue_size then 4096 else max_queue_size)"

text \<open>The doorbells: pointer arithmetic on the admin doorbells, with a 32-bit offset.\<close>

definition io_cq_db :: "addr \<Rightarrow> u32 \<Rightarrow> nat \<Rightarrow> addr" where
  "io_cq_db admin_cq_db dstrd i =
     admin_cq_db + ucast ((2 * (of_nat i + 1) + 1) * push_bit (unat dstrd) 4 :: u32)"

definition io_sq_db :: "addr \<Rightarrow> u32 \<Rightarrow> nat \<Rightarrow> addr" where
  "io_sq_db admin_sq_db dstrd i =
     admin_sq_db + ucast ((2 * (of_nat i + 1)) * push_bit (unat dstrd) 4 :: u32)"

definition create_cq_cmd :: "cmd \<Rightarrow> u32 \<Rightarrow> nat \<Rightarrow> u64 \<Rightarrow> cmd" where
  "create_cq_cmd g qs i dma =
     set_dword 11 0x01
      (set_dword 10 (push_bit 16 (qs - 1) OR (of_nat i + 1))
      (set_dword 7 (ucast (drop_bit 32 dma))
      (set_dword 6 (ucast dma)
      (set_dword 0 (opcode CRT_IO_CQ) (clear_cmd g)))))"

definition create_sq_cmd :: "cmd \<Rightarrow> u32 \<Rightarrow> nat \<Rightarrow> u64 \<Rightarrow> cmd" where
  "create_sq_cmd g qs i dma =
     set_dword 11 (push_bit 16 (of_nat i + 1) OR 0x01)
      (set_dword 10 (push_bit 16 (qs - 1) OR (of_nat i + 1))
      (set_dword 7 (ucast (drop_bit 32 dma))
      (set_dword 6 (ucast dma)
      (set_dword 0 (opcode CRT_IO_SQ) (clear_cmd g)))))"

text \<open>An access to a \<open>struct queue_pair\<close> through a pointer.\<close>

definition qp_upd :: "(queue_pair \<Rightarrow> queue_pair) \<Rightarrow> addr \<Rightarrow> 'd host \<Rightarrow> 'd host res" where
  "qp_upd f p h =
     (case h_qps h p of
       None \<Rightarrow> Inl (if p = NULL then NullDeref else UseAfterFree p)
     | Some qp \<Rightarrow> Inr (h\<lparr>h_qps := (h_qps h)(p \<mapsto> f qp)\<rparr>))"

definition sizeof_queue_pair :: u64 where
  "sizeof_queue_pair = 256"

text \<open>\<open>kmalloc\<close> of the pair's struct, its contents what was there before.\<close>

definition new_pair :: "'d world \<Rightarrow> nat \<Rightarrow> 'd host \<Rightarrow> ('d host \<times> addr) res" where
  "new_pair w i h =
     (let (p, k) = kmalloc (w_mem w) sizeof_queue_pair (h_calls h) in
      bindE (wr (a_io_qp_list (h_aqp h)) i p) (\<lambda>ps.
      Inr (h\<lparr>h_aqp := (h_aqp h)\<lparr>a_io_qp_list := ps\<rparr>,
             h_qps := (if p = NULL then h_qps h else (h_qps h)(p \<mapsto> w_qp w)),
             h_calls := k\<rparr>, p)))"

definition make_cq :: "'d world \<Rightarrow> u32 \<Rightarrow> nat \<Rightarrow> addr \<Rightarrow> 'd host \<Rightarrow> 'd host res" where
  "make_cq w qs i p h =
     (let es = q_es (a_cq (h_aqp h)) in
      bindE (qp_upd (\<lambda>qp. qp\<lparr>qp_cq := (qp_cq qp)\<lparr>q_es := es, q_qs := qs\<rparr>\<rparr>) p h) (\<lambda>h1.
      let (va, dma, k) = dma_alloc_coherent (w_mem w) (ucast qs * es) (h_calls h1) in
      bindE (wr (a_cq_dma_addrs (h_aqp h1)) i dma) (\<lambda>dmas.
      let h2 = h1\<lparr>h_aqp := (h_aqp h1)\<lparr>a_cq_dma_addrs := dmas\<rparr>, h_calls := k\<rparr>;
          db = io_cq_db (q_db (a_cq (h_aqp h2))) (h_dstrd h2) i in
      qp_upd (\<lambda>qp. qp\<lparr>qp_cq := (qp_cq qp)\<lparr>q_addr := va, q_db := db\<rparr>\<rparr>) p h2)))"

definition make_sq :: "'d world \<Rightarrow> u32 \<Rightarrow> nat \<Rightarrow> addr \<Rightarrow> 'd host \<Rightarrow> 'd host res" where
  "make_sq w qs i p h =
     (let es = q_es (a_sq (h_aqp h));
          db = io_sq_db (q_db (a_sq (h_aqp h))) (h_dstrd h) i in
      bindE (qp_upd (\<lambda>qp. qp\<lparr>qp_sq := (qp_sq qp)\<lparr>q_db := db, q_es := es, q_qs := qs\<rparr>\<rparr>) p h) (\<lambda>h1.
      let (va, dma, k) = dma_alloc_coherent (w_mem w) (ucast qs * es) (h_calls h1) in
      bindE (wr (a_sq_dma_addrs (h_aqp h1)) i dma) (\<lambda>dmas.
      qp_upd (\<lambda>qp. qp\<lparr>qp_sq := (qp_sq qp)\<lparr>q_addr := va\<rparr>\<rparr>) p
        (h1\<lparr>h_aqp := (h_aqp h1)\<lparr>a_sq_dma_addrs := dmas\<rparr>, h_calls := k\<rparr>))))"

definition finish_pair :: "nat \<Rightarrow> queue_pair \<Rightarrow> queue_pair" where
  "finish_pair i qp =
     qp\<lparr>qp_cq := (qp_cq qp)\<lparr>q_head := 0, q_tail := 0, q_no := of_nat (i + 1)\<rparr>,
        qp_sq := (qp_sq qp)\<lparr>q_head := 0, q_tail := 0, q_no := of_nat (i + 1)\<rparr>\<rparr>"

text \<open>The function: the pair's address, or \<open>NULL\<close> when there is none to give.\<close>

definition admin_create_io_queue_pair :: "'d world \<Rightarrow> 'd host \<Rightarrow> ('d host \<times> addr) res option" where
  "admin_create_io_queue_pair w h =
     bindO (Some (claim_pair (h_aqp h))) (\<lambda>(a, found).
     let h0 = h\<lparr>h_aqp := a\<rparr> in
     case found of
       None \<Rightarrow> Some (Inr (h0, NULL))
     | Some i \<Rightarrow>
         let qs = io_queue_size (h_max_queue_size h0) in
         bindO (Some (new_pair w i h0)) (\<lambda>(h1, p).
         bindO (Some (make_cq w qs i p h1)) (\<lambda>h2.
         bindO (Some (rd (a_cq_dma_addrs (h_aqp h2)) i)) (\<lambda>cq_dma.
         bindO (channel (run_cmd_read (w_dev w)) h2 (create_cq_cmd (w_cmd w) qs i cq_dma)) (\<lambda>h3.
         bindO (Some (make_sq w qs i p h3)) (\<lambda>h4.
         bindO (Some (rd (a_sq_dma_addrs (h_aqp h4)) i)) (\<lambda>sq_dma.
         bindO (channel (run_cmd_read (w_dev w)) h4 (create_sq_cmd (w_cmd w) qs i sq_dma)) (\<lambda>h5.
         bindO (Some (qp_upd (finish_pair i) p h5)) (\<lambda>h6.
         Some (Inr (h6, p)))))))))))"

definition delete_sq_cmd :: "cmd \<Rightarrow> nat \<Rightarrow> cmd" where
  "delete_sq_cmd g i = set_dword 10 (of_nat i + 1) (set_dword 0 (opcode DEL_IO_SQ) (clear_cmd g))"

definition delete_cq_cmd :: "cmd \<Rightarrow> nat \<Rightarrow> cmd" where
  "delete_cq_cmd g i = set_dword 10 (of_nat i + 1) (set_dword 0 (opcode DEL_IO_CQ) (clear_cmd g))"

text \<open>The test of the pair's mark, under the lock.\<close>

definition pair_marked :: "aqp \<Rightarrow> nat \<Rightarrow> (aqp \<times> bool) res" where
  "pair_marked a i =
     bindE (aqp_lock a) (\<lambda>a1.
     bindE (rd (a_use_mark a1) i) (\<lambda>m. Inr (aqp_unlock a1, m \<noteq> 0)))"

definition release_mark :: "aqp \<Rightarrow> nat \<Rightarrow> aqp res" where
  "release_mark a i =
     bindE (aqp_lock a) (\<lambda>a1.
     bindE (wr (a_use_mark a1) i 0) (\<lambda>marks. Inr (aqp_unlock (a1\<lparr>a_use_mark := marks\<rparr>))))"

text \<open>Freeing the pair's two rings and its struct.\<close>

definition free_pair :: "nat \<Rightarrow> addr \<Rightarrow> 'd host \<Rightarrow> 'd host res" where
  "free_pair i del_qp h =
     (case h_qps h del_qp of
       None \<Rightarrow> Inl (if del_qp = NULL then NullDeref else UseAfterFree del_qp)
     | Some qp \<Rightarrow>
         bindE (rd (a_cq_dma_addrs (h_aqp h)) i) (\<lambda>cq_dma.
         bindE (rd (a_sq_dma_addrs (h_aqp h)) i) (\<lambda>sq_dma.
         bindE (rd (a_io_qp_list (h_aqp h)) i) (\<lambda>p.
         let k1 = dma_free_coherent (ucast (q_qs (qp_cq qp)) * q_es (qp_cq qp)) (q_addr (qp_cq qp)) cq_dma (h_calls h);
             k2 = dma_free_coherent (ucast (q_qs (qp_sq qp)) * q_es (qp_sq qp)) (q_addr (qp_sq qp)) sq_dma k1
         in Inr (h\<lparr>h_calls := kfree p k2, h_qps := (h_qps h)(p := None)\<rparr>)))))"

text \<open>
  The function in two halves: up to the test of the mark, for which it takes the lock, and what it does
  after it has given the lock back.
\<close>

definition delete_enter :: "nat \<Rightarrow> 'd host \<Rightarrow> ('d host \<times> addr \<times> bool) res" where
  "delete_enter i h =
     bindE (rd (a_io_qp_list (h_aqp h)) i) (\<lambda>del_qp.
     bindE (pair_marked (h_aqp h) i) (\<lambda>(a, used). Inr (h\<lparr>h_aqp := a\<rparr>, del_qp, used)))"

definition delete_cmds :: "'d world \<Rightarrow> nat \<Rightarrow> 'd host \<Rightarrow> 'd host res option" where
  "delete_cmds w i h =
     bindO (channel (run_cmd (w_dev w)) h (delete_sq_cmd (w_cmd w) i)) (\<lambda>h1.
     channel (run_cmd (w_dev w)) h1 (delete_cq_cmd (w_cmd w) i))"

definition delete_rest :: "'d world \<Rightarrow> nat \<Rightarrow> addr \<Rightarrow> 'd host \<Rightarrow> 'd host res option" where
  "delete_rest w i del_qp h =
     bindO (delete_cmds w i h) (\<lambda>h1.
     bindO (Some (free_pair i del_qp h1)) (\<lambda>h2.
     bindO (Some (release_mark (h_aqp h2) i)) (\<lambda>a.
     Some (Inr (h2\<lparr>h_aqp := a\<rparr>)))))"

definition admin_delete_io_queue_pair :: "'d world \<Rightarrow> nat \<Rightarrow> 'd host \<Rightarrow> 'd host res option" where
  "admin_delete_io_queue_pair w i h =
     bindO (Some (delete_enter i h)) (\<lambda>(h0, del_qp, used).
     if \<not> used then Some (Inr h0) else delete_rest w i del_qp h0)"

subsection \<open>A controller that answers, and the channel it gives\<close>

text \<open>
  \<open>serves dev I\<close>: in any state of its own that satisfies \<open>I\<close> the controller completes any single
  command after finitely many turns and is in such a state again. What the completion says is left open.
\<close>

definition serves :: "'d device \<Rightarrow> ('d \<Rightarrow> bool) \<Rightarrow> bool" where
  "serves dev I \<longleftrightarrow>
     (\<forall>a d c. idle a \<and> plain_cmd c \<and> I d \<longrightarrow> (\<exists>e d'. completes dev a d c e d' \<and> I d'))"

definition host_ready :: "'d world \<Rightarrow> ('d \<Rightarrow> bool) \<Rightarrow> 'd host \<Rightarrow> bool" where
  "host_ready w I h \<longleftrightarrow> idle (h_aqp h) \<and> serves (w_dev w) I \<and> I (h_dev h)"

definition host_answers :: "'d world \<Rightarrow> ('d \<Rightarrow> bool) \<Rightarrow> 'd host \<Rightarrow> cmd \<Rightarrow> 'd host \<Rightarrow> bool" where
  "host_answers w I h c h' \<longleftrightarrow>
     (\<exists>e d'. completes (w_dev w) (h_aqp h) (h_dev h) c e d' \<and> I d'
       \<and> h' = h\<lparr>h_aqp := after_cmd (h_aqp h) c e, h_dev := d'\<rparr>)"

locale serving_channel = command_channel +
  assumes served: "ready s \<Longrightarrow> fit c \<Longrightarrow> \<exists>s'. answered s c s'"
begin

lemma run_ends: "ready s \<Longrightarrow> fit c \<Longrightarrow> \<exists>s'. run s c = Some (Inr s') \<and> answered s c s' \<and> ready s'"
  using served run_answered ready_answered by blast

lemma run_all_ends: "ready s \<Longrightarrow> list_all fit cs \<Longrightarrow>
    \<exists>s'. run_all run s cs = Some (Inr s') \<and> all_answered answered s cs s' \<and> ready s'"
proof (induction cs arbitrary: s)
  case (Cons c cs)
  then obtain s1 where "run s c = Some (Inr s1)" "answered s c s1" "ready s1"
    using run_ends [of s c] by auto
  with Cons show ?case by fastforce
qed simp

end

lemma ready_host_answers:
  assumes "host_ready w I h" and "plain_cmd c" and "host_answers w I h c h'"
  shows "host_ready w I h'"
proof -
  obtain e d' where "completes (w_dev w) (h_aqp h) (h_dev h) c e d'" "I d'"
    "h' = h\<lparr>h_aqp := after_cmd (h_aqp h) c e, h_dev := d'\<rparr>"
    using assms(3) by (auto simp: host_answers_def)
  with assms idle_after show ?thesis by (auto simp: host_ready_def)
qed

lemma host_served:
  "host_ready w I h \<Longrightarrow> plain_cmd c \<Longrightarrow> \<exists>h'. host_answers w I h c h'"
  by (auto simp: host_ready_def host_answers_def serves_def)

interpretation hc: serving_channel "channel (run_cmd (w_dev w))" "host_ready w I" plain_cmd
  "host_answers w I" for w :: "'d world" and I
proof
  fix h h' :: "'d host" and c
  assume a: "host_ready w I h" "plain_cmd c" "host_answers w I h c h'"
  then show "channel (run_cmd (w_dev w)) h c = Some (Inr h')"
    using run_cmd_completes(1) by (fastforce simp: host_ready_def host_answers_def channel_def)
  show "host_ready w I h'" by (rule ready_host_answers [OF a])
qed (rule host_served)

interpretation hr: serving_channel "channel (run_cmd_read (w_dev w))" "host_ready w I" plain_cmd
  "host_answers w I" for w :: "'d world" and I
proof
  fix h h' :: "'d host" and c
  assume a: "host_ready w I h" "plain_cmd c" "host_answers w I h c h'"
  then show "channel (run_cmd_read (w_dev w)) h c = Some (Inr h')"
    using run_cmd_completes(2) by (fastforce simp: host_ready_def host_answers_def channel_def)
  show "host_ready w I h'" by (rule ready_host_answers [OF a])
qed (rule host_served)

text \<open>The commands a log stores in the submission ring, in order.\<close>

fun sent :: "hw_event list \<Rightarrow> cmd list" where
  "sent [] = []"
| "sent (SqStore _ c # log) = c # sent log"
| "sent (_ # log) = sent log"

lemma sent_append [simp]: "sent (xs @ ys) = sent xs @ sent ys"
  by (induction xs rule: sent.induct) simp_all

lemma with_cid_0 [simp]: "with_cid 0 c = c"
  by (simp add: with_cid_def set_dword_def)

text \<open>What the admin rings were allocated with; nothing changes it after initialisation.\<close>

definition ring_alloc :: "aqp \<Rightarrow> (u64 \<times> u32 \<times> addr \<times> u64) \<times> (u64 \<times> u32 \<times> addr \<times> u64)" where
  "ring_alloc a =
     ((q_es (a_sq a), q_qs (a_sq a), q_addr (a_sq a), a_sq_dma a),
      (q_es (a_cq a), q_qs (a_cq a), q_addr (a_cq a), a_cq_dma a))"

lemma ring_alloc_frame [simp]:
  "ring_alloc (after_cmd a c e) = ring_alloc a"
  "ring_alloc (a\<lparr>a_use_mark := m\<rparr>) = ring_alloc a" "ring_alloc (a\<lparr>a_used := n\<rparr>) = ring_alloc a"
  "ring_alloc (a\<lparr>a_supported := n\<rparr>) = ring_alloc a" "ring_alloc (a\<lparr>a_io_qp_list := ps\<rparr>) = ring_alloc a"
  "ring_alloc (a\<lparr>a_sq_dma_addrs := ds\<rparr>) = ring_alloc a" "ring_alloc (a\<lparr>a_cq_dma_addrs := ds\<rparr>) = ring_alloc a"
  "ring_alloc (a\<lparr>a_log := l\<rparr>) = ring_alloc a"
  by (simp_all add: ring_alloc_def after_cmd_def consumed_def finished_def post_def enqueued_def Let_def
      reclaim_one_def)

text \<open>A command's effect on the state around the rings.\<close>

lemma answered_frame:
  assumes "host_ready w I h" and "plain_cmd c" and "host_answers w I h c h'"
  shows "sent (a_log (h_aqp h')) = sent (a_log (h_aqp h)) @ [c]"
    and "prefix (a_log (h_aqp h)) (a_log (h_aqp h'))"
    and "a_use_mark (h_aqp h') = a_use_mark (h_aqp h)"
    and "a_io_qp_list (h_aqp h') = a_io_qp_list (h_aqp h)"
    and "a_supported (h_aqp h') = a_supported (h_aqp h)"
    and "a_used (h_aqp h') = a_used (h_aqp h)"
    and "a_sq_dma_addrs (h_aqp h') = a_sq_dma_addrs (h_aqp h)"
    and "a_cq_dma_addrs (h_aqp h') = a_cq_dma_addrs (h_aqp h)"
    and "q_db (a_sq (h_aqp h')) = q_db (a_sq (h_aqp h))"
    and "q_db (a_cq (h_aqp h')) = q_db (a_cq (h_aqp h))"
    and "q_es (a_sq (h_aqp h')) = q_es (a_sq (h_aqp h))"
    and "q_es (a_cq (h_aqp h')) = q_es (a_cq (h_aqp h))"
    and "h_max_queue_size h' = h_max_queue_size h" and "h_dstrd h' = h_dstrd h"
    and "h_qps h' = h_qps h" and "h_calls h' = h_calls h"
    and "ring_alloc (h_aqp h') = ring_alloc (h_aqp h)"
proof -
  obtain e d' where h': "h' = h\<lparr>h_aqp := after_cmd (h_aqp h) c e, h_dev := d'\<rparr>"
    using assms(3) by (auto simp: host_answers_def)
  have "idle (h_aqp h)" using assms(1) by (simp add: host_ready_def)
  from after_cmd_log [OF this assms(2), of e]
  show "sent (a_log (h_aqp h')) = sent (a_log (h_aqp h)) @ [c]"
    "prefix (a_log (h_aqp h)) (a_log (h_aqp h'))"
    by (simp_all add: h')
qed (use assms(3) in \<open>auto simp: host_answers_def\<close>)

lemma idle_cong:
  assumes "a_sq a' = a_sq a" "a_sq_mem a' = a_sq_mem a" "a_cq a' = a_cq a" "a_cq_mem a' = a_cq_mem a"
    "a_lock a' = a_lock a"
  shows "idle a' = idle a"
proof -
  have free: "sq_inv x \<Longrightarrow> \<not> a_lock x" for x by (simp add: sq_inv_def)
  have "sq_inv a' = sq_inv a"
    using sq_inv_frame(1) [of a a'] sq_inv_frame(1) [of a' a] free [of a] free [of a'] assms by metis
  then show ?thesis using assms by (simp add: idle_def cq_quiet_def cq_wf_def)
qed

subsection \<open>Creation, step by step\<close>

definition pair_tables :: "aqp \<Rightarrow> bool" where
  "pair_tables a \<longleftrightarrow> length (a_use_mark a) = unat (a_supported a)
     \<and> length (a_io_qp_list a) = unat (a_supported a)
     \<and> length (a_sq_dma_addrs a) = unat (a_supported a)
     \<and> length (a_cq_dma_addrs a) = unat (a_supported a)"

text \<open>\<open>i\<close> is the first unused pair number.\<close>

definition first_unused :: "aqp \<Rightarrow> nat \<Rightarrow> bool" where
  "first_unused a i \<longleftrightarrow> i < unat (a_supported a) \<and> a_use_mark a ! i = 0
     \<and> (\<forall>j < i. a_use_mark a ! j \<noteq> 0)"

lemma claim_pair_full:
  "\<not> a_lock a \<Longrightarrow> a_used a = a_supported a \<Longrightarrow> claim_pair a = Inr (a, None)"
  by (simp add: claim_pair_def aqp_lock_def aqp_unlock_def unlock_lock)

lemma claim_pair_free:
  assumes "\<not> a_lock a" and "a_used a \<noteq> a_supported a" and "pair_tables a" and "first_unused a i"
  shows "claim_pair a =
    Inr (a\<lparr>a_used := a_used a + 1, a_use_mark := (a_use_mark a)[i := 1]\<rparr>, Some i)"
proof -
  have "take_slot (unat (a_supported a)) (a_use_mark a) = Inr ((a_use_mark a)[i := 1], Some i)"
    using take_slot_spec [of "unat (a_supported a)" "a_use_mark a"] assms(3,4)
    unfolding pair_tables_def first_unused_def by (metis le_refl nat_neq_iff)
  with assms(1,2) show ?thesis
    by (simp add: claim_pair_def aqp_lock_def aqp_unlock_def Let_def)
qed

lemma qp_upd_at: "h_qps h p = Some qp \<Longrightarrow> qp_upd f p h = Inr (h\<lparr>h_qps := (h_qps h)(p \<mapsto> f qp)\<rparr>)"
  by (simp add: qp_upd_def)

lemma new_pair_ok:
  assumes "kmalloc_result (w_mem w) (h_calls h) sizeof_queue_pair = p" and "p \<noteq> NULL"
    and "i < length (a_io_qp_list (h_aqp h))"
  shows "new_pair w i h =
    Inr (h\<lparr>h_aqp := (h_aqp h)\<lparr>a_io_qp_list := (a_io_qp_list (h_aqp h))[i := p]\<rparr>,
           h_qps := (h_qps h)(p \<mapsto> w_qp w),
           h_calls := h_calls h @ [Kmalloc sizeof_queue_pair p]\<rparr>, p)"
  using assms by (simp add: new_pair_def kmalloc_def Let_def)

lemma make_cq_ok:
  assumes "h_qps h p = Some qp" and "i < length (a_cq_dma_addrs (h_aqp h))"
    and "dma_alloc_result (w_mem w) (h_calls h) (ucast qs * q_es (a_cq (h_aqp h))) = (va, dma)"
  shows "make_cq w qs i p h =
    Inr (h\<lparr>h_aqp := (h_aqp h)\<lparr>a_cq_dma_addrs := (a_cq_dma_addrs (h_aqp h))[i := dma]\<rparr>,
           h_qps := (h_qps h)(p \<mapsto> qp\<lparr>qp_cq := (qp_cq qp)\<lparr>q_es := q_es (a_cq (h_aqp h)), q_qs := qs,
             q_addr := va, q_db := io_cq_db (q_db (a_cq (h_aqp h))) (h_dstrd h) i\<rparr>\<rparr>),
           h_calls := h_calls h @ [DmaAlloc (ucast qs * q_es (a_cq (h_aqp h))) va dma]\<rparr>)"
  using assms by (simp add: make_cq_def qp_upd_def dma_alloc_coherent_def Let_def)

lemma make_sq_ok:
  assumes "h_qps h p = Some qp" and "i < length (a_sq_dma_addrs (h_aqp h))"
    and "dma_alloc_result (w_mem w) (h_calls h) (ucast qs * q_es (a_sq (h_aqp h))) = (va, dma)"
  shows "make_sq w qs i p h =
    Inr (h\<lparr>h_aqp := (h_aqp h)\<lparr>a_sq_dma_addrs := (a_sq_dma_addrs (h_aqp h))[i := dma]\<rparr>,
           h_qps := (h_qps h)(p \<mapsto> qp\<lparr>qp_sq := (qp_sq qp)\<lparr>q_db :=
             io_sq_db (q_db (a_sq (h_aqp h))) (h_dstrd h) i, q_es := q_es (a_sq (h_aqp h)),
             q_qs := qs, q_addr := va\<rparr>\<rparr>),
           h_calls := h_calls h @ [DmaAlloc (ucast qs * q_es (a_sq (h_aqp h))) va dma]\<rparr>)"
  using assms by (simp add: make_sq_def qp_upd_def dma_alloc_coherent_def Let_def)

lemma io_cmds_plain:
  assumes "wf_cmd g"
  shows "plain_cmd (create_cq_cmd g qs i dma)" "plain_cmd (create_sq_cmd g qs i dma)"
    "plain_cmd (delete_sq_cmd g i)" "plain_cmd (delete_cq_cmd g i)"
  using assms
  by (simp_all add: create_cq_cmd_def create_sq_cmd_def delete_sq_cmd_def delete_cq_cmd_def
      clear_cmd_zero plain_cmd_def wf_cmd_def)

lemma host_ready_frame:
  assumes "host_ready w I h" and "idle (h_aqp h') = idle (h_aqp h)" and "h_dev h' = h_dev h"
  shows "host_ready w I h'"
  using assms by (simp add: host_ready_def)

lemma finish_pair_rings:
  "qp_cq (finish_pair i qp) = (qp_cq qp)\<lparr>q_head := 0, q_tail := 0, q_no := of_nat (i + 1)\<rparr>"
  "qp_sq (finish_pair i qp) = (qp_sq qp)\<lparr>q_head := 0, q_tail := 0, q_no := of_nat (i + 1)\<rparr>"
  by (simp_all add: finish_pair_def)

lemma create_runs:
  assumes r: "host_ready w I h" and g: "wf_cmd (w_cmd w)" and t: "pair_tables (h_aqp h)"
    and used: "a_used (h_aqp h) \<noteq> a_supported (h_aqp h)" and i: "first_unused (h_aqp h) i"
    and qs: "qs = io_queue_size (h_max_queue_size h)"
    and km: "kmalloc_result (w_mem w) (h_calls h) sizeof_queue_pair = p" "p \<noteq> NULL"
    and cq: "dma_alloc_result (w_mem w) (h_calls h @ [Kmalloc sizeof_queue_pair p])
        (ucast qs * q_es (a_cq (h_aqp h))) = (cq_va, cq_dma)"
    and sq: "dma_alloc_result (w_mem w) (h_calls h @ [Kmalloc sizeof_queue_pair p,
          DmaAlloc (ucast qs * q_es (a_cq (h_aqp h))) cq_va cq_dma])
        (ucast qs * q_es (a_sq (h_aqp h))) = (sq_va, sq_dma)"
  obtains h' qp where "admin_create_io_queue_pair w h = Some (Inr (h', p))" "host_ready w I h'"
    "h_qps h' = (h_qps h)(p \<mapsto> qp)"
    "qp_cq qp = (qp_cq (w_qp w))\<lparr>q_es := q_es (a_cq (h_aqp h)), q_qs := qs, q_addr := cq_va,
       q_db := io_cq_db (q_db (a_cq (h_aqp h))) (h_dstrd h) i,
       q_head := 0, q_tail := 0, q_no := of_nat (i + 1)\<rparr>"
    "qp_sq qp = (qp_sq (w_qp w))\<lparr>q_db := io_sq_db (q_db (a_sq (h_aqp h))) (h_dstrd h) i,
       q_es := q_es (a_sq (h_aqp h)), q_qs := qs, q_addr := sq_va,
       q_head := 0, q_tail := 0, q_no := of_nat (i + 1)\<rparr>"
    "h_calls h' = h_calls h @ [Kmalloc sizeof_queue_pair p,
       DmaAlloc (ucast qs * q_es (a_cq (h_aqp h))) cq_va cq_dma,
       DmaAlloc (ucast qs * q_es (a_sq (h_aqp h))) sq_va sq_dma]"
    "sent (a_log (h_aqp h')) = sent (a_log (h_aqp h)) @
       [create_cq_cmd (w_cmd w) qs i cq_dma, create_sq_cmd (w_cmd w) qs i sq_dma]"
    "prefix (a_log (h_aqp h)) (a_log (h_aqp h'))"
    "a_used (h_aqp h') = a_used (h_aqp h) + 1" "a_supported (h_aqp h') = a_supported (h_aqp h)"
    "a_use_mark (h_aqp h') = (a_use_mark (h_aqp h))[i := 1]"
    "a_io_qp_list (h_aqp h') = (a_io_qp_list (h_aqp h))[i := p]"
    "a_cq_dma_addrs (h_aqp h') = (a_cq_dma_addrs (h_aqp h))[i := cq_dma]"
    "a_sq_dma_addrs (h_aqp h') = (a_sq_dma_addrs (h_aqp h))[i := sq_dma]"
    "q_db (a_sq (h_aqp h')) = q_db (a_sq (h_aqp h))" "q_db (a_cq (h_aqp h')) = q_db (a_cq (h_aqp h))"
    "q_es (a_sq (h_aqp h')) = q_es (a_sq (h_aqp h))" "q_es (a_cq (h_aqp h')) = q_es (a_cq (h_aqp h))"
    "h_dstrd h' = h_dstrd h" "h_max_queue_size h' = h_max_queue_size h"
    "ring_alloc (h_aqp h') = ring_alloc (h_aqp h)"
proof -
  let ?a = "h_aqp h"
  have id: "idle ?a" using r by (simp add: host_ready_def)
  note unlocked = idle_facts(3) [OF id]
  have len: "i < length (a_io_qp_list ?a)" "i < length (a_cq_dma_addrs ?a)" "i < length (a_sq_dma_addrs ?a)"
    using t i by (simp_all add: pair_tables_def first_unused_def)
  define h0 where "h0 = h\<lparr>h_aqp := ?a\<lparr>a_used := a_used ?a + 1, a_use_mark := (a_use_mark ?a)[i := 1]\<rparr>\<rparr>"
  define h1 where "h1 = h0\<lparr>h_aqp := (h_aqp h0)\<lparr>a_io_qp_list := (a_io_qp_list (h_aqp h0))[i := p]\<rparr>,
    h_qps := (h_qps h0)(p \<mapsto> w_qp w), h_calls := h_calls h0 @ [Kmalloc sizeof_queue_pair p]\<rparr>"
  have s1: "new_pair w i h0 = Inr (h1, p)"
    using new_pair_ok [of w h0 p i] km len by (simp add: h1_def h0_def)
  define qp1 where "qp1 = (w_qp w)\<lparr>qp_cq := (qp_cq (w_qp w))\<lparr>q_es := q_es (a_cq ?a), q_qs := qs,
    q_addr := cq_va, q_db := io_cq_db (q_db (a_cq ?a)) (h_dstrd h) i\<rparr>\<rparr>"
  obtain h2 where h2: "make_cq w qs i p h1 = Inr h2" "h2 = h1\<lparr>h_aqp := (h_aqp h1)\<lparr>a_cq_dma_addrs :=
      (a_cq_dma_addrs ?a)[i := cq_dma]\<rparr>, h_qps := (h_qps h)(p \<mapsto> qp1), h_calls := h_calls h1 @
      [DmaAlloc (ucast qs * q_es (a_cq ?a)) cq_va cq_dma]\<rparr>"
    using make_cq_ok [of h1 p "w_qp w" i w qs cq_va cq_dma] cq len
    by (simp add: h1_def h0_def qp1_def)
  let ?c1 = "create_cq_cmd (w_cmd w) qs i cq_dma" and ?c2 = "create_sq_cmd (w_cmd w) qs i sq_dma"
  note plain = io_cmds_plain [OF g]
  have "idle (h_aqp h2) = idle ?a" by (rule idle_cong) (simp_all add: h2 h1_def h0_def)
  then have r2: "host_ready w I h2"
    by (rule host_ready_frame [OF r]) (simp add: h2 h1_def h0_def)
  obtain h3 where h3: "channel (run_cmd_read (w_dev w)) h2 ?c1 = Some (Inr h3)"
    "host_answers w I h2 ?c1 h3" "host_ready w I h3"
    using hr.run_ends [OF r2 plain(1)] by blast
  note f3 = answered_frame [OF r2 plain(1) h3(2)]
  define qp2 where "qp2 = qp1\<lparr>qp_sq := (qp_sq qp1)\<lparr>q_db := io_sq_db (q_db (a_sq ?a)) (h_dstrd h) i,
    q_es := q_es (a_sq ?a), q_qs := qs, q_addr := sq_va\<rparr>\<rparr>"
  obtain h4 where h4: "make_sq w qs i p h3 = Inr h4" "h4 = h3\<lparr>h_aqp := (h_aqp h3)\<lparr>a_sq_dma_addrs :=
      (a_sq_dma_addrs ?a)[i := sq_dma]\<rparr>, h_qps := (h_qps h)(p \<mapsto> qp2), h_calls := h_calls h3 @
      [DmaAlloc (ucast qs * q_es (a_sq ?a)) sq_va sq_dma]\<rparr>"
    using make_sq_ok [of h3 p qp1 i w qs sq_va sq_dma] sq len
    by (simp add: f3 h2 h1_def h0_def qp2_def)
  have "idle (h_aqp h4) = idle (h_aqp h3)" by (rule idle_cong) (simp_all add: h4)
  then have r4: "host_ready w I h4"
    by (rule host_ready_frame [OF h3(3)]) (simp add: h4)
  obtain h5 where h5: "channel (run_cmd_read (w_dev w)) h4 ?c2 = Some (Inr h5)"
    "host_answers w I h4 ?c2 h5" "host_ready w I h5"
    using hr.run_ends [OF r4 plain(2)] by blast
  note f5 = answered_frame [OF r4 plain(2) h5(2)]
  have grow: "prefix (a_log ?a) (a_log (h_aqp h5))"
    using f3(2) f5(2) by (simp add: h4 h2 h1_def h0_def prefix_order.trans)
  let ?h' = "h5\<lparr>h_qps := (h_qps h)(p \<mapsto> finish_pair i qp2)\<rparr>"
  have s6: "qp_upd (finish_pair i) p h5 = Inr ?h'"
    by (subst qp_upd_at) (simp_all add: f5 h4)
  have "admin_create_io_queue_pair w h = Some (Inr (?h', p))"
    using claim_pair_free [OF unlocked used t i] s1 h2(1) h3(1) h4(1) h5(1) s6 len
    by (simp add: admin_create_io_queue_pair_def Let_def qs h0_def [symmetric] del: fun_upd_apply)
      (simp add: h0_def h2 h1_def f3 h4)
  moreover have "host_ready w I ?h'" by (rule host_ready_frame [OF h5(3)]) simp_all
  moreover have "h_qps ?h' = (h_qps h)(p \<mapsto> finish_pair i qp2)" by simp
  moreover have "qp_cq qp2 = qp_cq qp1" "qp_sq qp1 = qp_sq (w_qp w)"
    by (simp_all add: qp2_def qp1_def)
  then have "qp_cq (finish_pair i qp2) = (qp_cq (w_qp w))\<lparr>q_es := q_es (a_cq ?a), q_qs := qs,
      q_addr := cq_va, q_db := io_cq_db (q_db (a_cq ?a)) (h_dstrd h) i,
      q_head := 0, q_tail := 0, q_no := of_nat (i + 1)\<rparr>"
    "qp_sq (finish_pair i qp2) = (qp_sq (w_qp w))\<lparr>q_db := io_sq_db (q_db (a_sq ?a)) (h_dstrd h) i,
      q_es := q_es (a_sq ?a), q_qs := qs, q_addr := sq_va,
      q_head := 0, q_tail := 0, q_no := of_nat (i + 1)\<rparr>"
    by (simp_all add: finish_pair_rings) (simp_all add: qp1_def qp2_def)
  ultimately show thesis
    by (rule that) (use grow in \<open>simp_all add: f5 h4 f3 h2 h1_def h0_def\<close>)
qed

text \<open>The same with a kernel that never runs out of memory.\<close>

definition mem_plenty :: "mem_api \<Rightarrow> bool" where
  "mem_plenty api \<longleftrightarrow> (\<forall>k sz. kmalloc_result api k sz \<noteq> NULL \<and> fst (dma_alloc_result api k sz) \<noteq> NULL)"

lemma create_ends:
  assumes "host_ready w I h" and "wf_cmd (w_cmd w)" and "pair_tables (h_aqp h)"
    and "a_used (h_aqp h) \<noteq> a_supported (h_aqp h)" and "first_unused (h_aqp h) i"
    and mem: "mem_plenty (w_mem w)"
  obtains h' p qp cq_va cq_dma sq_va sq_dma where
    "p \<noteq> NULL" "cq_va \<noteq> NULL" "sq_va \<noteq> NULL"
    "admin_create_io_queue_pair w h = Some (Inr (h', p))" "host_ready w I h'"
    "h_qps h' = (h_qps h)(p \<mapsto> qp)"
    "qp_cq qp = (qp_cq (w_qp w))\<lparr>q_es := q_es (a_cq (h_aqp h)), q_qs := io_queue_size (h_max_queue_size h), q_addr := cq_va,
       q_db := io_cq_db (q_db (a_cq (h_aqp h))) (h_dstrd h) i,
       q_head := 0, q_tail := 0, q_no := of_nat (i + 1)\<rparr>"
    "qp_sq qp = (qp_sq (w_qp w))\<lparr>q_db := io_sq_db (q_db (a_sq (h_aqp h))) (h_dstrd h) i,
       q_es := q_es (a_sq (h_aqp h)), q_qs := io_queue_size (h_max_queue_size h), q_addr := sq_va,
       q_head := 0, q_tail := 0, q_no := of_nat (i + 1)\<rparr>"
    "h_calls h' = h_calls h @ [Kmalloc sizeof_queue_pair p,
       DmaAlloc (ucast (io_queue_size (h_max_queue_size h)) * q_es (a_cq (h_aqp h))) cq_va cq_dma,
       DmaAlloc (ucast (io_queue_size (h_max_queue_size h)) * q_es (a_sq (h_aqp h))) sq_va sq_dma]"
    "sent (a_log (h_aqp h')) = sent (a_log (h_aqp h)) @
       [create_cq_cmd (w_cmd w) (io_queue_size (h_max_queue_size h)) i cq_dma,
        create_sq_cmd (w_cmd w) (io_queue_size (h_max_queue_size h)) i sq_dma]"
    "prefix (a_log (h_aqp h)) (a_log (h_aqp h'))"
    "a_used (h_aqp h') = a_used (h_aqp h) + 1" "a_supported (h_aqp h') = a_supported (h_aqp h)"
    "a_use_mark (h_aqp h') = (a_use_mark (h_aqp h))[i := 1]"
    "a_io_qp_list (h_aqp h') = (a_io_qp_list (h_aqp h))[i := p]"
    "a_cq_dma_addrs (h_aqp h') = (a_cq_dma_addrs (h_aqp h))[i := cq_dma]"
    "a_sq_dma_addrs (h_aqp h') = (a_sq_dma_addrs (h_aqp h))[i := sq_dma]"
    "q_db (a_sq (h_aqp h')) = q_db (a_sq (h_aqp h))" "q_db (a_cq (h_aqp h')) = q_db (a_cq (h_aqp h))"
    "q_es (a_sq (h_aqp h')) = q_es (a_sq (h_aqp h))" "q_es (a_cq (h_aqp h')) = q_es (a_cq (h_aqp h))"
    "h_dstrd h' = h_dstrd h" "h_max_queue_size h' = h_max_queue_size h"
    "ring_alloc (h_aqp h') = ring_alloc (h_aqp h)"
proof -
  let ?qs = "io_queue_size (h_max_queue_size h)" and ?a = "h_aqp h"
  obtain p where p: "kmalloc_result (w_mem w) (h_calls h) sizeof_queue_pair = p" "p \<noteq> NULL"
    using mem by (auto simp: mem_plenty_def)
  obtain v1 d1 where cq: "dma_alloc_result (w_mem w) (h_calls h @ [Kmalloc sizeof_queue_pair p])
      (ucast ?qs * q_es (a_cq ?a)) = (v1, d1)" "v1 \<noteq> NULL"
    using mem by (metis mem_plenty_def prod.collapse)
  obtain v2 d2 where sq: "dma_alloc_result (w_mem w) (h_calls h @ [Kmalloc sizeof_queue_pair p,
      DmaAlloc (ucast ?qs * q_es (a_cq ?a)) v1 d1]) (ucast ?qs * q_es (a_sq ?a)) = (v2, d2)" "v2 \<noteq> NULL"
    using mem by (metis mem_plenty_def prod.collapse)
  show thesis
    by (rule create_runs [OF assms(1-5) refl p cq(1) sq(1)]) (rule that [OF p(2) cq(2) sq(2)])
qed

subsection \<open>Deletion, step by step\<close>

text \<open>The test of the mark, for a pair number within the tables.\<close>

lemma delete_enters:
  assumes "\<not> a_lock (h_aqp h)" and "pair_tables (h_aqp h)" and "i < unat (a_supported (h_aqp h))"
  shows "delete_enter i h = Inr (h, a_io_qp_list (h_aqp h) ! i, a_use_mark (h_aqp h) ! i \<noteq> 0)"
  using assms
  by (simp add: delete_enter_def pair_marked_def pair_tables_def aqp_lock_def aqp_unlock_def unlock_lock)

lemma delete_unmarked:
  assumes "\<not> a_lock (h_aqp h)" and "pair_tables (h_aqp h)" and "i < unat (a_supported (h_aqp h))"
    and "a_use_mark (h_aqp h) ! i = 0"
  shows "admin_delete_io_queue_pair w i h = Some (Inr h)"
  using assms by (simp add: admin_delete_io_queue_pair_def delete_enters)

lemma delete_cmds_run:
  assumes r: "host_ready w I h" and g: "wf_cmd (w_cmd w)"
  obtains h2 where "delete_cmds w i h = Some (Inr h2)" "host_ready w I h2"
    "sent (a_log (h_aqp h2)) = sent (a_log (h_aqp h)) @ [delete_sq_cmd (w_cmd w) i, delete_cq_cmd (w_cmd w) i]"
    "prefix (a_log (h_aqp h)) (a_log (h_aqp h2))"
    "a_use_mark (h_aqp h2) = a_use_mark (h_aqp h)" "a_io_qp_list (h_aqp h2) = a_io_qp_list (h_aqp h)"
    "a_supported (h_aqp h2) = a_supported (h_aqp h)" "a_used (h_aqp h2) = a_used (h_aqp h)"
    "a_sq_dma_addrs (h_aqp h2) = a_sq_dma_addrs (h_aqp h)" "a_cq_dma_addrs (h_aqp h2) = a_cq_dma_addrs (h_aqp h)"
    "q_db (a_sq (h_aqp h2)) = q_db (a_sq (h_aqp h))" "q_db (a_cq (h_aqp h2)) = q_db (a_cq (h_aqp h))"
    "q_es (a_sq (h_aqp h2)) = q_es (a_sq (h_aqp h))" "q_es (a_cq (h_aqp h2)) = q_es (a_cq (h_aqp h))"
    "h_max_queue_size h2 = h_max_queue_size h" "h_dstrd h2 = h_dstrd h"
    "h_qps h2 = h_qps h" "h_calls h2 = h_calls h" "ring_alloc (h_aqp h2) = ring_alloc (h_aqp h)"
proof -
  note plain = io_cmds_plain [OF g]
  let ?c1 = "delete_sq_cmd (w_cmd w) i" and ?c2 = "delete_cq_cmd (w_cmd w) i"
  obtain h2 where "run_all (channel (run_cmd (w_dev w))) h [?c1, ?c2] = Some (Inr h2)"
    "all_answered (host_answers w I) h [?c1, ?c2] h2" and r2: "host_ready w I h2"
    using hc.run_all_ends [OF r, of "[?c1, ?c2]"] plain by auto
  then obtain h1 where h1: "host_answers w I h ?c1 h1" "host_answers w I h1 ?c2 h2" by auto
  have r1: "host_ready w I h1" by (rule ready_host_answers [OF r plain(3) h1(1)])
  note f = answered_frame [OF r1 plain(4) h1(2)] answered_frame [OF r plain(3) h1(1)]
  have "delete_cmds w i h = Some (Inr h2)"
    using hc.run_answered [OF r plain(3) h1(1)] hc.run_answered [OF r1 plain(4) h1(2)]
    by (simp add: delete_cmds_def)
  moreover have "prefix (a_log (h_aqp h)) (a_log (h_aqp h2))"
    using f(2) answered_frame(2) [OF r plain(3) h1(1)] by (metis prefix_order.trans)
  ultimately show thesis using r2 by (intro that [of h2]) (simp_all add: f)
qed

lemma delete_rest_runs:
  assumes r: "host_ready w I h" and g: "wf_cmd (w_cmd w)" and t: "pair_tables (h_aqp h)"
    and i: "i < unat (a_supported (h_aqp h))"
    and p: "a_io_qp_list (h_aqp h) ! i = p" "h_qps h p = Some qp"
  obtains h' where "delete_rest w i p h = Some (Inr h')" "host_ready w I h'"
    "h_qps h' = (h_qps h)(p := None)"
    "h_calls h' = h_calls h @
       [DmaFree (ucast (q_qs (qp_cq qp)) * q_es (qp_cq qp)) (q_addr (qp_cq qp)) (a_cq_dma_addrs (h_aqp h) ! i),
        DmaFree (ucast (q_qs (qp_sq qp)) * q_es (qp_sq qp)) (q_addr (qp_sq qp)) (a_sq_dma_addrs (h_aqp h) ! i),
        Kfree p]"
    "sent (a_log (h_aqp h')) = sent (a_log (h_aqp h)) @
       [delete_sq_cmd (w_cmd w) i, delete_cq_cmd (w_cmd w) i]"
    "prefix (a_log (h_aqp h)) (a_log (h_aqp h'))"
    "a_used (h_aqp h') = a_used (h_aqp h)" "a_supported (h_aqp h') = a_supported (h_aqp h)"
    "a_use_mark (h_aqp h') = (a_use_mark (h_aqp h))[i := 0]"
    "a_io_qp_list (h_aqp h') = a_io_qp_list (h_aqp h)"
    "a_cq_dma_addrs (h_aqp h') = a_cq_dma_addrs (h_aqp h)"
    "a_sq_dma_addrs (h_aqp h') = a_sq_dma_addrs (h_aqp h)"
    "q_db (a_sq (h_aqp h')) = q_db (a_sq (h_aqp h))" "q_db (a_cq (h_aqp h')) = q_db (a_cq (h_aqp h))"
    "q_es (a_sq (h_aqp h')) = q_es (a_sq (h_aqp h))" "q_es (a_cq (h_aqp h')) = q_es (a_cq (h_aqp h))"
    "h_dstrd h' = h_dstrd h" "h_max_queue_size h' = h_max_queue_size h"
    "ring_alloc (h_aqp h') = ring_alloc (h_aqp h)"
proof -
  let ?a = "h_aqp h"
  have len: "i < length (a_use_mark ?a)" "i < length (a_io_qp_list ?a)" "i < length (a_cq_dma_addrs ?a)"
    "i < length (a_sq_dma_addrs ?a)"
    using t i by (simp_all add: pair_tables_def)
  obtain h2 where h2: "delete_cmds w i h = Some (Inr h2)" and r2: "host_ready w I h2"
    and grow: "prefix (a_log ?a) (a_log (h_aqp h2))"
    and f: "sent (a_log (h_aqp h2)) = sent (a_log ?a) @ [delete_sq_cmd (w_cmd w) i, delete_cq_cmd (w_cmd w) i]"
    "a_use_mark (h_aqp h2) = a_use_mark ?a" "a_io_qp_list (h_aqp h2) = a_io_qp_list ?a"
    "a_supported (h_aqp h2) = a_supported ?a" "a_used (h_aqp h2) = a_used ?a"
    "a_sq_dma_addrs (h_aqp h2) = a_sq_dma_addrs ?a" "a_cq_dma_addrs (h_aqp h2) = a_cq_dma_addrs ?a"
    "q_db (a_sq (h_aqp h2)) = q_db (a_sq ?a)" "q_db (a_cq (h_aqp h2)) = q_db (a_cq ?a)"
    "q_es (a_sq (h_aqp h2)) = q_es (a_sq ?a)" "q_es (a_cq (h_aqp h2)) = q_es (a_cq ?a)"
    "h_max_queue_size h2 = h_max_queue_size h" "h_dstrd h2 = h_dstrd h"
    "h_qps h2 = h_qps h" "h_calls h2 = h_calls h" "ring_alloc (h_aqp h2) = ring_alloc ?a"
    by (rule delete_cmds_run [OF r g])
  define h3 where "h3 = h2\<lparr>h_calls := h_calls h @
       [DmaFree (ucast (q_qs (qp_cq qp)) * q_es (qp_cq qp)) (q_addr (qp_cq qp)) (a_cq_dma_addrs ?a ! i),
        DmaFree (ucast (q_qs (qp_sq qp)) * q_es (qp_sq qp)) (q_addr (qp_sq qp)) (a_sq_dma_addrs ?a ! i),
        Kfree p], h_qps := (h_qps h)(p := None)\<rparr>"
  have s3: "free_pair i p h2 = Inr h3"
    using p len
    by (simp add: free_pair_def f dma_free_coherent_def kfree_def Let_def h3_def del: fun_upd_apply)
  have "\<not> a_lock (h_aqp h2)" using r2 idle_facts(3) by (simp add: host_ready_def)
  then have s4: "release_mark (h_aqp h3) i =
      Inr ((h_aqp h2)\<lparr>a_use_mark := (a_use_mark ?a)[i := 0]\<rparr>)"
    using len by (simp add: release_mark_def aqp_lock_def aqp_unlock_def h3_def f)
  let ?h' = "h3\<lparr>h_aqp := (h_aqp h2)\<lparr>a_use_mark := (a_use_mark ?a)[i := 0]\<rparr>\<rparr>"
  have "delete_rest w i p h = Some (Inr ?h')"
    using h2 s3 s4 by (simp add: delete_rest_def)
  moreover have "idle (h_aqp ?h') = idle (h_aqp h2)" by (rule idle_cong) simp_all
  then have "host_ready w I ?h'" by (rule host_ready_frame [OF r2]) (simp add: h3_def)
  ultimately show thesis
    by (rule that) (use grow in \<open>simp_all add: h3_def f\<close>)
qed

lemma delete_marked:
  assumes "host_ready w I h" and "pair_tables (h_aqp h)"
    and "i < unat (a_supported (h_aqp h))" "a_use_mark (h_aqp h) ! i \<noteq> 0"
  shows "admin_delete_io_queue_pair w i h = delete_rest w i (a_io_qp_list (h_aqp h) ! i) h"
proof -
  have "\<not> a_lock (h_aqp h)" using assms(1) idle_facts(3) by (simp add: host_ready_def)
  then show ?thesis using assms(2-4) by (simp add: admin_delete_io_queue_pair_def delete_enters)
qed

subsection \<open>Creation and deletion together\<close>

lemma holds_pair:
  assumes "holds log = Some R" and "p \<noteq> NULL" and "v1 \<noteq> NULL" and "v2 \<noteq> NULL"
  shows "holds (log @ [Kmalloc s p, DmaAlloc n1 v1 d1, DmaAlloc n2 v2 d2,
    DmaFree n1 v1 d1, DmaFree n2 v2 d2, Kfree p]) = Some R"
  using assms by (simp add: holds_append)

lemma create_delete:
  assumes r: "host_ready w I h" and g: "wf_cmd (w_cmd w)" and t: "pair_tables (h_aqp h)"
    and used: "a_used (h_aqp h) \<noteq> a_supported (h_aqp h)" and i: "first_unused (h_aqp h) i"
    and mem: "mem_plenty (w_mem w)"
  obtains h1 p h2 where "admin_create_io_queue_pair w h = Some (Inr (h1, p))" "p \<noteq> NULL"
    "admin_delete_io_queue_pair w i h1 = Some (Inr h2)" "host_ready w I h2"
    "pair_tables (h_aqp h2)" "a_used (h_aqp h2) = a_used (h_aqp h) + 1"
    "a_supported (h_aqp h2) = a_supported (h_aqp h)" "a_use_mark (h_aqp h2) = a_use_mark (h_aqp h)"
    "\<forall>R. holds (h_calls h) = Some R \<longrightarrow> holds (h_calls h2) = Some R"
    "\<exists>dma1 dma2. sent (a_log (h_aqp h2)) = sent (a_log (h_aqp h)) @
       [create_cq_cmd (w_cmd w) (io_queue_size (h_max_queue_size h)) i dma1,
        create_sq_cmd (w_cmd w) (io_queue_size (h_max_queue_size h)) i dma2,
        delete_sq_cmd (w_cmd w) i, delete_cq_cmd (w_cmd w) i]"
proof -
  let ?a = "h_aqp h" and ?qs = "io_queue_size (h_max_queue_size h)"
  obtain h1 p qp v1 d1 v2 d2 where n: "p \<noteq> NULL" "v1 \<noteq> NULL" "v2 \<noteq> NULL" and
    c: "admin_create_io_queue_pair w h = Some (Inr (h1, p))" "host_ready w I h1"
    "h_qps h1 = (h_qps h)(p \<mapsto> qp)" and c': "q_qs (qp_cq qp) = ?qs" "q_es (qp_cq qp) = q_es (a_cq ?a)"
    "q_addr (qp_cq qp) = v1" "q_qs (qp_sq qp) = ?qs" "q_es (qp_sq qp) = q_es (a_sq ?a)"
    "q_addr (qp_sq qp) = v2" "h_calls h1 = h_calls h @ [Kmalloc sizeof_queue_pair p,
       DmaAlloc (ucast ?qs * q_es (a_cq ?a)) v1 d1, DmaAlloc (ucast ?qs * q_es (a_sq ?a)) v2 d2]"
    "sent (a_log (h_aqp h1)) = sent (a_log ?a) @
       [create_cq_cmd (w_cmd w) ?qs i d1, create_sq_cmd (w_cmd w) ?qs i d2]"
    "a_used (h_aqp h1) = a_used ?a + 1" "a_supported (h_aqp h1) = a_supported ?a"
    "a_use_mark (h_aqp h1) = (a_use_mark ?a)[i := 1]" "a_io_qp_list (h_aqp h1) = (a_io_qp_list ?a)[i := p]"
    "a_cq_dma_addrs (h_aqp h1) = (a_cq_dma_addrs ?a)[i := d1]"
    "a_sq_dma_addrs (h_aqp h1) = (a_sq_dma_addrs ?a)[i := d2]"
    by (rule create_ends [OF r g t used i mem]) simp
  have lt: "i < unat (a_supported ?a)" and z: "a_use_mark ?a ! i = 0"
    using i by (simp_all add: first_unused_def)
  then have len: "i < length (a_cq_dma_addrs ?a)" "i < length (a_sq_dma_addrs ?a)"
    using t by (simp_all add: pair_tables_def)
  have t1: "pair_tables (h_aqp h1)" using t by (simp add: pair_tables_def c')
  have m: "a_use_mark (h_aqp h1) ! i \<noteq> 0" "i < unat (a_supported (h_aqp h1))"
    "a_io_qp_list (h_aqp h1) ! i = p" "h_qps h1 p = Some qp"
    "a_cq_dma_addrs (h_aqp h1) ! i = d1" "a_sq_dma_addrs (h_aqp h1) ! i = d2"
    using t lt by (simp_all add: c(3) c' pair_tables_def)
  have unmark: "(a_use_mark ?a)[i := 0] = a_use_mark ?a"
    using z by (metis list_update_id)
  obtain h2 where d: "admin_delete_io_queue_pair w i h1 = Some (Inr h2)" "host_ready w I h2"
    "h_calls h2 = h_calls h1 @ [DmaFree (ucast ?qs * q_es (a_cq ?a)) v1 d1,
        DmaFree (ucast ?qs * q_es (a_sq ?a)) v2 d2, Kfree p]"
    "sent (a_log (h_aqp h2)) = sent (a_log (h_aqp h1)) @
       [delete_sq_cmd (w_cmd w) i, delete_cq_cmd (w_cmd w) i]"
    "a_used (h_aqp h2) = a_used (h_aqp h1)" "a_supported (h_aqp h2) = a_supported (h_aqp h1)"
    "a_use_mark (h_aqp h2) = (a_use_mark (h_aqp h1))[i := 0]"
    "a_io_qp_list (h_aqp h2) = a_io_qp_list (h_aqp h1)"
    "a_cq_dma_addrs (h_aqp h2) = a_cq_dma_addrs (h_aqp h1)"
    "a_sq_dma_addrs (h_aqp h2) = a_sq_dma_addrs (h_aqp h1)"
    by (rule delete_rest_runs [OF c(2) g t1 m(2,3,4)]) (use delete_marked [OF c(2) t1 m(2,1)] m(3) in \<open>simp add: c' len m(5,6)\<close>)
  have t2: "pair_tables (h_aqp h2)" using t1 by (simp add: pair_tables_def d)
  show thesis
    by (rule that [OF c(1) n(1) d(1,2) t2])
      (use n in \<open>auto simp: d c' unmark intro: holds_pair\<close>)
qed

subsection \<open>Properties\<close>

text \<open>
  C14. Creating an I/O queue pair. On an idle admin queue with a pair number left, with memory and with a
  controller that answers, the function returns a new pair: the first unused number \<open>i\<close> is
  marked, the count of pairs in use grows by one, the controller gets Create I/O Completion Queue and then Create I/O
  Submission Queue, and the struct returned has queue number \<open>i + 1\<close>, the admin queues'
  entry sizes, at most 4096 slots, empty rings, and doorbells computed from the admin queues' ones. The
  status in the completions is not looked at. The admin queue is idle again.
\<close>

theorem create_io_queue_pair_spec:
  assumes "host_ready w I h" and "wf_cmd (w_cmd w)" and "pair_tables (h_aqp h)"
    and "a_used (h_aqp h) \<noteq> a_supported (h_aqp h)" and "first_unused (h_aqp h) i"
    and "mem_plenty (w_mem w)"
    and "qs = (if unat (h_max_queue_size h) > 4096 then 4096 else h_max_queue_size h)"
  shows "\<exists>h' p qp cq_dma sq_dma. admin_create_io_queue_pair w h = Some (Inr (h', p)) \<and> p \<noteq> NULL
    \<and> host_ready w I h' \<and> h_qps h' = (h_qps h)(p \<mapsto> qp)
    \<and> sent (a_log (h_aqp h')) = sent (a_log (h_aqp h)) @
        [create_cq_cmd (w_cmd w) qs i cq_dma, create_sq_cmd (w_cmd w) qs i sq_dma]
    \<and> a_cq_dma_addrs (h_aqp h') = (a_cq_dma_addrs (h_aqp h))[i := cq_dma]
    \<and> a_sq_dma_addrs (h_aqp h') = (a_sq_dma_addrs (h_aqp h))[i := sq_dma]
    \<and> (\<forall>q \<in> {qp_cq qp, qp_sq qp}. q_no q = of_nat (i + 1) \<and> q_qs q = qs \<and> q_head q = 0 \<and> q_tail q = 0)
    \<and> q_es (qp_cq qp) = q_es (a_cq (h_aqp h)) \<and> q_es (qp_sq qp) = q_es (a_sq (h_aqp h))
    \<and> q_db (qp_cq qp) = io_cq_db (q_db (a_cq (h_aqp h))) (h_dstrd h) i
    \<and> q_db (qp_sq qp) = io_sq_db (q_db (a_sq (h_aqp h))) (h_dstrd h) i
    \<and> a_used (h_aqp h') = a_used (h_aqp h) + 1
    \<and> a_use_mark (h_aqp h') = (a_use_mark (h_aqp h))[i := 1]
    \<and> a_io_qp_list (h_aqp h') = (a_io_qp_list (h_aqp h))[i := p]"
proof -
  have qs: "io_queue_size (h_max_queue_size h) = qs"
    using assms(7) by (simp add: io_queue_size_def word_less_nat_alt)
  show ?thesis
    apply (rule create_ends [OF assms(1-6)])
    subgoal for h' p qp v1 d1 v2 d2
      unfolding qs
      by (intro exI [of _ h'] exI [of _ p] exI [of _ qp] exI [of _ d1] exI [of _ d2]) simp
    done
qed

text \<open>A system with a controller that answers at once, before any pair exists.\<close>

definition some_memory :: mem_api where
  "some_memory = \<lparr>kmalloc_result = \<lambda>k sz. 0x4000, dma_alloc_result = \<lambda>k sz.
     if even (length k) then (0x8000, 0x108000) else (0xC000, 0x10C000)\<rparr>"

definition small_world :: "unit world" where
  "small_world = \<lparr>w_mem = some_memory, w_dev = prompt_device 0, w_cmd = zero_cmd,
     w_qp = \<lparr>qp_cq = blank_queue 4 0, qp_sq = blank_queue 4 0\<rparr>\<rparr>"

definition small_host :: "u32 \<Rightarrow> unit host" where
  "small_host n = \<lparr>h_aqp = (blank_aqp 4)\<lparr>a_supported := n, a_use_mark := replicate (unat n) 0,
       a_io_qp_list := replicate (unat n) NULL, a_sq_dma_addrs := replicate (unat n) 0,
       a_cq_dma_addrs := replicate (unat n) 0\<rparr>,
     h_dev = (), h_max_queue_size = 1024, h_dstrd = 0, h_page_size = 4096, h_timeout = 1,
     h_qps = Map.empty, h_calls = []\<rparr>"

lemma small_facts:
  "host_ready small_world (\<lambda>_. True) (small_host n)" "wf_cmd (w_cmd small_world)"
  "pair_tables (h_aqp (small_host n))" "mem_plenty (w_mem small_world)"
  "a_used (h_aqp (small_host n)) = 0" "a_supported (h_aqp (small_host n)) = n"
  "0 < unat n \<Longrightarrow> first_unused (h_aqp (small_host n)) 0"
proof -
  have "serves (prompt_device 0) (\<lambda>_. True)"
    using prompt_device_completes by (fastforce simp: serves_def)
  moreover have "idle (h_aqp (small_host n)) = idle (blank_aqp 4)"
    by (rule idle_cong) (simp_all add: small_host_def)
  ultimately show "host_ready small_world (\<lambda>_. True) (small_host n)"
    by (simp add: host_ready_def small_world_def blank_idle)
qed (simp_all add: small_world_def small_host_def wf_cmd_def pair_tables_def mem_plenty_def
    some_memory_def first_unused_def blank_aqp_def)

theorem create_io_queue_pair_spec_witness:
  "\<exists>h' p. admin_create_io_queue_pair small_world (small_host 2) = Some (Inr (h', p)) \<and> p \<noteq> NULL
    \<and> a_used (h_aqp h') = 1"
  using create_io_queue_pair_spec [OF small_facts(1-3) _ _ small_facts(4) refl, of 2 0]
    small_facts(5-7) [of 2]
  by auto

text \<open>
  The fields of the creation commands, for queue sizes from 1 to 65536 and pair numbers
  below 65535: the opcode, the queue identifier \<open>i + 1\<close> and the size minus one in dword 10, the ring's bus address in
  dwords 6 and 7, the physically-contiguous flag, and for the submission queue the identifier of its
  completion queue; nothing of the stack's contents remains.
\<close>

lemma create_cmd_fields:
  assumes "wf_cmd g" and "1 \<le> unat qs" and "unat qs \<le> 65536" and "i < 65535"
  shows "(\<forall>c \<in> {create_cq_cmd g qs i dma, create_sq_cmd g qs i dma}.
      unat (cmd_dword c ! 10) = (unat qs - 1) * 65536 + (i + 1)
      \<and> unat (cmd_dword c ! 6) + unat (cmd_dword c ! 7) * 4294967296 = unat dma
      \<and> (\<forall>j \<in> {1, 2, 3, 4, 5, 8, 9, 12, 13, 14, 15}. cmd_dword c ! j = 0))
    \<and> cmd_dword (create_cq_cmd g qs i dma) ! 0 = 5 \<and> cmd_dword (create_sq_cmd g qs i dma) ! 0 = 1
    \<and> cmd_dword (create_cq_cmd g qs i dma) ! 11 = 1
    \<and> unat (cmd_dword (create_sq_cmd g qs i dma) ! 11) = (i + 1) * 65536 + 1"
proof (intro conjI)
  have id: "unat (of_nat i + 1 :: u32) = i + 1"
    using assms(4) by (simp add: unat_word_ariths unat_of_nat)
  have "unat (qs - 1) = unat qs - 1"
    using assms(2) by (simp add: unat_sub word_le_nat_alt)
  then have ten: "unat (push_bit 16 (qs - 1) OR (of_nat i + 1)) = (unat qs - 1) * 65536 + (i + 1)"
    using assms(2-4) id by (subst pack_halves) simp_all
  have eleven: "unat (push_bit 16 (of_nat i + 1 :: u32) OR 1) = (i + 1) * 65536 + 1"
    using assms(4) id by (subst pack_halves) simp_all
  have "unat (ucast dma :: u32) + unat (ucast (drop_bit 32 dma) :: u32) * 4294967296 = unat dma"
    using unat_u64 [of dma] by (simp add: unat_ucast_mod drop_bit_unat del: drop_bit_eq_div)
  with id ten eleven show "\<forall>c \<in> {create_cq_cmd g qs i dma, create_sq_cmd g qs i dma}.
      unat (cmd_dword c ! 10) = (unat qs - 1) * 65536 + (i + 1)
      \<and> unat (cmd_dword c ! 6) + unat (cmd_dword c ! 7) * 4294967296 = unat dma
      \<and> (\<forall>j \<in> {1, 2, 3, 4, 5, 8, 9, 12, 13, 14, 15}. cmd_dword c ! j = 0)"
    by (simp add: create_cq_cmd_def create_sq_cmd_def clear_cmd_zero [OF assms(1)]
        del: drop_bit_eq_div)
  show "unat (cmd_dword (create_sq_cmd g qs i dma) ! 11) = (i + 1) * 65536 + 1"
    using eleven by (simp add: create_sq_cmd_def clear_cmd_zero [OF assms(1)])
qed (simp_all add: create_cq_cmd_def create_sq_cmd_def clear_cmd_zero [OF assms(1)])


text \<open>The witness deletes the pair that creation made.\<close>

lemma small_pair_made:
  obtains h p qp where "admin_create_io_queue_pair small_world (small_host 2) = Some (Inr (h, p))"
    "host_ready small_world (\<lambda>_. True) h" "pair_tables (h_aqp h)" "a_supported (h_aqp h) = 2"
    "h_qps h (a_io_qp_list (h_aqp h) ! 0) = Some qp" "a_use_mark (h_aqp h) ! 0 = 1"
    "a_io_qp_list (h_aqp h) ! 0 \<noteq> NULL"
proof -
  obtain h p qp cq_dma sq_dma where n: "p \<noteq> NULL" and c:
    "admin_create_io_queue_pair small_world (small_host 2) = Some (Inr (h, p))"
    "host_ready small_world (\<lambda>_. True) h" "h_qps h = (h_qps (small_host 2))(p \<mapsto> qp)"
    "a_cq_dma_addrs (h_aqp h) = (a_cq_dma_addrs (h_aqp (small_host 2)))[0 := cq_dma]"
    "a_sq_dma_addrs (h_aqp h) = (a_sq_dma_addrs (h_aqp (small_host 2)))[0 := sq_dma]"
    "a_use_mark (h_aqp h) = (a_use_mark (h_aqp (small_host 2)))[0 := 1]"
    "a_io_qp_list (h_aqp h) = (a_io_qp_list (h_aqp (small_host 2)))[0 := p]"
    "a_supported (h_aqp h) = a_supported (h_aqp (small_host 2))"
    by (rule create_ends [OF small_facts(1-3) _ _ small_facts(4), of 2 0])
      (use small_facts(5-7) [of 2] in auto)
  then show thesis
    by (intro that [OF c(1,2)]) (simp_all add: pair_tables_def small_host_def)
qed


text \<open>
  Creating a pair and deleting it again gives back everything that was taken: if the kernel log was
  balanced up to some resources \<open>R\<close>, it is again, with every buffer freed once, with the size and the
  addresses of its allocation; the marks are as before; the four commands reach the controller in the order
  completion queue, submission queue, delete submission queue, delete completion queue. The
  count of pairs in use, however, is one higher than before.
\<close>

theorem create_delete_balanced:
  assumes "host_ready w I h" and "wf_cmd (w_cmd w)" and "pair_tables (h_aqp h)"
    and "a_used (h_aqp h) \<noteq> a_supported (h_aqp h)" and "first_unused (h_aqp h) i"
    and "mem_plenty (w_mem w)" and "holds (h_calls h) = Some R"
  shows "\<exists>h1 p h2. admin_create_io_queue_pair w h = Some (Inr (h1, p))
    \<and> admin_delete_io_queue_pair w i h1 = Some (Inr h2)
    \<and> holds (h_calls h2) = Some R \<and> a_use_mark (h_aqp h2) = a_use_mark (h_aqp h)
    \<and> map (\<lambda>c. cmd_dword c ! 0) (sent (a_log (h_aqp h2))) =
        map (\<lambda>c. cmd_dword c ! 0) (sent (a_log (h_aqp h))) @
          [opcode CRT_IO_CQ, opcode CRT_IO_SQ, opcode DEL_IO_SQ, opcode DEL_IO_CQ]
    \<and> a_used (h_aqp h2) = a_used (h_aqp h) + 1"
proof -
  let ?qs = "io_queue_size (h_max_queue_size h)"
  obtain h1 p h2 where c: "admin_create_io_queue_pair w h = Some (Inr (h1, p))"
    "admin_delete_io_queue_pair w i h1 = Some (Inr h2)" "a_used (h_aqp h2) = a_used (h_aqp h) + 1"
    "a_use_mark (h_aqp h2) = a_use_mark (h_aqp h)" "holds (h_calls h2) = Some R"
    "\<exists>dma1 dma2. sent (a_log (h_aqp h2)) = sent (a_log (h_aqp h)) @
       [create_cq_cmd (w_cmd w) ?qs i dma1, create_sq_cmd (w_cmd w) ?qs i dma2,
        delete_sq_cmd (w_cmd w) i, delete_cq_cmd (w_cmd w) i]"
    by (rule create_delete [OF assms(1-6)]) (use assms(7) in blast)
  then show ?thesis
    by (intro exI [of _ h1] exI [of _ p] exI [of _ h2])
      (auto simp: create_cq_cmd_def create_sq_cmd_def delete_sq_cmd_def delete_cq_cmd_def
        clear_cmd_zero [OF assms(2)])
qed

theorem create_delete_balanced_witness:
  "\<exists>h1 p h2. admin_create_io_queue_pair small_world (small_host 2) = Some (Inr (h1, p))
    \<and> admin_delete_io_queue_pair small_world 0 h1 = Some (Inr h2) \<and> holds (h_calls h2) = Some {#}
    \<and> a_used (h_aqp h2) = 1"
proof -
  have "holds (h_calls (small_host 2)) = Some {#}" by (simp add: small_host_def holds_def)
  from create_delete_balanced [OF small_facts(1-3) _ _ small_facts(4) this, of 0]
  show ?thesis using small_facts(5-7) [of 2] by fastforce
qed

text \<open>Creating a pair and deleting it again, a number of times.\<close>

fun churn :: "'d world \<Rightarrow> nat \<Rightarrow> 'd host \<Rightarrow> 'd host res option" where
  "churn w 0 h = Some (Inr h)"
| "churn w (Suc n) h =
     bindO (admin_create_io_queue_pair w h) (\<lambda>(h1, p).
     bindO (admin_delete_io_queue_pair w 0 h1) (churn w n))"

lemma churn_uses:
  assumes "wf_cmd (w_cmd w)" and "mem_plenty (w_mem w)"
  shows "host_ready w I h \<Longrightarrow> pair_tables (h_aqp h) \<Longrightarrow> first_unused (h_aqp h) 0 \<Longrightarrow>
    unat (a_used (h_aqp h)) + n \<le> unat (a_supported (h_aqp h)) \<Longrightarrow>
    \<exists>h'. churn w n h = Some (Inr h') \<and> host_ready w I h' \<and> a_use_mark (h_aqp h') = a_use_mark (h_aqp h)
      \<and> a_supported (h_aqp h') = a_supported (h_aqp h)
      \<and> unat (a_used (h_aqp h')) = unat (a_used (h_aqp h)) + n"
proof (induction n arbitrary: h)
  case (Suc n)
  have ne: "a_used (h_aqp h) \<noteq> a_supported (h_aqp h)" using Suc.prems(4) by auto
  obtain h1 p h2 where c: "admin_create_io_queue_pair w h = Some (Inr (h1, p))"
    "admin_delete_io_queue_pair w 0 h1 = Some (Inr h2)" "host_ready w I h2" "pair_tables (h_aqp h2)"
    "a_used (h_aqp h2) = a_used (h_aqp h) + 1" "a_supported (h_aqp h2) = a_supported (h_aqp h)"
    "a_use_mark (h_aqp h2) = a_use_mark (h_aqp h)"
    by (rule create_delete [OF Suc.prems(1) assms(1) Suc.prems(2) ne Suc.prems(3) assms(2)]) simp
  have u: "unat (a_used (h_aqp h2)) = unat (a_used (h_aqp h)) + 1"
    using Suc.prems(4) unat_u32 [of "a_supported (h_aqp h)"] by (simp add: c(5) unat_word_ariths)
  have "first_unused (h_aqp h2) 0" using Suc.prems(3) by (simp add: first_unused_def c)
  from Suc.IH [OF c(3,4) this] Suc.prems(4) u c show ?case by auto
qed simp

text \<open>
  C16. Pair numbers run out although they are given back. From a state with \<open>n\<close> pairs supported and none
  in use, creating and deleting a pair \<open>n\<close> times leaves every pair number unmarked, and creating one
  more returns NULL, without a command and without touching anything: deletion does not decrement the count of
  pairs in use that creation tests.
\<close>

theorem create_delete_exhausts:
  assumes "host_ready w I h" and "wf_cmd (w_cmd w)" and "pair_tables (h_aqp h)"
    and "mem_plenty (w_mem w)" and "a_used (h_aqp h) = 0" and "0 < a_supported (h_aqp h)"
    and "list_all (\<lambda>m. m = 0) (a_use_mark (h_aqp h))"
  shows "\<exists>h'. churn w (unat (a_supported (h_aqp h))) h = Some (Inr h')
    \<and> list_all (\<lambda>m. m = 0) (a_use_mark (h_aqp h'))
    \<and> admin_create_io_queue_pair w h' = Some (Inr (h', NULL))"
proof -
  have pos: "0 < unat (a_supported (h_aqp h))" using assms(6) by (simp add: word_less_nat_alt)
  then have "first_unused (h_aqp h) 0"
    using assms(3,7) by (simp add: first_unused_def pair_tables_def list_all_length)
  then obtain h' where h': "churn w (unat (a_supported (h_aqp h))) h = Some (Inr h')"
    "host_ready w I h'" "a_use_mark (h_aqp h') = a_use_mark (h_aqp h)"
    "a_supported (h_aqp h') = a_supported (h_aqp h)"
    "unat (a_used (h_aqp h')) = unat (a_supported (h_aqp h))"
    using churn_uses [OF assms(2,4,1,3), of "unat (a_supported (h_aqp h))"] assms(5) by auto
  have "\<not> a_lock (h_aqp h')" using h'(2) idle_facts(3) by (simp add: host_ready_def)
  moreover have "a_used (h_aqp h') = a_supported (h_aqp h')"
    using h'(4,5) by (simp add: word_eq_unat)
  ultimately have "admin_create_io_queue_pair w h' = Some (Inr (h', NULL))"
    by (simp add: admin_create_io_queue_pair_def claim_pair_full Let_def)
  with h' assms(7) show ?thesis by auto
qed

theorem create_delete_exhausts_witness:
  "\<exists>h'. churn small_world 2 (small_host 2) = Some (Inr h')
    \<and> admin_create_io_queue_pair small_world h' = Some (Inr (h', NULL))"
proof -
  have "list_all (\<lambda>m. m = 0) (a_use_mark (h_aqp (small_host 2)))"
    by (simp add: small_host_def list_all_length)
  from create_delete_exhausts [OF small_facts(1-4) _ _ this] small_facts(5,6) [of 2]
  show ?thesis by auto
qed

text \<open>
  The doorbell of a new completion queue is the wrong one. The admin completion doorbell is one
  stride above the admin submission doorbell, as initialisation sets it. The completion
  doorbell computed for pair \<open>i\<close> is then the submission doorbell of the pair after it, and not the
  register between the two submission doorbells, where the controller has it: the offset is taken
  from the admin completion doorbell instead of the base of all doorbells.
\<close>

theorem io_cq_doorbell_aliases:
  assumes "admin_cq_db = admin_sq_db + ucast (stride :: u32)" and "stride = push_bit (unat dstrd) 4"
    and "(2 * i + 4) * unat stride < 4294967296"
  shows "io_cq_db admin_cq_db dstrd i = io_sq_db admin_sq_db dstrd (i + 1)
    \<and> unat (io_cq_db admin_cq_db dstrd i - admin_sq_db) = (2 * (i + 1) + 2) * unat stride
    \<and> unat (io_sq_db admin_sq_db dstrd i - admin_sq_db) = 2 * (i + 1) * unat stride"
proof (cases "unat stride = 0")
  case True
  then have "stride = 0" by (simp add: unat_eq_0)
  with assms(1,2) show ?thesis by (simp add: io_cq_db_def io_sq_db_def)
next
  case False
  then have "2 * i + 4 \<le> (2 * i + 4) * unat stride" by simp
  then have i: "2 * i + 4 < 4294967296" using assms(3) by linarith
  have cq: "unat ((2 * (of_nat i + 1) + 1) * stride :: u32) = (2 * i + 3) * unat stride"
  proof -
    have e: "(2 * (of_nat i + 1) + 1) * stride = of_nat ((2 * i + 3) * unat stride)"
      by (simp add: algebra_simps)
    have "(2 * i + 3) * unat stride \<le> (2 * i + 4) * unat stride" by (intro mult_le_mono1) simp
    with assms(3) have "(2 * i + 3) * unat stride < 4294967296" by linarith
    then show ?thesis by (simp only: e unat_of_nat) simp
  qed
  have sq: "unat ((2 * (of_nat k + 1)) * stride :: u32) = (2 * k + 2) * unat stride"
    if "k \<le> i + 1" for k
  proof -
    have "(2 * k + 2) * unat stride \<le> (2 * i + 4) * unat stride"
      using that by (intro mult_le_mono1) simp
    with assms(3) have "(2 * k + 2) * unat stride < 4294967296" by linarith
    moreover have e: "(2 * (of_nat k + 1)) * stride = of_nat ((2 * k + 2) * unat stride)"
      by (simp add: algebra_simps)
    ultimately show ?thesis by (simp only: e unat_of_nat) simp
  qed
  have plus: "unat (ucast x + ucast y :: u64) = unat x + unat y" for x y :: u32
    using unat_u32 [of x] unat_u32 [of y] by (simp add: unat_word_ariths word_nat)
  have "unat stride + (2 * i + 3) * unat stride = (2 * (i + 1) + 2) * unat stride"
    by (simp add: add_mult_distrib)
  then have c: "ucast stride + ucast ((2 * (of_nat i + 1) + 1) * stride :: u32) =
      (ucast ((2 * (of_nat (i + 1) + 1)) * stride :: u32) :: u64)"
    unfolding word_eq_unat plus word_nat cq using sq [of "i + 1"] by simp
  then have "io_cq_db admin_cq_db dstrd i = io_sq_db admin_sq_db dstrd (i + 1)"
    by (simp add: io_cq_db_def io_sq_db_def assms(1) flip: assms(2))
  moreover have "unat (io_sq_db admin_sq_db dstrd k - admin_sq_db) = (2 * k + 2) * unat stride"
    if "k \<le> i + 1" for k
    using sq [OF that] by (simp add: io_sq_db_def word_nat flip: assms(2))
  ultimately show ?thesis by (simp add: algebra_simps)
qed

theorem io_cq_doorbell_aliases_witness:
  "io_cq_db 0x1004 0 0 = io_sq_db 0x1000 0 1"
  using io_cq_doorbell_aliases [of "0x1004" "0x1000" 4 0 0] by simp

end
