(* ===== verification/Ownership.thy ===== *)
theory Ownership
  imports Io_Queues
begin

section \<open>What the admin queue and its I/O queue pairs own (kernel/nvme/admin.c)\<close>

text \<open>
  The frees that \<open>admin_clean\<close> has to make: for the rings and tables of the admin queue, and for every
  pair that is marked in use. Creating and deleting pairs keeps the log of kernel calls in step with the marks.
\<close>

text \<open>The addresses of the arrays beside their contents.\<close>

record ptrs =
  p_cq_mark :: addr
  p_sq_mark :: addr
  p_cid :: addr
  p_use_mark :: addr
  p_qp_list :: addr
  p_sq_dmas :: addr
  p_cq_dmas :: addr

definition ring_frees :: "aqp \<Rightarrow> ptrs \<Rightarrow> calls" where
  "ring_frees a p =
     [DmaFree (q_es (a_sq a) * ucast (q_qs (a_sq a))) (q_addr (a_sq a)) (a_sq_dma a),
      DmaFree (q_es (a_cq a) * ucast (q_qs (a_cq a))) (q_addr (a_cq a)) (a_cq_dma a),
      Kfree (p_cq_mark p), Kfree (p_sq_mark p), Kfree (p_cid p)]"

definition table_frees :: "ptrs \<Rightarrow> calls" where
  "table_frees p = [Kfree (p_use_mark p), Kfree (p_qp_list p), Kfree (p_sq_dmas p), Kfree (p_cq_dmas p)]"

definition pair_frees :: "'d host \<Rightarrow> nat \<Rightarrow> calls" where
  "pair_frees h i =
     (let p = a_io_qp_list (h_aqp h) ! i; qp = the (h_qps h p) in
      [DmaFree (ucast (q_qs (qp_cq qp)) * q_es (qp_cq qp)) (q_addr (qp_cq qp)) (a_cq_dma_addrs (h_aqp h) ! i),
       DmaFree (ucast (q_qs (qp_sq qp)) * q_es (qp_sq qp)) (q_addr (qp_sq qp)) (a_sq_dma_addrs (h_aqp h) ! i),
       Kfree p])"

definition marked :: "aqp \<Rightarrow> nat set" where
  "marked a = {i. i < unat (a_supported a) \<and> a_use_mark a ! i \<noteq> 0}"

definition pairs_owned :: "'d host \<Rightarrow> bool" where
  "pairs_owned h \<longleftrightarrow> pair_tables (h_aqp h)
     \<and> (\<forall>i \<in> marked (h_aqp h). a_io_qp_list (h_aqp h) ! i \<noteq> NULL \<and> h_qps h (a_io_qp_list (h_aqp h) ! i) \<noteq> None)
     \<and> inj_on (\<lambda>i. a_io_qp_list (h_aqp h) ! i) (marked (h_aqp h))
     \<and> card (marked (h_aqp h)) \<le> unat (a_used (h_aqp h))
     \<and> unat (a_used (h_aqp h)) \<le> unat (a_supported (h_aqp h))"

definition ptrs_ok :: "ptrs \<Rightarrow> bool" where
  "ptrs_ok p \<longleftrightarrow> NULL \<notin> {p_cq_mark p, p_sq_mark p, p_cid p, p_use_mark p, p_qp_list p, p_sq_dmas p, p_cq_dmas p}"

definition admin_owned :: "kcall multiset \<Rightarrow> ptrs \<Rightarrow> 'd host \<Rightarrow> bool" where
  "admin_owned R p h \<longleftrightarrow> pairs_owned h \<and> ptrs_ok p
     \<and> holds (h_calls h) = Some (R + mset (ring_frees (h_aqp h) p) + mset (table_frees p)
         + (\<Sum>i \<in> marked (h_aqp h). mset (pair_frees h i)))"

lemma finite_marked [simp]: "finite (marked a)"
  by (simp add: marked_def)

lemma ring_frees_cong: "ring_alloc a' = ring_alloc a \<Longrightarrow> ring_frees a' p = ring_frees a p"
  by (simp add: ring_alloc_def ring_frees_def)

text \<open>Marking and unmarking a pair.\<close>

lemma marked_insert:
  assumes "a_use_mark a' = (a_use_mark a)[i := 1]" and "a_supported a' = a_supported a"
    and "i < unat (a_supported a)" and "length (a_use_mark a) = unat (a_supported a)"
  shows "marked a' = insert i (marked a)"
  using assms by (auto simp: marked_def nth_list_update)

lemma marked_remove:
  assumes "a_use_mark a' = (a_use_mark a)[i := 0]" and "a_supported a' = a_supported a"
    and "length (a_use_mark a) = unat (a_supported a)"
  shows "marked a' = marked a - {i}"
proof -
  have "(a_use_mark a)[i := 0] ! x = (if x = i then 0 else a_use_mark a ! x)" if "x < unat (a_supported a)" for x
    using that assms(3) by (simp add: nth_list_update)
  then show ?thesis using assms(1,2) by (auto simp: marked_def split: if_splits)
qed

lemma first_unused_exists:
  assumes "pairs_owned h" and "a_used (h_aqp h) \<noteq> a_supported (h_aqp h)"
  obtains i where "first_unused (h_aqp h) i"
proof -
  let ?a = "h_aqp h"
  have "unat (a_used ?a) \<noteq> unat (a_supported ?a)" using assms(2) by (metis unsigned_word_eqI)
  then have "card (marked ?a) < card {..<unat (a_supported ?a)}"
    using assms(1) by (simp add: pairs_owned_def)
  then have "\<not> {..<unat (a_supported ?a)} \<subseteq> marked ?a" by (meson card_mono finite_marked not_less)
  then obtain i where i: "i < unat (a_supported ?a)" "a_use_mark ?a ! i = 0" by (auto simp: marked_def)
  define k where "k = (LEAST i. i < unat (a_supported ?a) \<and> a_use_mark ?a ! i = 0)"
  have "k < unat (a_supported ?a) \<and> a_use_mark ?a ! k = 0"
    unfolding k_def using i by (metis (mono_tags, lifting) LeastI)
  moreover have "a_use_mark ?a ! j \<noteq> 0" if "j < k" for j
    using that calculation not_less_Least [of j] unfolding k_def [symmetric]
    by (metis (mono_tags, lifting) k_def less_trans not_less_Least)
  ultimately show thesis by (intro that [of k]) (simp add: first_unused_def)
qed

text \<open>A pair more and a pair less.\<close>

lemma pairs_owned_insert:
  assumes po: "pairs_owned h" and i: "i < unat (a_supported (h_aqp h))" "i \<notin> marked (h_aqp h)"
    and q: "q \<noteq> NULL" "q \<notin> (\<lambda>i. a_io_qp_list (h_aqp h) ! i) ` marked (h_aqp h)" "h_qps h' = (h_qps h)(q \<mapsto> qp)"
    and a: "a_io_qp_list (h_aqp h') = (a_io_qp_list (h_aqp h))[i := q]" "marked (h_aqp h') = insert i (marked (h_aqp h))"
      "a_supported (h_aqp h') = a_supported (h_aqp h)" "a_used (h_aqp h') = a_used (h_aqp h) + 1" "pair_tables (h_aqp h')"
    and used: "a_used (h_aqp h) \<noteq> a_supported (h_aqp h)"
  shows "pairs_owned h'"
  unfolding pairs_owned_def a(2)
proof (intro conjI)
  let ?a = "h_aqp h"
  have "unat (a_used ?a) < unat (a_supported ?a)"
    using po used unfolding pairs_owned_def by (metis le_neq_implies_less unsigned_word_eqI)
  then have u: "unat (a_used (h_aqp h')) = unat (a_used ?a) + 1" "unat (a_used ?a) < unat (a_supported ?a)"
    using unat_u32 [of "a_supported ?a"] by (simp_all add: a(4) unat_word_ariths)
  have new: "a_io_qp_list (h_aqp h') ! i = q" using po i(1) by (simp add: a(1) pairs_owned_def pair_tables_def)
  have old: "a_io_qp_list (h_aqp h') ! j = a_io_qp_list ?a ! j" "a_io_qp_list ?a ! j \<noteq> q" if "j \<in> marked ?a" for j
  proof -
    have "j \<noteq> i" using that i(2) by auto
    then show "a_io_qp_list (h_aqp h') ! j = a_io_qp_list ?a ! j" by (simp add: a(1))
    show "a_io_qp_list ?a ! j \<noteq> q" using that q(2) by auto
  qed
  show "pair_tables (h_aqp h')" by (rule a(5))
  show "\<forall>j \<in> insert i (marked ?a). a_io_qp_list (h_aqp h') ! j \<noteq> NULL \<and> h_qps h' (a_io_qp_list (h_aqp h') ! j) \<noteq> None"
    using po old new q(1,3) by (auto simp: pairs_owned_def)
  show "inj_on (\<lambda>j. a_io_qp_list (h_aqp h') ! j) (insert i (marked ?a))"
    using po old(2) by (auto simp: pairs_owned_def new old(1) inj_on_def)
  show "card (insert i (marked ?a)) \<le> unat (a_used (h_aqp h'))" "unat (a_used (h_aqp h')) \<le> unat (a_supported (h_aqp h'))"
    using po i(2) u by (simp_all add: pairs_owned_def a(3))
qed

lemma pairs_owned_remove:
  assumes po: "pairs_owned h" and i: "i \<in> marked (h_aqp h)" and q: "h_qps h' = (h_qps h)(a_io_qp_list (h_aqp h) ! i := None)"
    and a: "a_io_qp_list (h_aqp h') = a_io_qp_list (h_aqp h)" "marked (h_aqp h') = marked (h_aqp h) - {i}"
      "a_supported (h_aqp h') = a_supported (h_aqp h)" "a_used (h_aqp h') = a_used (h_aqp h)" "pair_tables (h_aqp h')"
  shows "pairs_owned h'"
  unfolding pairs_owned_def a(2)
proof (intro conjI)
  let ?a = "h_aqp h"
  have "a_io_qp_list ?a ! j \<noteq> a_io_qp_list ?a ! i" if "j \<in> marked ?a - {i}" for j
    using po that i by (auto simp: pairs_owned_def inj_on_def)
  then show "\<forall>j \<in> marked ?a - {i}. a_io_qp_list (h_aqp h') ! j \<noteq> NULL \<and> h_qps h' (a_io_qp_list (h_aqp h') ! j) \<noteq> None"
    using po by (auto simp: pairs_owned_def a(1) q)
  show "pair_tables (h_aqp h')" by (rule a(5))
  show "inj_on (\<lambda>j. a_io_qp_list (h_aqp h') ! j) (marked ?a - {i})"
    using po by (auto simp: pairs_owned_def a(1) intro: inj_on_diff)
  have "card (marked ?a - {i}) \<le> card (marked ?a)" by (rule card_mono) auto
  then show "card (marked ?a - {i}) \<le> unat (a_used (h_aqp h'))"
    "unat (a_used (h_aqp h')) \<le> unat (a_supported (h_aqp h'))"
    using po by (simp_all add: pairs_owned_def a(3,4))
qed

lemma own_create:
  assumes r: "host_ready w I h" and g: "wf_cmd (w_cmd w)" and mem: "mem_plenty (w_mem w)"
    and o: "admin_owned R p h" and c: "admin_create_io_queue_pair w h = Some (Inr (h', q))"
    and fresh: "q \<notin> (\<lambda>i. a_io_qp_list (h_aqp h) ! i) ` marked (h_aqp h)"
  shows "host_ready w I h' \<and> admin_owned R p h'"
proof (cases "a_used (h_aqp h) = a_supported (h_aqp h)")
  case True
  have "\<not> a_lock (h_aqp h)" using r idle_facts(3) by (simp add: host_ready_def)
  with True c have "h' = h" by (simp add: admin_create_io_queue_pair_def claim_pair_full)
  with r o show ?thesis by simp
next
  case used: False
  let ?a = "h_aqp h" and ?b = "h_aqp h'"
  have po: "pairs_owned h" using o by (simp add: admin_owned_def)
  have t: "pair_tables ?a" using po by (simp add: pairs_owned_def)
  obtain i where i: "first_unused ?a i" using first_unused_exists [OF po used] .
  let ?qs = "io_queue_size (h_max_queue_size h)"
  obtain h1 p1 qp v1 d1 v2 d2 where n: "p1 \<noteq> NULL" "v1 \<noteq> NULL" "v2 \<noteq> NULL" and
    c1: "admin_create_io_queue_pair w h = Some (Inr (h1, p1))" "host_ready w I h1"
    "h_qps h1 = (h_qps h)(p1 \<mapsto> qp)" and c2: "q_qs (qp_cq qp) = ?qs" "q_es (qp_cq qp) = q_es (a_cq ?a)"
    "q_addr (qp_cq qp) = v1" "q_qs (qp_sq qp) = ?qs" "q_es (qp_sq qp) = q_es (a_sq ?a)"
    "q_addr (qp_sq qp) = v2" "h_calls h1 = h_calls h @ [Kmalloc sizeof_queue_pair p1,
       DmaAlloc (ucast ?qs * q_es (a_cq ?a)) v1 d1, DmaAlloc (ucast ?qs * q_es (a_sq ?a)) v2 d2]"
    "a_used (h_aqp h1) = a_used ?a + 1" "a_supported (h_aqp h1) = a_supported ?a"
    "a_use_mark (h_aqp h1) = (a_use_mark ?a)[i := 1]" "a_io_qp_list (h_aqp h1) = (a_io_qp_list ?a)[i := p1]"
    "a_cq_dma_addrs (h_aqp h1) = (a_cq_dma_addrs ?a)[i := d1]"
    "a_sq_dma_addrs (h_aqp h1) = (a_sq_dma_addrs ?a)[i := d2]" "ring_alloc (h_aqp h1) = ring_alloc ?a"
    by (rule create_ends [OF r g t used i mem]) simp
  have eq: "h1 = h'" "p1 = q" using c c1(1) by simp_all
  note c2 = c2 [unfolded eq] and n = n [unfolded eq]
  have lt: "i < unat (a_supported ?a)" "i \<notin> marked ?a" using i by (simp_all add: first_unused_def marked_def)
  have len: "i < length (a_io_qp_list ?a)" "i < length (a_cq_dma_addrs ?a)" "i < length (a_sq_dma_addrs ?a)"
    using t lt(1) by (simp_all add: pair_tables_def)
  have m: "marked ?b = insert i (marked ?a)"
    using c2(8,9,10) lt(1) t by (intro marked_insert) (simp_all add: pair_tables_def)
  have old: "a_io_qp_list ?b ! j = a_io_qp_list ?a ! j" "a_io_qp_list ?a ! j \<noteq> q" "pair_frees h' j = pair_frees h j"
    if "j \<in> marked ?a" for j
  proof -
    have j: "j \<noteq> i" using that lt(2) by auto
    then show "a_io_qp_list ?b ! j = a_io_qp_list ?a ! j" "a_io_qp_list ?a ! j \<noteq> q"
      using fresh c2(11) j that by auto
    then show "pair_frees h' j = pair_frees h j"
      using j c1(3) by (simp add: pair_frees_def c2 eq)
  qed
  have new: "a_io_qp_list ?b ! i = q" "mset (pair_frees h' i) =
      {#Kfree q, DmaFree (ucast ?qs * q_es (a_cq ?a)) v1 d1, DmaFree (ucast ?qs * q_es (a_sq ?a)) v2 d2#}"
    using len c1(3) by (simp_all add: pair_frees_def c2 eq)
  have "pair_tables ?b" using t by (simp add: pair_tables_def c2)
  then have "pairs_owned h'"
    using pairs_owned_insert [OF po lt n(1) fresh c1(3) [unfolded eq] c2(11) m c2(9,8)] used by simp
  moreover have "(\<Sum>j \<in> marked ?b. mset (pair_frees h' j)) =
      mset (pair_frees h' i) + (\<Sum>j \<in> marked ?a. mset (pair_frees h j))"
    using lt(2) old(3) by (simp add: m)
  ultimately show ?thesis
    using c1(2) eq o n ring_frees_cong [OF c2(14)]
    by (simp add: admin_owned_def c2(7) new(2) holds_append)
qed

lemma own_delete:
  assumes r: "host_ready w I h" and g: "wf_cmd (w_cmd w)" and o: "admin_owned R p h"
    and i: "i < unat (a_supported (h_aqp h))"
  obtains h' where "admin_delete_io_queue_pair w i h = Some (Inr h')" "host_ready w I h'" "admin_owned R p h'"
    "a_supported (h_aqp h') = a_supported (h_aqp h)" "marked (h_aqp h') = marked (h_aqp h) - {i}"
proof (cases "i \<in> marked (h_aqp h)")
  case False
  let ?a = "h_aqp h"
  have t: "pair_tables ?a" using o by (simp add: admin_owned_def pairs_owned_def)
  have "\<not> a_lock ?a" using r idle_facts(3) by (simp add: host_ready_def)
  then have "admin_delete_io_queue_pair w i h = Some (Inr h)"
    using False t i by (intro delete_unmarked) (simp_all add: marked_def)
  with r o False show thesis by (intro that [of h]) auto
next
  case True
  let ?a = "h_aqp h" and ?p = "a_io_qp_list (h_aqp h) ! i"
  have po: "pairs_owned h" using o by (simp add: admin_owned_def)
  have t: "pair_tables ?a" using po by (simp add: pairs_owned_def)
  obtain qp where qp: "h_qps h ?p = Some qp" using po True by (auto simp: pairs_owned_def)
  have mk: "a_use_mark ?a ! i \<noteq> 0" using True by (simp add: marked_def)
  obtain h' where d: "admin_delete_io_queue_pair w i h = Some (Inr h')" "host_ready w I h'"
    "h_qps h' = (h_qps h)(?p := None)" and d2: "h_calls h' = h_calls h @ pair_frees h i"
    "a_used (h_aqp h') = a_used ?a" "a_supported (h_aqp h') = a_supported ?a"
    "a_use_mark (h_aqp h') = (a_use_mark ?a)[i := 0]" "a_io_qp_list (h_aqp h') = a_io_qp_list ?a"
    "a_cq_dma_addrs (h_aqp h') = a_cq_dma_addrs ?a" "a_sq_dma_addrs (h_aqp h') = a_sq_dma_addrs ?a"
    "ring_alloc (h_aqp h') = ring_alloc ?a"
    by (rule delete_rest_runs [OF r g t i refl qp])
      (use delete_marked [OF r t i mk] in \<open>simp add: pair_frees_def qp Let_def\<close>)
  have m: "marked (h_aqp h') = marked ?a - {i}"
    using t by (intro marked_remove) (simp_all add: d2 pair_tables_def)
  have other: "a_io_qp_list ?a ! j \<noteq> ?p" if "j \<in> marked ?a - {i}" for j
    using po that True by (auto simp: pairs_owned_def inj_on_def)
  have "pair_tables (h_aqp h')" using t by (simp add: pair_tables_def d2)
  then have "pairs_owned h'"
    by (rule pairs_owned_remove [OF po True d(3) d2(5) m d2(3,2)])
  moreover have "pair_frees h' j = pair_frees h j" if "j \<in> marked ?a - {i}" for j
    using other [OF that] by (simp add: pair_frees_def d2 d(3))
  then have "(\<Sum>j \<in> marked (h_aqp h'). mset (pair_frees h' j)) = (\<Sum>j \<in> marked ?a - {i}. mset (pair_frees h j))"
    unfolding m by (intro sum.cong) simp_all
  moreover have sum: "(\<Sum>j \<in> marked ?a. mset (pair_frees h j)) =
      mset (pair_frees h i) + (\<Sum>j \<in> marked ?a - {i}. mset (pair_frees h j))"
    using True by (simp add: sum.remove)
  moreover have "holds (h_calls h') = Some (R + mset (ring_frees ?a p) + mset (table_frees p)
      + (\<Sum>j \<in> marked ?a - {i}. mset (pair_frees h j)))"
  proof -
    have "?p \<noteq> NULL" using po True by (auto simp: pairs_owned_def)
    then have "\<forall>c \<in> set (pair_frees h i). releases c" by (auto simp: pair_frees_def Let_def)
    moreover have "holds (h_calls h) = Some (R + mset (ring_frees ?a p) + mset (table_frees p)
        + (\<Sum>j \<in> marked ?a - {i}. mset (pair_frees h j)) + mset (pair_frees h i))"
      using o sum by (simp add: admin_owned_def ac_simps)
    ultimately show ?thesis unfolding d2(1) by (intro holds_released)
  qed
  ultimately have "admin_owned R p h'"
    using o ring_frees_cong [OF d2(8)] by (simp add: admin_owned_def)
  with d(1,2) d2(3) m show thesis by (intro that [of h'])
qed

text \<open>
  Pairs come and go. The memory a creation gets is not a pair that is in use; that is all that is
  asked of the allocator beyond its not running out.
\<close>

inductive pair_step :: "'d world \<Rightarrow> 'd host \<Rightarrow> 'd host \<Rightarrow> bool" for w where
  create: "admin_create_io_queue_pair w h = Some (Inr (h', q)) \<Longrightarrow>
    q \<notin> (\<lambda>i. a_io_qp_list (h_aqp h) ! i) ` marked (h_aqp h) \<Longrightarrow> pair_step w h h'"
| delete: "i < unat (a_supported (h_aqp h)) \<Longrightarrow> admin_delete_io_queue_pair w i h = Some (Inr h') \<Longrightarrow>
    pair_step w h h'"

abbreviation pair_steps :: "'d world \<Rightarrow> 'd host \<Rightarrow> 'd host \<Rightarrow> bool" where
  "pair_steps w \<equiv> (pair_step w)\<^sup>*\<^sup>*"

lemma own_step:
  assumes "pair_step w h h'" and "host_ready w I h" and "wf_cmd (w_cmd w)" and "mem_plenty (w_mem w)"
    and "admin_owned R p h"
  shows "host_ready w I h' \<and> admin_owned R p h'"
  using assms(1)
proof cases
  case (create q)
  with own_create [OF assms(2-5)] show ?thesis by blast
next
  case (delete i)
  with own_delete [OF assms(2,3,5) delete(1)] show ?thesis by auto
qed

interpretation own: step_invariant "pair_step w"
  "\<lambda>h. host_ready w I h \<and> wf_cmd (w_cmd w) \<and> mem_plenty (w_mem w) \<and> admin_owned R p h" for w :: "'d world" and I R p
  by unfold_locales (use own_step in blast)

end
