(* ===== verification/Intrusive_List.thy ===== *)
theory Intrusive_List
  imports Prelude
begin

section \<open>The doubly linked list (kernel/nvme/list.h, list.c)\<close>

text \<open>
  A list is a \<open>struct list\<close> whose member \<open>head\<close>, at offset 0, is a sentinel node: the address of
  the list is the address of its head. Nodes live in a heap of \<open>list_node\<close>s, so aliasing is the
  code's: a node can be reached through its neighbours and through its own address. Each list has
  a spin lock; taking a lock that is held never returns and is the fault \<open>Deadlock\<close>.
\<close>

subsection \<open>State and operations\<close>

record list_node =
  ln_list :: addr
  ln_next :: addr
  ln_prev :: addr

record lheap =
  nodes :: "addr \<rightharpoonup> list_node"
  locks :: "addr \<Rightarrow> bool"

definition node_at :: "lheap \<Rightarrow> addr \<Rightarrow> list_node res" where
  "node_at s p =
     (if p = NULL then Inl NullDeref
      else case nodes s p of None \<Rightarrow> Inl (BadAccess p) | Some n \<Rightarrow> Inr n)"

definition put_node :: "lheap \<Rightarrow> addr \<Rightarrow> list_node \<Rightarrow> lheap" where
  "put_node s p n = s\<lparr>nodes := (nodes s)(p \<mapsto> n)\<rparr>"

definition set_list :: "lheap \<Rightarrow> addr \<Rightarrow> addr \<Rightarrow> lheap res" where
  "set_list s p v = bindE (node_at s p) (\<lambda>n. Inr (put_node s p (n\<lparr>ln_list := v\<rparr>)))"

definition set_next :: "lheap \<Rightarrow> addr \<Rightarrow> addr \<Rightarrow> lheap res" where
  "set_next s p v = bindE (node_at s p) (\<lambda>n. Inr (put_node s p (n\<lparr>ln_next := v\<rparr>)))"

definition set_prev :: "lheap \<Rightarrow> addr \<Rightarrow> addr \<Rightarrow> lheap res" where
  "set_prev s p v = bindE (node_at s p) (\<lambda>n. Inr (put_node s p (n\<lparr>ln_prev := v\<rparr>)))"

definition list_lock :: "lheap \<Rightarrow> addr \<Rightarrow> lheap res" where
  "list_lock s l =
     (if l = NULL then Inl NullDeref
      else if locks s l then Inl Deadlock
      else Inr (s\<lparr>locks := (locks s)(l := True)\<rparr>))"

definition list_unlock :: "lheap \<Rightarrow> addr \<Rightarrow> lheap" where
  "list_unlock s l = s\<lparr>locks := (locks s)(l := False)\<rparr>"

definition list_node_init :: "lheap \<Rightarrow> addr \<Rightarrow> lheap res" where
  "list_node_init s e =
     bindE (set_list s e NULL) (\<lambda>s1.
     bindE (set_next s1 e NULL) (\<lambda>s2.
     set_prev s2 e NULL))"

text \<open>\<open>&e->list->head\<close> computes an address and reads nothing through \<open>e->list\<close>.\<close>

definition list_next :: "lheap \<Rightarrow> addr \<Rightarrow> addr res" where
  "list_next s e =
     bindE (node_at s e) (\<lambda>n.
       if ln_next n \<noteq> ln_list n then Inr (ln_next n) else Inr NULL)"

definition list_init :: "lheap \<Rightarrow> addr \<Rightarrow> lheap res" where
  "list_init s l =
     bindE (set_list s l l) (\<lambda>s1.
     bindE (set_prev s1 l l) (\<lambda>s2.
     bindE (set_next s2 l l) (\<lambda>s3.
     Inr (list_unlock s3 l))))"

definition list_insert :: "lheap \<Rightarrow> addr \<Rightarrow> addr \<Rightarrow> lheap res" where
  "list_insert s l e =
     bindE (list_lock s l) (\<lambda>s0.
     bindE (node_at s0 l) (\<lambda>h.
     let last = ln_prev h in
     bindE (set_next s0 last e) (\<lambda>s1.
     bindE (set_list s1 e l) (\<lambda>s2.
     bindE (set_prev s2 e last) (\<lambda>s3.
     bindE (set_next s3 e l) (\<lambda>s4.
     bindE (set_prev s4 l e) (\<lambda>s5.
     Inr (list_unlock s5 l))))))))"

definition list_remove :: "lheap \<Rightarrow> addr \<Rightarrow> lheap res" where
  "list_remove s e =
     (if e = NULL then Inr s
      else bindE (node_at s e) (\<lambda>n.
        if ln_list n \<noteq> NULL \<and> e \<noteq> ln_list n then
          bindE (list_lock s (ln_list n)) (\<lambda>s0.
          bindE (set_next s0 (ln_prev n) (ln_next n)) (\<lambda>s1.
          bindE (node_at s1 e) (\<lambda>n1.
          bindE (set_prev s1 (ln_next n1) (ln_prev n1)) (\<lambda>s2.
          bindE (node_at s2 e) (\<lambda>n2.
          let s3 = list_unlock s2 (ln_list n2) in
          bindE (set_list s3 e NULL) (\<lambda>s4.
          bindE (set_next s4 e NULL) (\<lambda>s5.
          set_prev s5 e NULL)))))))
        else Inr s))"

text \<open>
  The loop that every search of the driver runs over a list: follow \<open>list_next\<close> from the first
  element until the test succeeds or the next element is NULL. The result \<open>None\<close> is a loop that
  never ends.
\<close>

partial_function (option) list_scan ::
  "(addr \<Rightarrow> addr res) \<Rightarrow> (addr \<Rightarrow> bool res) \<Rightarrow> addr \<Rightarrow> addr res option" where
  "list_scan nxt test e =
     (if e = NULL then Some (Inr NULL)
      else case test e of
        Inl f \<Rightarrow> Some (Inl f)
      | Inr found \<Rightarrow>
          if found then Some (Inr e)
          else case nxt e of
            Inl f \<Rightarrow> Some (Inl f)
          | Inr e' \<Rightarrow> list_scan nxt test e')"

definition list_find ::
  "(addr \<Rightarrow> addr res) \<Rightarrow> (addr \<Rightarrow> bool res) \<Rightarrow> addr \<Rightarrow> addr res option" where
  "list_find nxt test l =
     (case nxt l of Inl f \<Rightarrow> Some (Inl f) | Inr e \<Rightarrow> list_scan nxt test e)"

lemmas list_ops =
  node_at_def put_node_def set_list_def set_next_def set_prev_def list_lock_def list_unlock_def

subsection \<open>The well-formed lists\<close>

text \<open>
  \<open>chain h p xs q\<close>: from \<open>p\<close> the next pointers run through \<open>xs\<close> to \<open>q\<close>, and the prev pointers
  run back. A list at \<open>l\<close> holding \<open>xs\<close> is a chain from \<open>l\<close> back to \<open>l\<close> through distinct
  non-NULL nodes that all point to \<open>l\<close> as their list, with the list's lock free.
\<close>

definition nx :: "(addr \<rightharpoonup> list_node) \<Rightarrow> addr \<Rightarrow> addr" where
  "nx h p = (case h p of None \<Rightarrow> NULL | Some n \<Rightarrow> ln_next n)"

definition pv :: "(addr \<rightharpoonup> list_node) \<Rightarrow> addr \<Rightarrow> addr" where
  "pv h p = (case h p of None \<Rightarrow> NULL | Some n \<Rightarrow> ln_prev n)"

fun chain :: "(addr \<rightharpoonup> list_node) \<Rightarrow> addr \<Rightarrow> addr list \<Rightarrow> addr \<Rightarrow> bool" where
  "chain h p [] q \<longleftrightarrow> nx h p = q \<and> pv h q = p"
| "chain h p (x # xs) q \<longleftrightarrow> nx h p = x \<and> pv h x = p \<and> chain h x xs q"

definition owned_by :: "lheap \<Rightarrow> addr \<Rightarrow> addr \<Rightarrow> bool" where
  "owned_by s l x \<longleftrightarrow> (\<exists>n. nodes s x = Some n \<and> ln_list n = l)"

definition dll :: "lheap \<Rightarrow> addr \<Rightarrow> addr list \<Rightarrow> bool" where
  "dll s l xs \<longleftrightarrow>
     distinct (l # xs) \<and> NULL \<notin> set (l # xs) \<and> \<not> locks s l \<and>
     list_all (owned_by s l) (l # xs) \<and> chain (nodes s) l xs l"

lemma chain_cong:
  assumes "\<And>x. x \<in> set (p # xs) \<Longrightarrow> nx h' x = nx h x"
    and "\<And>x. x \<in> set (xs @ [q]) \<Longrightarrow> pv h' x = pv h x"
  shows "chain h' p xs q = chain h p xs q"
  using assms by (induction xs arbitrary: p) auto

lemma chain_append: "chain h p (xs @ x # ys) q \<longleftrightarrow> chain h p xs x \<and> chain h x ys q"
  by (induction xs arbitrary: p) auto

lemma chain_last: "chain h p xs q \<Longrightarrow> pv h q = last (p # xs)"
  by (induction xs arbitrary: p) auto

lemma chain_first: "chain h p xs q \<Longrightarrow> nx h p = hd (xs @ [q])"
  by (cases xs) auto

text \<open>
  Closing a chain on a new end, and cutting a node out of one: the two pointer updates that
  insertion and removal make, as facts about any heap that differs from the old one there.
\<close>

lemma chain_retarget:
  assumes "chain h p xs q" and "distinct (p # xs)" and "q' \<notin> set xs"
    and "nx h' (last (p # xs)) = q'" and "pv h' q' = last (p # xs)"
    and "\<And>x. x \<in> set (p # xs) \<Longrightarrow> x \<noteq> last (p # xs) \<Longrightarrow> nx h' x = nx h x"
    and "\<And>x. x \<in> set xs \<Longrightarrow> pv h' x = pv h x"
  shows "chain h' p xs q'"
  using assms
proof (induction xs arbitrary: p)
  case Nil
  then show ?case by simp
next
  case (Cons x xs)
  have "nx h' p = nx h p"
    using Cons.prems(2) by (intro Cons.prems(6)) (auto split: if_splits)
  moreover have "chain h' x xs q'"
    using Cons.prems by (intro Cons.IH) auto
  ultimately show ?case
    using Cons.prems by auto
qed

lemma chain_unlink:
  assumes "chain h p (as @ x # bs) q"
    and "distinct (p # as @ x # bs)" and "q \<notin> set (as @ x # bs)"
    and "nx h' (pv h x) = nx h x" and "pv h' (nx h x) = pv h x"
    and "\<And>y. y \<noteq> pv h x \<Longrightarrow> y \<noteq> x \<Longrightarrow> nx h' y = nx h y"
    and "\<And>y. y \<noteq> nx h x \<Longrightarrow> y \<noteq> x \<Longrightarrow> pv h' y = pv h y"
  shows "chain h' p (as @ bs) q"
proof -
  from assms(1) have ax: "chain h p as x" and xb: "chain h x bs q"
    by (simp_all add: chain_append)
  have a: "pv h x = last (p # as)" and b: "nx h x = hd (bs @ [q])"
    using chain_last [OF ax] chain_first [OF xb] by auto
  have la: "last (p # as) \<in> set (p # as)"
    by (rule last_in_set) simp
  have new_end: "nx h x \<notin> set as"
    using b assms(2,3) by (cases bs) auto
  have left: "chain h' p as (nx h x)"
  proof (rule chain_retarget [OF ax _ new_end])
    show "distinct (p # as)" using assms(2) by auto
    show "nx h' (last (p # as)) = nx h x" "pv h' (nx h x) = last (p # as)"
      using assms(4,5) a by simp_all
    show "nx h' y = nx h y" if "y \<in> set (p # as)" "y \<noteq> last (p # as)" for y
      using that assms(2) a by (intro assms(6)) auto
    show "pv h' y = pv h y" if "y \<in> set as" for y
      using that assms(2) new_end by (intro assms(7)) auto
  qed
  show ?thesis
  proof (cases bs)
    case Nil
    with left b show ?thesis by simp
  next
    case (Cons y ys)
    have "chain h y ys q" using xb Cons by simp
    moreover have "nx h' z = nx h z" if "z \<in> set (y # ys)" for z
      using that assms(2) la a Cons by (intro assms(6)) (auto simp del: last.simps)
    moreover have "pv h' z = pv h z" if "z \<in> set (ys @ [q])" for z
      using that assms(2,3) b Cons by (intro assms(7)) auto
    ultimately have "chain h' y ys q" using chain_cong by blast
    with left b Cons show ?thesis by (simp add: chain_append)
  qed
qed

subsection \<open>The pointer writes\<close>

text \<open>
  On a valid node each write succeeds, and changes one of the three fields of one node.
\<close>

definition valid :: "lheap \<Rightarrow> addr \<Rightarrow> bool" where
  "valid s p \<longleftrightarrow> p \<noteq> NULL \<and> nodes s p \<noteq> None"

definition ls :: "(addr \<rightharpoonup> list_node) \<Rightarrow> addr \<Rightarrow> addr" where
  "ls h p = (case h p of None \<Rightarrow> NULL | Some n \<Rightarrow> ln_list n)"

definition upd_list :: "lheap \<Rightarrow> addr \<Rightarrow> addr \<Rightarrow> lheap" where
  "upd_list s p v = put_node s p ((the (nodes s p))\<lparr>ln_list := v\<rparr>)"

definition upd_next :: "lheap \<Rightarrow> addr \<Rightarrow> addr \<Rightarrow> lheap" where
  "upd_next s p v = put_node s p ((the (nodes s p))\<lparr>ln_next := v\<rparr>)"

definition upd_prev :: "lheap \<Rightarrow> addr \<Rightarrow> addr \<Rightarrow> lheap" where
  "upd_prev s p v = put_node s p ((the (nodes s p))\<lparr>ln_prev := v\<rparr>)"

named_theorems node_simps

lemma set_upd [node_simps]:
  assumes "valid s p"
  shows "set_list s p v = Inr (upd_list s p v)"
    and "set_next s p v = Inr (upd_next s p v)"
    and "set_prev s p v = Inr (upd_prev s p v)"
    and "node_at s p = Inr (the (nodes s p))"
  using assms
  by (auto simp: valid_def node_at_def set_list_def set_next_def set_prev_def
      upd_list_def upd_next_def upd_prev_def)

lemma node_fields [node_simps]:
  assumes "valid s p"
  shows "ln_list (the (nodes s p)) = ls (nodes s) p"
    and "ln_next (the (nodes s p)) = nx (nodes s) p"
    and "ln_prev (the (nodes s p)) = pv (nodes s) p"
  using assms by (auto simp: valid_def ls_def nx_def pv_def)

lemma upd_fields [node_simps]:
  assumes "valid s p"
  shows "nx (nodes (upd_list s p v)) = nx (nodes s)"
    and "nx (nodes (upd_next s p v)) = (nx (nodes s))(p := v)"
    and "nx (nodes (upd_prev s p v)) = nx (nodes s)"
    and "pv (nodes (upd_list s p v)) = pv (nodes s)"
    and "pv (nodes (upd_next s p v)) = pv (nodes s)"
    and "pv (nodes (upd_prev s p v)) = (pv (nodes s))(p := v)"
    and "ls (nodes (upd_list s p v)) = (ls (nodes s))(p := v)"
    and "ls (nodes (upd_next s p v)) = ls (nodes s)"
    and "ls (nodes (upd_prev s p v)) = ls (nodes s)"
  using assms
  by (auto simp: valid_def fun_eq_iff nx_def pv_def ls_def upd_list_def upd_next_def upd_prev_def
      put_node_def)

lemma upd_valid [node_simps]:
  assumes "valid s p"
  shows "valid (upd_list s p v) q = valid s q"
    and "valid (upd_next s p v) q = valid s q"
    and "valid (upd_prev s p v) q = valid s q"
  using assms by (auto simp: valid_def upd_list_def upd_next_def upd_prev_def put_node_def)

lemma upd_locks [node_simps]:
  "locks (upd_list s p v) = locks s"
  "locks (upd_next s p v) = locks s"
  "locks (upd_prev s p v) = locks s"
  by (simp_all add: upd_list_def upd_next_def upd_prev_def put_node_def)

lemma upd_other [node_simps]:
  assumes "q \<noteq> p"
  shows "nodes (upd_list s p v) q = nodes s q"
    and "nodes (upd_next s p v) q = nodes s q"
    and "nodes (upd_prev s p v) q = nodes s q"
  using assms by (simp_all add: upd_list_def upd_next_def upd_prev_def put_node_def)

lemma lock_frame [node_simps]:
  "nodes (list_unlock s l) = nodes s"
  "valid (list_unlock s l) q = valid s q"
  "locks (list_unlock s l) = (locks s)(l := False)"
  "valid (s\<lparr>locks := k\<rparr>) q = valid s q"
  by (simp_all add: list_unlock_def valid_def)

lemma list_lock_free [node_simps]:
  "l \<noteq> NULL \<Longrightarrow> \<not> locks s l \<Longrightarrow> list_lock s l = Inr (s\<lparr>locks := (locks s)(l := True)\<rparr>)"
  by (simp add: list_lock_def)

lemma dll_alt: "dll s l xs \<longleftrightarrow>
    distinct (l # xs) \<and> \<not> locks s l \<and>
    (\<forall>x \<in> set (l # xs). valid s x \<and> ls (nodes s) x = l) \<and> chain (nodes s) l xs l"
  by (auto simp: dll_def list_all_iff owned_by_def valid_def ls_def split: option.splits)

text \<open>A list depends on its own nodes and its own lock only.\<close>

definition same_list :: "lheap \<Rightarrow> lheap \<Rightarrow> addr list \<Rightarrow> bool" where
  "same_list s s' ps \<longleftrightarrow> (\<forall>p \<in> set ps. nodes s' p = nodes s p \<and> locks s' p = locks s p)"

lemma dll_frame: "dll s l xs \<Longrightarrow> same_list s s' (l # xs) \<Longrightarrow> dll s' l xs"
  unfolding same_list_def dll_alt
  by (subst chain_cong [of l xs "nodes s'" "nodes s" l])
    (auto simp: valid_def ls_def nx_def pv_def)

text \<open>The heap determines the list.\<close>

lemma chain_unique:
  assumes "chain h p xs l" and "chain h p ys l" and "l \<notin> set xs" and "l \<notin> set ys"
  shows "xs = ys"
  using assms
proof (induction xs arbitrary: p ys)
  case Nil
  then show ?case by (cases ys) auto
next
  case (Cons x xs)
  then show ?case by (cases ys) auto
qed

lemma dll_unique: "dll s l xs \<Longrightarrow> dll s l ys \<Longrightarrow> xs = ys"
  unfolding dll_def by (rule chain_unique [of "nodes s" l]) auto

subsection \<open>The operations on well-formed lists\<close>

lemma list_init_dll:
  assumes "valid s l"
  shows "\<exists>s'. list_init s l = Inr s' \<and> dll s' l [] \<and> (\<forall>q. valid s' q = valid s q)"
  using assms by (simp add: list_init_def dll_alt node_simps)

lemma list_insert_dll:
  assumes l: "dll s l xs" and e: "valid s e" "e \<notin> set (l # xs)"
  shows "\<exists>s'. list_insert s l e = Inr s' \<and> dll s' l (xs @ [e]) \<and> (\<forall>q. valid s' q = valid s q)
    \<and> (\<forall>ps. set ps \<inter> set (l # xs @ [e]) = {} \<longrightarrow> same_list s s' ps)"
proof -
  let ?h = "nodes s" and ?a = "last (l # xs)"
  from l have v: "\<And>x. x \<in> set (l # xs) \<Longrightarrow> valid s x \<and> ls ?h x = l"
    and d: "distinct (l # xs)" and k: "\<not> locks s l" and c: "chain ?h l xs l"
    by (auto simp: dll_alt)
  have a: "?a \<in> set (l # xs)"
    by (rule last_in_set) simp
  have pl: "pv ?h l = ?a"
    by (rule chain_last [OF c])
  have l0: "l \<noteq> NULL" using v [of l] by (simp add: valid_def)
  note valids = v [of l, THEN conjunct1, simplified] v [OF a, THEN conjunct1] e(1)
  define s' where "s' = list_unlock
    (upd_prev (upd_next (upd_prev (upd_list (upd_next (s\<lparr>locks := (locks s)(l := True)\<rparr>) ?a e)
      e l) e ?a) e l) l e) l"
  have run: "list_insert s l e = Inr s'"
    using valids l0 k pl by (simp add: list_insert_def s'_def node_simps Let_def del: last.simps)
  have ea: "e \<noteq> ?a" using e a by blast
  have "nx (nodes s') = (nx ?h)(?a := e, e := l)" "pv (nodes s') = (pv ?h)(e := ?a, l := e)"
    and "ls (nodes s') = (ls ?h)(e := l)" and "locks s' = (locks s)(l := False)"
    and val: "\<And>q. valid s' q = valid s q"
    using valids by (simp_all add: s'_def node_simps del: last.simps)
  note f = this
  have "chain (nodes s') l xs e"
    using e d ea by (intro chain_retarget [OF c]) (auto simp: f)
  then have "chain (nodes s') l (xs @ [e]) l"
    using e by (auto simp: chain_append f)
  with v d e have "dll s' l (xs @ [e])"
    by (auto simp: dll_alt val f)
  moreover have "same_list s s' ps" if "set ps \<inter> set (l # xs @ [e]) = {}" for ps
  proof -
    have "q \<noteq> l" "q \<noteq> e" "q \<noteq> ?a" if "q \<in> set ps" for q
      using that \<open>set ps \<inter> _ = {}\<close> a by auto
    then show ?thesis
      unfolding same_list_def s'_def by (simp add: node_simps del: last.simps)
  qed
  ultimately show ?thesis using run val by blast
qed

lemma list_remove_dll:
  assumes l: "dll s l (as @ x # bs)"
  shows "\<exists>s'. list_remove s x = Inr s' \<and> dll s' l (as @ bs) \<and> ls (nodes s') x = NULL
    \<and> (\<forall>q. valid s' q = valid s q)
    \<and> (\<forall>ps. set ps \<inter> set (l # as @ x # bs) = {} \<longrightarrow> same_list s s' ps)"
proof -
  let ?h = "nodes s"
  from l have v: "\<And>y. y \<in> set (l # as @ x # bs) \<Longrightarrow> valid s y \<and> ls ?h y = l"
    and d: "distinct (l # as @ x # bs)" and k: "\<not> locks s l" and c: "chain ?h l (as @ x # bs) l"
    by (auto simp: dll_alt)
  let ?a = "pv ?h x" and ?b = "nx ?h x"
  have "?a = last (l # as)" "?b = hd (bs @ [l])"
    using c chain_last chain_first by (auto simp: chain_append)
  moreover have "last (l # as) \<in> set (l # as)" by (rule last_in_set) simp
  moreover have "hd (bs @ [l]) \<in> set (l # bs)" by (cases bs) auto
  ultimately have ab: "?a \<in> set (l # as)" "?b \<in> set (l # bs)" by auto
  have va: "valid s ?a" "valid s ?b" "valid s x" "ls ?h x = l" "valid s l"
    using v [of ?a] v [of ?b] v [of x] v [of l] ab by auto
  have neq: "x \<noteq> NULL" "l \<noteq> NULL" "x \<noteq> l" "x \<noteq> ?a" "x \<noteq> ?b"
    using va d ab by (auto simp: valid_def)
  define s' where "s' = upd_prev (upd_next (upd_list (list_unlock
    (upd_prev (upd_next (s\<lparr>locks := (locks s)(l := True)\<rparr>) ?a ?b) ?b ?a) l) x NULL) x NULL) x NULL"
  have run: "list_remove s x = Inr s'"
    using va neq k by (simp add: list_remove_def s'_def node_simps)
  have f: "nx (nodes s') = (nx ?h)(?a := ?b, x := NULL)" "pv (nodes s') = (pv ?h)(?b := ?a, x := NULL)"
    "ls (nodes s') = (ls ?h)(x := NULL)" "locks s' = (locks s)(l := False)"
    and val: "\<And>q. valid s' q = valid s q"
    using va by (simp_all add: s'_def node_simps)
  have "chain (nodes s') l (as @ bs) l"
    using d neq by (intro chain_unlink [OF c]) (auto simp: f)
  with v d have "dll s' l (as @ bs)"
    by (auto simp: dll_alt val f)
  moreover have "same_list s s' ps" if "set ps \<inter> set (l # as @ x # bs) = {}" for ps
  proof -
    have "q \<noteq> l" "q \<noteq> x" "q \<noteq> ?a" "q \<noteq> ?b" if "q \<in> set ps" for q
      using that \<open>set ps \<inter> _ = {}\<close> ab by auto
    then show ?thesis
      unfolding same_list_def s'_def by (simp add: node_simps)
  qed
  ultimately show ?thesis using run val f(3) by (intro exI [of _ s']) auto
qed

lemma list_next_dll:
  assumes "dll s l (as @ x # bs)"
  shows "list_next s x = Inr (if bs = [] then NULL else hd bs)"
proof -
  from assms have x: "valid s x" "ls (nodes s) x = l" and c: "chain (nodes s) x bs l"
    and d: "l \<notin> set bs"
    by (auto simp: dll_alt chain_append)
  have "nx (nodes s) x = hd (bs @ [l])"
    by (rule chain_first [OF c])
  with x d show ?thesis
    by (cases bs) (auto simp: list_next_def node_simps)
qed

lemma list_next_head_dll:
  assumes "dll s l xs"
  shows "list_next s l = Inr (if xs = [] then NULL else hd xs)"
proof -
  from assms have x: "valid s l" "ls (nodes s) l = l" and c: "chain (nodes s) l xs l"
    and d: "l \<notin> set xs"
    by (auto simp: dll_alt)
  have "nx (nodes s) l = hd (xs @ [l])"
    by (rule chain_first [OF c])
  with x d show ?thesis
    by (cases xs) (auto simp: list_next_def node_simps)
qed

text \<open>A node that was taken out (or never inserted after its initialisation) is left alone.\<close>

lemma list_remove_unlinked: "valid s e \<Longrightarrow> ls (nodes s) e = NULL \<Longrightarrow> list_remove s e = Inr s"
  by (simp add: list_remove_def node_simps)

subsection \<open>The interface the clients use\<close>

text \<open>
  What the controller list and the I/O buffer list rely on: a view of a list's elements, how
  \<open>list_next\<close> walks them, and what insertion and removal do to the view. The clients' search loop
  is proved correct from these laws alone.
\<close>

locale intrusive_list =
  fixes view :: "'s \<Rightarrow> addr \<Rightarrow> addr list \<Rightarrow> bool"
    and fresh :: "'s \<Rightarrow> addr \<Rightarrow> bool"
    and nxt :: "'s \<Rightarrow> addr \<Rightarrow> addr res"
    and insert :: "'s \<Rightarrow> addr \<Rightarrow> addr \<Rightarrow> 's res"
    and remove :: "'s \<Rightarrow> addr \<Rightarrow> 's res"
  assumes view_distinct: "view s l xs \<Longrightarrow> distinct xs"
    and view_nonnull: "view s l xs \<Longrightarrow> NULL \<notin> set xs"
    and next_head: "view s l xs \<Longrightarrow> nxt s l = Inr (if xs = [] then NULL else hd xs)"
    and next_elem: "view s l (as @ x # bs) \<Longrightarrow> nxt s x = Inr (if bs = [] then NULL else hd bs)"
    and view_insert: "view s l xs \<Longrightarrow> fresh s e \<Longrightarrow> e \<notin> set (l # xs) \<Longrightarrow>
      \<exists>s'. insert s l e = Inr s' \<and> view s' l (xs @ [e])"
    and view_remove: "view s l (as @ x # bs) \<Longrightarrow> \<exists>s'. remove s x = Inr s' \<and> view s' l (as @ bs)"
begin

lemma scan_finds:
  assumes "view s l (as @ bs)" and "\<forall>x \<in> set bs. test x = Inr (P x)"
  shows "list_scan (nxt s) test (if bs = [] then NULL else hd bs) =
    Some (Inr (case List.find P bs of None \<Rightarrow> NULL | Some x \<Rightarrow> x))"
  using assms
proof (induction bs arbitrary: as)
  case Nil
  then show ?case by (simp add: list_scan.simps)
next
  case (Cons x bs)
  have "x \<noteq> NULL"
    using view_nonnull [OF Cons.prems(1)] by auto
  moreover have "nxt s x = Inr (if bs = [] then NULL else hd bs)"
    by (rule next_elem [OF Cons.prems(1)])
  moreover have "list_scan (nxt s) test (if bs = [] then NULL else hd bs) =
      Some (Inr (case List.find P bs of None \<Rightarrow> NULL | Some x \<Rightarrow> x))"
    using Cons.prems by (intro Cons.IH [of "as @ [x]"]) auto
  ultimately show ?case
    using Cons.prems(2) by (simp add: list_scan.simps [of _ _ x])
qed

lemma find_finds:
  assumes "view s l xs" and "\<forall>x \<in> set xs. test x = Inr (P x)"
  shows "list_find (nxt s) test l = Some (Inr (case List.find P xs of None \<Rightarrow> NULL | Some x \<Rightarrow> x))"
  using scan_finds [of s l "[]" xs test P] assms by (simp add: list_find_def next_head)

lemma insert_then_remove:
  assumes "view s l xs" and "fresh s e" and "e \<notin> set (l # xs)"
  shows "\<exists>s1 s2. insert s l e = Inr s1 \<and> remove s1 e = Inr s2 \<and> view s2 l xs"
  using view_insert [OF assms] view_remove [of _ l xs e "[]"] by fastforce

end

interpretation kl: intrusive_list dll valid list_next list_insert list_remove
proof unfold_locales
  fix s l xs assume "dll s l xs"
  then show "distinct xs" "NULL \<notin> set xs"
    by (auto simp: dll_def)
next
  fix s l xs assume "dll s l xs"
  then show "list_next s l = Inr (if xs = [] then NULL else hd xs)"
    by (rule list_next_head_dll)
next
  fix s l as x bs assume "dll s l (as @ x # bs)"
  then show "list_next s x = Inr (if bs = [] then NULL else hd bs)"
    by (rule list_next_dll)
next
  fix s l xs e assume "dll s l xs" "valid s e" "e \<notin> set (l # xs)"
  then show "\<exists>s'. list_insert s l e = Inr s' \<and> dll s' l (xs @ [e])"
    using list_insert_dll by blast
next
  fix s l as x bs assume "dll s l (as @ x # bs)"
  then show "\<exists>s'. list_remove s x = Inr s' \<and> dll s' l (as @ bs)"
    using list_remove_dll by blast
qed

subsection \<open>Properties\<close>

text \<open>A heap of three nodes at 0x100, 0x200 and 0x300, for concrete runs.\<close>

definition three_nodes :: lheap where
  "three_nodes =
    \<lparr>nodes = (\<lambda>p. if p = 0x100 \<or> p = 0x200 \<or> p = 0x300
        then Some \<lparr>ln_list = NULL, ln_next = NULL, ln_prev = NULL\<rparr> else None),
     locks = (\<lambda>_. False)\<rparr>"

text \<open>The list at 0x100 holding the nodes 0x200 and 0x300.\<close>

definition two_on_list :: lheap where
  "two_on_list =
    \<lparr>nodes =
       [0x100 \<mapsto> \<lparr>ln_list = 0x100, ln_next = 0x200, ln_prev = 0x300\<rparr>,
        0x200 \<mapsto> \<lparr>ln_list = 0x100, ln_next = 0x300, ln_prev = 0x100\<rparr>,
        0x300 \<mapsto> \<lparr>ln_list = 0x100, ln_next = 0x100, ln_prev = 0x200\<rparr>,
        0x400 \<mapsto> \<lparr>ln_list = NULL, ln_next = NULL, ln_prev = NULL\<rparr>,
        0x500 \<mapsto> \<lparr>ln_list = 0x500, ln_next = 0x500, ln_prev = 0x500\<rparr>],
     locks = (\<lambda>_. False)\<rparr>"

lemma two_on_list_dll: "dll two_on_list 0x100 [0x200, 0x300]" "dll two_on_list 0x500 []"
  "valid two_on_list 0x400"
  by (simp_all add: two_on_list_def dll_def owned_by_def nx_def pv_def valid_def)

text \<open>
  list_insert on a well-formed list succeeds, appends the node at the tail (the source's
  comment asks "insert always at the head?": it is the tail), leaves the list well formed with
  its lock free, and leaves every list with other nodes as it was.
\<close>

lemma list_insert_appends:
  assumes "dll s l xs" and "valid s e" and "e \<notin> set (l # xs)"
    and "dll s l2 ys" and "set (l2 # ys) \<inter> set (l # xs @ [e]) = {}"
  shows "\<exists>s'. list_insert s l e = Inr s' \<and> dll s' l (xs @ [e]) \<and> dll s' l2 ys"
  using list_insert_dll [OF assms(1-3)] assms(4,5) dll_frame by blast



text \<open>Inserting a sequence of nodes, one after the other.\<close>

fun insert_all :: "lheap \<Rightarrow> addr \<Rightarrow> addr list \<Rightarrow> lheap res" where
  "insert_all s l [] = Inr s"
| "insert_all s l (e # es) = bindE (list_insert s l e) (\<lambda>s'. insert_all s' l es)"

lemma insert_all_dll:
  assumes "dll s l xs" and "\<forall>e \<in> set es. valid s e" and "distinct (l # xs @ es)"
  shows "\<exists>s'. insert_all s l es = Inr s' \<and> dll s' l (xs @ es)"
  using assms
proof (induction es arbitrary: s xs)
  case Nil
  then show ?case by simp
next
  case (Cons e es)
  obtain s1 where s1: "list_insert s l e = Inr s1" "dll s1 l (xs @ [e])"
    "\<forall>q. valid s1 q = valid s q"
    using list_insert_dll [of s l xs e] Cons.prems by auto
  then obtain s2 where "insert_all s1 l es = Inr s2" "dll s2 l ((xs @ [e]) @ es)"
    using Cons.IH [of s1 "xs @ [e]"] Cons.prems by auto
  with s1 show ?case by auto
qed

text \<open>
  C35. A list that is initialised and then given the nodes of a sequence, one list_insert after the
  other, holds that sequence in order; walking it with list_next finds the first node that passes
  a test, or NULL, and the walk ends.
\<close>

theorem list_build_and_walk:
  assumes "valid s l" and "\<forall>e \<in> set es. valid s e" and "distinct (l # es)"
  shows "\<exists>s'. bindE (list_init s l) (\<lambda>s1. insert_all s1 l es) = Inr s' \<and> dll s' l es
    \<and> (\<forall>P. list_find (list_next s') (\<lambda>e. Inr (P e)) l =
          Some (Inr (case List.find P es of None \<Rightarrow> NULL | Some x \<Rightarrow> x)))"
proof -
  obtain s1 where s1: "list_init s l = Inr s1" "dll s1 l []" "\<forall>q. valid s1 q = valid s q"
    using list_init_dll [OF assms(1)] by blast
  then obtain s2 where "insert_all s1 l es = Inr s2" "dll s2 l es"
    using insert_all_dll [of s1 l "[]" es] assms by auto
  with s1 show ?thesis
    by (intro exI [of _ s2]) (simp add: kl.find_finds)
qed

theorem list_build_and_walk_witness:
  "\<exists>s'. bindE (list_init three_nodes 0x100) (\<lambda>s1. insert_all s1 0x100 [0x300, 0x200]) = Inr s'
    \<and> dll s' 0x100 [0x300, 0x200]
    \<and> (\<forall>P. list_find (list_next s') (\<lambda>e. Inr (P e)) 0x100 =
          Some (Inr (case List.find P [0x300, 0x200] of None \<Rightarrow> NULL | Some x \<Rightarrow> x)))"
  by (intro list_build_and_walk) (simp_all add: three_nodes_def valid_def)

end
