(* ===== verification/Regs.thy ===== *)
theory Regs
  imports Prelude
begin

section \<open>The controller's register file (kernel/nvme/regs.h)\<close>

text \<open>
  \<open>struct nvme_regs\<close> as the list of its members with their element sizes and counts, from which
  the C layout rules give each member's offset. A member of element size \<open>s\<close> is placed at the next multiple of \<open>s\<close>,
  as the ABI of the driver's targets does for 4- and 8-byte integers.
\<close>

definition RES1_SIZE :: nat where
  "RES1_SIZE = 0x1b - 0x18 + 1"

definition RES2_SIZE :: nat where
  "RES2_SIZE = 0xdff - 0x5c + 1"

definition RES3_SIZE :: nat where
  "RES3_SIZE = 0xfff - 0xe1c + 1"

datatype reg =
    CAP | VS | INTMS | INTMC | CC | RES1 | CSTS | NSSR | AQA | ASQ | ACQ | CMBLOC | CMBSZ
  | BPINFO | BPRSEL | BPMBL | CMBMSC | CMBSTS | RES2 | PMRCAP | PMRCTL | PMRSTS | PMREBS
  | PMRSWTP | PMRMSC | RES3 | SQ0TDBL

text \<open>Each member with the size of its elements in bytes and how many it has.\<close>

definition nvme_regs_members :: "(reg \<times> nat \<times> nat) list" where
  "nvme_regs_members =
    [(CAP, 4, 2), (VS, 4, 1), (INTMS, 4, 1), (INTMC, 4, 1), (CC, 4, 1),
     (RES1, 4, RES1_SIZE div 4), (CSTS, 4, 1), (NSSR, 4, 1), (AQA, 4, 1), (ASQ, 4, 2),
     (ACQ, 4, 2), (CMBLOC, 4, 1), (CMBSZ, 4, 1), (BPINFO, 4, 1), (BPRSEL, 4, 1),
     (BPMBL, 8, 1), (CMBMSC, 8, 1), (CMBSTS, 4, 1), (RES2, 4, RES2_SIZE div 4),
     (PMRCAP, 4, 1), (PMRCTL, 4, 1), (PMRSTS, 4, 1), (PMREBS, 4, 1), (PMRSWTP, 4, 1),
     (PMRMSC, 4, 1), (RES3, 4, RES3_SIZE div 4), (SQ0TDBL, 4, 1)]"

definition align_up :: "nat \<Rightarrow> nat \<Rightarrow> nat" where
  "align_up off sz = (off + sz - 1) div sz * sz"

fun offset_in :: "(reg \<times> nat \<times> nat) list \<Rightarrow> nat \<Rightarrow> reg \<Rightarrow> nat option" where
  "offset_in [] off r = None"
| "offset_in ((m, sz, count) # ms) off r =
     (let at = align_up off sz
      in if m = r then Some at else offset_in ms (at + sz * count) r)"

definition reg_offset :: "reg \<Rightarrow> nat option" where
  "reg_offset r = offset_in nvme_regs_members 0 r"

text \<open>The offset of element \<open>i\<close> of a register of 32-bit words, as an access through the struct has it.\<close>

definition reg_at :: "reg \<Rightarrow> nat \<Rightarrow> nat" where
  "reg_at r i = (case reg_offset r of None \<Rightarrow> 0 | Some off \<Rightarrow> off + 4 * i)"

lemmas reg_layout =
  reg_offset_def nvme_regs_members_def align_up_def RES1_SIZE_def RES2_SIZE_def RES3_SIZE_def

subsection \<open>The members in order\<close>

text \<open>Where each member starts and how many bytes it has.\<close>

definition reg_bytes :: "reg \<Rightarrow> nat" where
  "reg_bytes r = (case map_of nvme_regs_members r of None \<Rightarrow> 0 | Some (sz, count) \<Rightarrow> sz * count)"

definition all_regs :: "reg list" where
  "all_regs = map fst nvme_regs_members"

lemma reg_starts:
  "map (\<lambda>r. reg_at r 0) all_regs =
     [0x0, 0x8, 0xc, 0x10, 0x14, 0x18, 0x1c, 0x20, 0x24, 0x28, 0x30, 0x38, 0x3c, 0x40, 0x44, 0x48, 0x50, 0x58,
      0x5c, 0xe00, 0xe04, 0xe08, 0xe0c, 0xe10, 0xe14, 0xe18, 0xffc]"
  by (simp add: reg_at_def all_regs_def reg_layout)

lemma reg_sizes:
  "map reg_bytes all_regs =
     [8, 4, 4, 4, 4, 4, 4, 4, 4, 8, 8, 4, 4, 4, 4, 8, 8, 4, 0xda4, 4, 4, 4, 4, 4, 4, 0x1e4, 4]"
  by (simp add: reg_bytes_def all_regs_def reg_layout)

lemma all_regs_all: "r \<in> set all_regs"
  by (cases r) (simp_all add: all_regs_def nvme_regs_members_def)

text \<open>Each member starts where the one before it ends, or after padding.\<close>

lemma regs_apart: "sorted_wrt (\<lambda>r r'. reg_at r 0 < reg_at r' 0 \<and> reg_at r 0 + reg_bytes r \<le> reg_at r' 0) all_regs"
proof -
  have "sorted_wrt (\<lambda>(a, n) (b, _). a < b \<and> a + n \<le> b) (zip (map (\<lambda>r. reg_at r 0) all_regs) (map reg_bytes all_regs))"
    unfolding reg_starts reg_sizes by simp
  then show ?thesis by (simp add: zip_map_map sorted_wrt_map zip_same_conv_map)
qed

lemma reg_at_inj: "reg_at r 0 = reg_at r' 0 \<Longrightarrow> r = r'"
proof -
  assume eq: "reg_at r 0 = reg_at r' 0"
  have "distinct (map (\<lambda>r. reg_at r 0) all_regs)" unfolding reg_starts by simp
  with eq show ?thesis using all_regs_all by (auto simp: distinct_map dest: inj_onD)
qed

text \<open>Registers are ordered by where they are.\<close>

instantiation reg :: linorder
begin

definition less_eq_reg :: "reg \<Rightarrow> reg \<Rightarrow> bool" where
  "less_eq_reg r r' \<longleftrightarrow> reg_at r 0 \<le> reg_at r' 0"

definition less_reg :: "reg \<Rightarrow> reg \<Rightarrow> bool" where
  "less_reg r r' \<longleftrightarrow> reg_at r 0 < reg_at r' 0"

instance
  by standard (auto simp: less_eq_reg_def less_reg_def intro: reg_at_inj)

end

lemma reg_disjoint:
  assumes "r < (r' :: reg)"
  shows "reg_at r 0 + reg_bytes r \<le> reg_at r' 0"
proof -
  obtain i j where ij: "i < length all_regs" "all_regs ! i = r" "j < length all_regs" "all_regs ! j = r'"
    using all_regs_all by (metis in_set_conv_nth)
  have "i < j"
  proof (rule ccontr)
    assume "\<not> i < j"
    then have "j = i \<or> j < i" by auto
    then have "reg_at r' 0 \<le> reg_at r 0"
      using sorted_wrt_nth_less [OF regs_apart, of j i] ij by auto
    with assms show False by (simp add: less_reg_def)
  qed
  then show ?thesis using sorted_wrt_nth_less [OF regs_apart, of i j] ij by simp
qed

subsection \<open>Properties\<close>

text \<open>
  The struct places every register the driver touches at the offset the NVMe register map
  gives it (CAP 0x0, INTMS 0xc, INTMC 0x10, CC 0x14, CSTS 0x1c, AQA 0x24, ASQ 0x28, ACQ 0x30),
  and the memory buffer and persistent memory registers up to PMRSWTP as well. No two members overlap,
  and all are within 4 KB. The last two
  members are four bytes off: the block declared for 0xe1c starts at 0xe18, so the doorbell member SQ0TDBL
  is at 0xffc and not at 0x1000, where the first doorbell is. The code computes the doorbell
  address from 0x1000 itself.
\<close>

theorem reg_offsets:
  "map reg_offset [CAP, VS, INTMS, INTMC, CC, CSTS, NSSR, AQA, ASQ, ACQ] =
     map Some [0x0, 0x8, 0xc, 0x10, 0x14, 0x1c, 0x20, 0x24, 0x28, 0x30]
   \<and> map reg_offset [CMBLOC, CMBSZ, BPINFO, BPRSEL, BPMBL, CMBMSC, CMBSTS] =
     map Some [0x38, 0x3c, 0x40, 0x44, 0x48, 0x50, 0x58]
   \<and> map reg_offset [PMRCAP, PMRCTL, PMRSTS, PMREBS, PMRSWTP, PMRMSC] =
     map Some [0xe00, 0xe04, 0xe08, 0xe0c, 0xe10, 0xe14]
   \<and> reg_offset RES3 = Some 0xe18 \<and> reg_offset SQ0TDBL = Some 0xffc
   \<and> (\<forall>r r'. reg_at r 0 + reg_bytes r \<le> reg_at r' 0 \<or> r = r' \<or> reg_at r' 0 + reg_bytes r' \<le> reg_at r 0)
   \<and> (\<forall>r. reg_at r 0 + reg_bytes r \<le> 0x1000)"
proof -
  have "reg_at r 0 + reg_bytes r \<le> reg_at r' 0 \<or> r = r' \<or> reg_at r' 0 + reg_bytes r' \<le> reg_at r 0" for r r'
    using reg_disjoint [of r r'] reg_disjoint [of r' r] by (cases r r' rule: linorder_cases) auto
  moreover have "reg_at r 0 + reg_bytes r \<le> 0x1000" for r
  proof (cases "r = SQ0TDBL")
    case False
    have "list_all (\<lambda>r. r = SQ0TDBL \<or> r < SQ0TDBL) all_regs"
      by (simp add: all_regs_def nvme_regs_members_def less_reg_def reg_at_def reg_layout)
    then have "r < SQ0TDBL" using False all_regs_all [of r] by (auto simp: list_all_iff)
    then show ?thesis using reg_disjoint [of r SQ0TDBL] by (simp add: reg_at_def [of SQ0TDBL] reg_layout)
  qed (simp add: reg_at_def reg_bytes_def reg_layout)
  ultimately show ?thesis by (simp add: reg_layout)
qed

end
