(* ===== verification/Admin_Init.thy ===== *)
theory Admin_Init
  imports Ownership Intrusive_List Regs Bafs_Utils
begin

section \<open>Bringing the controller up and taking it down (kernel/nvme/admin.c)\<close>

text \<open>
  \<open>admin_init\<close> and \<open>admin_clean\<close>. A \<open>machine\<close> is a world with the controller's registers: the
  read-only \<open>CAP\<close>, and reads and writes of the others, which act on the controller's state. The
  addresses of the arrays \<open>kmalloc\<close> returns are kept beside the arrays, for the frees.

  \<open>mpsmin\<close> is assigned in admin.c without a declaration; it is taken here as a local \<open>u32\<close> like the
  unused \<open>mpsmax\<close> declared in its place.
\<close>

record 'd machine =
  m_world :: "'d world"
  m_cap :: "nat \<Rightarrow> u32"
  m_read :: "nat \<Rightarrow> 'd \<Rightarrow> u32 \<times> 'd"
  m_write :: "nat \<Rightarrow> u32 \<Rightarrow> 'd \<Rightarrow> 'd"
  m_cpl_fill :: "nat \<Rightarrow> cpl"
  m_cmd_fill :: "nat \<Rightarrow> cmd"
  m_dma_fill :: "nat \<Rightarrow> u64"

record 'd adm =
  d_host :: "'d host"
  d_ptrs :: ptrs
  d_lists :: lheap

text \<open>\<open>linux/log2.h\<close>: the position of the highest bit.\<close>

fun ilog2 :: "nat \<Rightarrow> nat" where
  "ilog2 n = (if n < 2 then 0 else Suc (ilog2 (n div 2)))"

declare ilog2.simps [simp del]

definition mmio_write :: "'d machine \<Rightarrow> reg \<Rightarrow> nat \<Rightarrow> u32 \<Rightarrow> 'd host \<Rightarrow> 'd host" where
  "mmio_write M r i v h =
     h\<lparr>h_dev := m_write M (reg_at r i) v (h_dev h),
       h_aqp := (h_aqp h)\<lparr>a_log := a_log (h_aqp h) @ [RegStore (reg_at r i) v]\<rparr>\<rparr>"

definition mmio_read :: "'d machine \<Rightarrow> reg \<Rightarrow> nat \<Rightarrow> 'd host \<Rightarrow> u32 \<times> 'd host" where
  "mmio_read M r i h = (let (v, d) = m_read M (reg_at r i) (h_dev h) in (v, h\<lparr>h_dev := d\<rparr>))"

text \<open>The loops that wait for bit 0 of CSTS; \<open>None\<close> is waiting for ever.\<close>

partial_function (option) wait_csts :: "'d machine \<Rightarrow> u32 \<Rightarrow> 'd host \<Rightarrow> 'd host res option" where
  "wait_csts M want h =
     (let (v, h1) = mmio_read M CSTS 0 h
      in if v AND 0x01 = want then Some (Inr h1) else wait_csts M want h1)"

text \<open>The values read from CAP.\<close>

definition cap_queue_size :: "'d machine \<Rightarrow> u32" where
  "cap_queue_size M = ucast (RDBITS (ucast (m_cap M 0)) 15 0 + 1)"

definition cap_dstrd :: "'d machine \<Rightarrow> u32" where
  "cap_dstrd M = ucast (RDBITS (ucast (m_cap M 1)) (35 - 32) (32 - 32))"

definition cap_mpsmin :: "'d machine \<Rightarrow> u32" where
  "cap_mpsmin M = ucast (RDBITS (ucast (m_cap M 1)) (51 - 32) (48 - 32))"

definition cap_timeout :: "'d machine \<Rightarrow> u32" where
  "cap_timeout M = ucast (RDBITS (ucast (m_cap M 0)) 31 24)"

text \<open>
  The first part: sizes, ring memory, marks and ids, doorbells and the members of \<open>struct ctrl\<close>.
\<close>

definition init_rings :: "'d machine \<Rightarrow> addr \<Rightarrow> 'd host \<Rightarrow> ('d host \<times> ptrs) res" where
  "init_rings M reg_addr h =
     (let a = h_aqp h; api = w_mem (m_world M);
          size = cap_queue_size M;
          qs = (if 4096 < size then 4096 else size);
          (cq_va, cq_dma, k1) = dma_alloc_coherent api (ucast qs * sizeof_cpl) (h_calls h);
          (sq_va, sq_dma, k2) = dma_alloc_coherent api (ucast qs * sizeof_cmd) k1;
          (cq_mark, k3) = kmalloc api (ucast qs) k2;
          (sq_mark, k4) = kmalloc api (ucast qs) k3;
          (cid, k5) = kmalloc api (of_nat MAX_CMD) k4;
          sq_db = reg_addr + 0x1000;
          cq_db = sq_db + ucast (1 * push_bit (unat (cap_dstrd M)) 4 :: u32)
      in if cq_mark = NULL \<or> sq_mark = NULL \<or> cid = NULL then Inl NullDeref
         else Inr
          (h\<lparr>h_aqp := a\<lparr>
               a_cq := (a_cq a)\<lparr>q_no := 0, q_es := sizeof_cpl, q_qs := qs, q_head := 0, q_tail := 0,
                 q_phase := 1, q_db := cq_db, q_addr := cq_va, q_mark := replicate (unat qs) 0\<rparr>,
               a_cq_dma := cq_dma,
               a_sq := (a_sq a)\<lparr>q_no := 0, q_es := sizeof_cmd, q_qs := qs, q_head := 0, q_tail := 0,
                 q_phase := 1, q_db := sq_db, q_addr := sq_va, q_mark := replicate (unat qs) 0,
                 q_cid := replicate MAX_CMD 0\<rparr>,
               a_sq_dma := sq_dma, a_lock := False, a_used := 0,
               a_cq_mem := (if cq_va = NULL then [] else map (m_cpl_fill M) [0..<unat qs]),
               a_sq_mem := (if sq_va = NULL then [] else map (m_cmd_fill M) [0..<unat qs])\<rparr>,
             h_max_queue_size := size, h_dstrd := cap_dstrd M, h_timeout := cap_timeout M,
             h_page_size := push_bit (unat (12 + cap_mpsmin M)) 1, h_calls := k5\<rparr>,
           \<lparr>p_cq_mark = cq_mark, p_sq_mark = sq_mark, p_cid = cid, p_use_mark = NULL,
            p_qp_list = NULL, p_sq_dmas = NULL, p_cq_dmas = NULL\<rparr>))"

text \<open>The second part: reset, program the admin queues, enable, mask the interrupts.\<close>

definition disable_controller :: "'d machine \<Rightarrow> 'd host \<Rightarrow> 'd host res option" where
  "disable_controller M h =
     (let (cc, h1) = mmio_read M CC 0 h
      in wait_csts M 0 (mmio_write M CC 0 (cc AND NOT 1) h1))"

definition program_queues :: "'d machine \<Rightarrow> 'd host \<Rightarrow> 'd host" where
  "program_queues M h =
     (let qs = q_qs (a_cq (h_aqp h)); cq = a_cq_dma (h_aqp h); sq = a_sq_dma (h_aqp h);
          h1 = mmio_write M AQA 0 (push_bit 16 (qs - 1) OR (qs - 1)) h;
          h2 = mmio_write M ACQ 0 (ucast cq) h1;
          h3 = mmio_write M ACQ 1 (ucast (drop_bit 32 cq)) h2;
          h4 = mmio_write M ASQ 0 (ucast sq) h3
      in mmio_write M ASQ 1 (ucast (drop_bit 32 sq)) h4)"

definition enable_controller :: "'d machine \<Rightarrow> 'd host \<Rightarrow> 'd host res option" where
  "enable_controller M h =
     (let cqes = of_nat (ilog2 (unat (q_es (a_cq (h_aqp h))))) :: u32;
          sqes = of_nat (ilog2 (unat (q_es (a_sq (h_aqp h))))) :: u32
      in wait_csts M 1 (mmio_write M CC 0
           (push_bit 20 cqes OR push_bit 16 sqes OR push_bit 7 (cap_mpsmin M) OR 0x0001) h))"

definition mask_interrupts :: "'d machine \<Rightarrow> 'd host \<Rightarrow> 'd host" where
  "mask_interrupts M h = mmio_write M INTMC 0 0x0 (mmio_write M INTMS 0 0xffffffff h)"

text \<open>The third part: the tables of I/O queue pairs, sized by what the controller granted.\<close>

definition init_tables :: "'d machine \<Rightarrow> 'd host \<times> ptrs \<Rightarrow> ('d host \<times> ptrs) res" where
  "init_tables M hp =
     (let (h, p) = hp; a = h_aqp h; api = w_mem (m_world M);
          n = unat (a_supported a); sz = ucast (a_supported a) :: u64;
          (use_mark, k1) = kmalloc api sz (h_calls h);
          (qp_list, k2) = kmalloc api (sz * 8) k1
      in if qp_list = NULL \<or> use_mark = NULL then Inl NullDeref
         else
           let (sq_dmas, k3) = kmalloc api (sz * 8) k2;
               (cq_dmas, k4) = kmalloc api (sz * 8) k3
           in Inr
             (h\<lparr>h_aqp := a\<lparr>a_use_mark := replicate n 0, a_io_qp_list := replicate n NULL,
                  a_sq_dma_addrs := (if sq_dmas = NULL then [] else map (m_dma_fill M) [0..<n]),
                  a_cq_dma_addrs := (if cq_dmas = NULL then [] else map (m_dma_fill M) [0..<n])\<rparr>,
                h_calls := k4\<rparr>,
              p\<lparr>p_use_mark := use_mark, p_qp_list := qp_list, p_sq_dmas := sq_dmas, p_cq_dmas := cq_dmas\<rparr>))"

text \<open>
  \<open>admin_init\<close>: \<open>h\<close> is the state before, with the uninitialised \<open>struct admin_queue_pair\<close>;
  \<open>reg_addr\<close> the mapped registers, \<open>host_list\<close> the address of the list of host buffers.
\<close>

definition admin_init ::
  "'d machine \<Rightarrow> addr \<Rightarrow> addr \<Rightarrow> 'd host \<Rightarrow> lheap \<Rightarrow> 'd adm res option" where
  "admin_init M reg_addr host_list h L =
     bindO (Some (init_rings M reg_addr h)) (\<lambda>(h1, p).
     bindO (disable_controller M h1) (\<lambda>h2.
     bindO (enable_controller M (program_queues M h2)) (\<lambda>h3.
     let h4 = mask_interrupts M h3; w = m_world M in
     bindO (channel (\<lambda>s _. admin_set_num_queues (w_dev w) (w_cmd w) s) h4 (w_cmd w)) (\<lambda>h5.
     bindO (Some (init_tables M (h5, p))) (\<lambda>(h6, p6).
     bindO (admin_create_io_queue_pair w h6) (\<lambda>(h7, _).
     bindO (Some (list_init L host_list)) (\<lambda>L1.
     Some (Inr \<lparr>d_host = h7, d_ptrs = p6, d_lists = L1\<rparr>))))))))"

subsection \<open>A controller that starts and stops\<close>

text \<open>
  The controller follows CC.EN with CSTS.RDY: after a write of CC, reading CSTS finitely many times
  gives the value of bit 0 that was written. Register accesses keep \<open>I\<close>.
\<close>

inductive csts_reaches :: "'d machine \<Rightarrow> u32 \<Rightarrow> 'd \<Rightarrow> bool" for M v where
  now: "fst (m_read M (reg_at CSTS 0) d) AND 1 = v \<Longrightarrow> csts_reaches M v d"
| later: "csts_reaches M v (snd (m_read M (reg_at CSTS 0) d)) \<Longrightarrow> csts_reaches M v d"

definition regs_respond :: "'d machine \<Rightarrow> ('d \<Rightarrow> bool) \<Rightarrow> bool" where
  "regs_respond M I \<longleftrightarrow>
     (\<forall>d off. I d \<longrightarrow> I (snd (m_read M off d))) \<and> (\<forall>d off v. I d \<longrightarrow> I (m_write M off v d))
     \<and> (\<forall>d v. I d \<longrightarrow> csts_reaches M (v AND 1) (m_write M (reg_at CC 0) v d))"

lemma mmio_read_eq: "mmio_read M r i h =
    (fst (m_read M (reg_at r i) (h_dev h)), h\<lparr>h_dev := snd (m_read M (reg_at r i) (h_dev h))\<rparr>)"
  by (simp add: mmio_read_def split_beta)

lemma wait_csts_ends:
  assumes "csts_reaches M v (h_dev h)" and "regs_respond M I" and "I (h_dev h)"
  shows "\<exists>d'. wait_csts M v h = Some (Inr (h\<lparr>h_dev := d'\<rparr>)) \<and> I d'"
  using assms
proof (induction "h_dev h" arbitrary: h rule: csts_reaches.induct)
  case now
  then have "I (snd (m_read M (reg_at CSTS 0) (h_dev h)))" by (simp add: regs_respond_def)
  moreover have "wait_csts M v h = Some (Inr (h\<lparr>h_dev := snd (m_read M (reg_at CSTS 0) (h_dev h))\<rparr>))"
    using now(1) by (subst wait_csts.simps) (simp add: mmio_read_eq)
  ultimately show ?case by blast
next
  case later
  let ?h1 = "h\<lparr>h_dev := snd (m_read M (reg_at CSTS 0) (h_dev h))\<rparr>"
  have i: "I (h_dev ?h1)" using later.prems by (simp add: regs_respond_def)
  have "\<exists>d'. wait_csts M v ?h1 = Some (Inr (?h1\<lparr>h_dev := d'\<rparr>)) \<and> I d'"
    by (rule later.hyps(2) [OF _ later.prems(1) i]) simp
  then obtain d' where "wait_csts M v ?h1 = Some (Inr (h\<lparr>h_dev := d'\<rparr>))" "I d'" by auto
  moreover have "wait_csts M v h = (if fst (m_read M (reg_at CSTS 0) (h_dev h)) AND 1 = v
      then Some (Inr ?h1) else wait_csts M v ?h1)"
    by (subst wait_csts.simps) (simp add: mmio_read_eq)
  ultimately show ?case using i by (cases "fst (m_read M (reg_at CSTS 0) (h_dev h)) AND 1 = v") auto
qed

lemma mmio_write_fields [simp]:
  "h_aqp (mmio_write M r i v h) = (h_aqp h)\<lparr>a_log := a_log (h_aqp h) @ [RegStore (reg_at r i) v]\<rparr>"
  "h_dev (mmio_write M r i v h) = m_write M (reg_at r i) v (h_dev h)"
  "h_calls (mmio_write M r i v h) = h_calls h" "h_qps (mmio_write M r i v h) = h_qps h"
  "h_max_queue_size (mmio_write M r i v h) = h_max_queue_size h"
  "h_dstrd (mmio_write M r i v h) = h_dstrd h" "h_page_size (mmio_write M r i v h) = h_page_size h"
  "h_timeout (mmio_write M r i v h) = h_timeout h"
  by (simp_all add: mmio_write_def)

lemma wait_after_cc:
  assumes "regs_respond M I" and "I (h_dev h)" and "v = cc AND 1"
  obtains d' where "wait_csts M v (mmio_write M CC 0 cc h) = Some (Inr ((mmio_write M CC 0 cc h)\<lparr>h_dev := d'\<rparr>))"
    "I d'"
proof -
  let ?h = "mmio_write M CC 0 cc h"
  have "csts_reaches M v (h_dev ?h)" "I (h_dev ?h)"
    using assms by (simp_all add: regs_respond_def)
  with wait_csts_ends [OF _ assms(1)] that show thesis by blast
qed

text \<open>The registers by their offsets in the struct.\<close>

lemma reg_at_values:
  "reg_at CC 0 = 0x14" "reg_at CSTS 0 = 0x1c" "reg_at AQA 0 = 0x24" "reg_at ASQ 0 = 0x28"
  "reg_at ASQ (Suc 0) = 0x2c" "reg_at ACQ 0 = 0x30" "reg_at ACQ (Suc 0) = 0x34" "reg_at INTMS 0 = 0xc"
  "reg_at INTMC 0 = 0x10"
  by (simp_all add: reg_at_def reg_layout)

definition enable_word :: "u32 \<Rightarrow> u32" where
  "enable_word mps = push_bit 20 4 OR push_bit 16 6 OR push_bit 7 mps OR 1"

lemma enable_word_on: "enable_word mps AND 1 = 1"
  by (rule bit_word_eqI) (auto simp: enable_word_def bit_simps)

lemma cc_off: "0 = ((x :: u32) AND NOT 1) AND 1"
  by (rule bit_word_eqI) (auto simp: bit_simps)

lemma ilog2_sizes: "ilog2 (unat sizeof_cpl) = 4" "ilog2 (unat sizeof_cmd) = 6"
  by (simp_all add: sizeof_cpl_def sizeof_cmd_def ilog2.simps)

text \<open>What the driver writes to the registers to start the controller.\<close>

definition start_log :: "u32 \<Rightarrow> u32 \<Rightarrow> u32 \<Rightarrow> u64 \<Rightarrow> u64 \<Rightarrow> hw_event list" where
  "start_log cc mps qs cq sq =
     [RegStore 0x14 (cc AND NOT 1), RegStore 0x24 (push_bit 16 (qs - 1) OR (qs - 1)),
      RegStore 0x30 (ucast cq), RegStore 0x34 (ucast (drop_bit 32 cq)),
      RegStore 0x28 (ucast sq), RegStore 0x2c (ucast (drop_bit 32 sq)),
      RegStore 0x14 (enable_word mps), RegStore 0xc 0xffffffff, RegStore 0x10 0]"

lemma start_controller:
  assumes R: "regs_respond M I" and i: "I (h_dev h)"
    and es: "q_es (a_cq (h_aqp h)) = sizeof_cpl" "q_es (a_sq (h_aqp h)) = sizeof_cmd"
  obtains h2 h3 cc d' where "disable_controller M h = Some (Inr h2)"
    "enable_controller M (program_queues M h2) = Some (Inr h3)" "I d'"
    "mask_interrupts M h3 = h\<lparr>h_dev := d', h_aqp := (h_aqp h)\<lparr>a_log := a_log (h_aqp h) @
       start_log cc (cap_mpsmin M) (q_qs (a_cq (h_aqp h))) (a_cq_dma (h_aqp h)) (a_sq_dma (h_aqp h))\<rparr>\<rparr>"
proof -
  define cc d0 where "cc = fst (m_read M (reg_at CC 0) (h_dev h))"
    and "d0 = snd (m_read M (reg_at CC 0) (h_dev h))"
  then have rd: "mmio_read M CC 0 h = (cc, h\<lparr>h_dev := d0\<rparr>)" and d0: "I d0"
    using R i by (simp_all add: mmio_read_eq regs_respond_def)
  let ?h1 = "h\<lparr>h_dev := d0\<rparr>"
  obtain d1 where w1: "wait_csts M 0 (mmio_write M CC 0 (cc AND NOT 1) ?h1) =
      Some (Inr ((mmio_write M CC 0 (cc AND NOT 1) ?h1)\<lparr>h_dev := d1\<rparr>))" "I d1"
    using wait_after_cc [OF R _ cc_off, of ?h1 cc] d0 by auto
  let ?h2 = "(mmio_write M CC 0 (cc AND NOT 1) ?h1)\<lparr>h_dev := d1\<rparr>"
  let ?p = "program_queues M ?h2"
  have p: "I (h_dev ?p)" "q_es (a_cq (h_aqp ?p)) = sizeof_cpl" "q_es (a_sq (h_aqp ?p)) = sizeof_cmd"
    using w1(2) R es by (simp_all add: program_queues_def Let_def regs_respond_def)
  obtain d2 where w2: "wait_csts M 1 (mmio_write M CC 0 (enable_word (cap_mpsmin M)) ?p) =
      Some (Inr ((mmio_write M CC 0 (enable_word (cap_mpsmin M)) ?p)\<lparr>h_dev := d2\<rparr>))" "I d2"
    using wait_after_cc [OF R p(1) enable_word_on [symmetric]] by blast
  let ?h3 = "(mmio_write M CC 0 (enable_word (cap_mpsmin M)) ?p)\<lparr>h_dev := d2\<rparr>"
  let ?d = "m_write M (reg_at INTMC 0) 0 (m_write M (reg_at INTMS 0) 0xffffffff d2)"
  have "disable_controller M h = Some (Inr ?h2)"
    using rd w1(1) by (simp add: disable_controller_def)
  moreover have "enable_controller M ?p = Some (Inr ?h3)"
    using w2(1) p(2,3) by (simp add: enable_controller_def ilog2_sizes enable_word_def)
  moreover have "I ?d" using w2(2) R by (simp add: regs_respond_def)
  moreover have "mask_interrupts M ?h3 = h\<lparr>h_dev := ?d, h_aqp := (h_aqp h)\<lparr>a_log := a_log (h_aqp h) @
       start_log cc (cap_mpsmin M) (q_qs (a_cq (h_aqp h))) (a_cq_dma (h_aqp h)) (a_sq_dma (h_aqp h))\<rparr>\<rparr>"
    by (simp add: mask_interrupts_def program_queues_def Let_def mmio_write_def reg_at_values
        start_log_def)
  ultimately show thesis by (rule that)
qed

subsection \<open>The rings and tables that initialisation makes\<close>

text \<open>The ring size: CAP.MQES plus one, at most 4096.\<close>

definition ring_size :: "'d machine \<Rightarrow> nat" where
  "ring_size M = min 4096 (unat (m_cap M 0) mod 65536 + 1)"

lemma cap_queue_size_nat: "unat (cap_queue_size M) = unat (m_cap M 0) mod 65536 + 1"
proof -
  have r: "unat (RDBITS (ucast (m_cap M 0)) 15 0) = unat (m_cap M 0) mod 65536"
    by (simp add: RDBITS_nat word_nat)
  then have "unat (RDBITS (ucast (m_cap M 0)) 15 0 + 1) = unat (m_cap M 0) mod 65536 + 1"
    by (simp add: unat_word_ariths)
  then show ?thesis by (simp add: cap_queue_size_def unat_ucast_mod)
qed

text \<open>
  What holds of the rings after the first part: the queues of both sides are empty, of the
  clamped size, with doorbells at \<open>0x1000\<close> and one stride above, and the admin queue is idle.
\<close>

lemma init_rings_ok:
  assumes mem: "mem_plenty (w_mem (m_world M))" and fill: "\<forall>i. cpl_phase (m_cpl_fill M i) = 0"
    and size: "2 \<le> ring_size M" "ring_size M dvd 65536"
  obtains h1 p where "init_rings M reg_addr h = Inr (h1, p)" "idle (h_aqp h1)"
    "h_dev h1 = h_dev h" "a_log (h_aqp h1) = a_log (h_aqp h)" "a_used (h_aqp h1) = 0"
    "q_es (a_cq (h_aqp h1)) = sizeof_cpl" "q_es (a_sq (h_aqp h1)) = sizeof_cmd"
    "qN (a_cq (h_aqp h1)) = ring_size M" "q_qs (a_sq (h_aqp h1)) = q_qs (a_cq (h_aqp h1))"
    "q_db (a_sq (h_aqp h1)) = reg_addr + 0x1000"
    "q_db (a_cq (h_aqp h1)) = reg_addr + 0x1000 + ucast (push_bit (unat (cap_dstrd M)) 4 :: u32)"
    "h_dstrd h1 = cap_dstrd M" "h_max_queue_size h1 = cap_queue_size M" "h_qps h1 = h_qps h"
proof -
  let ?api = "w_mem (m_world M)"
  define qs where "qs = (if 4096 < cap_queue_size M then 4096 else cap_queue_size M)"
  have N: "unat qs = ring_size M"
    by (simp add: qs_def ring_size_def cap_queue_size_nat word_less_nat_alt)
  obtain cv cd where cq: "dma_alloc_result ?api (h_calls h) (ucast qs * sizeof_cpl) = (cv, cd)" "cv \<noteq> NULL"
    using mem by (metis mem_plenty_def prod.collapse)
  let ?k1 = "h_calls h @ [DmaAlloc (ucast qs * sizeof_cpl) cv cd]"
  obtain sv sd where sq: "dma_alloc_result ?api ?k1 (ucast qs * sizeof_cmd) = (sv, sd)" "sv \<noteq> NULL"
    using mem by (metis mem_plenty_def prod.collapse)
  have km: "kmalloc_result ?api k sz \<noteq> NULL" for k sz using mem by (simp add: mem_plenty_def)
  obtain h1 p where run: "init_rings M reg_addr h = Inr (h1, p)" and h1:
    "a_lock (h_aqp h1) = False" "h_dev h1 = h_dev h" "a_log (h_aqp h1) = a_log (h_aqp h)"
    "a_used (h_aqp h1) = 0" "h_dstrd h1 = cap_dstrd M" "h_max_queue_size h1 = cap_queue_size M"
    "h_qps h1 = h_qps h" and q:
    "q_es (a_cq (h_aqp h1)) = sizeof_cpl" "q_es (a_sq (h_aqp h1)) = sizeof_cmd"
    "q_qs (a_cq (h_aqp h1)) = qs" "q_qs (a_sq (h_aqp h1)) = qs"
    "q_head (a_cq (h_aqp h1)) = 0" "q_head (a_sq (h_aqp h1)) = 0" "q_tail (a_sq (h_aqp h1)) = 0"
    "q_phase (a_cq (h_aqp h1)) = 1" "q_mark (a_cq (h_aqp h1)) = replicate (unat qs) 0"
    "q_mark (a_sq (h_aqp h1)) = replicate (unat qs) 0" "q_cid (a_sq (h_aqp h1)) = replicate MAX_CMD 0"
    "a_cq_mem (h_aqp h1) = map (m_cpl_fill M) [0..<unat qs]"
    "a_sq_mem (h_aqp h1) = map (m_cmd_fill M) [0..<unat qs]"
    "q_db (a_sq (h_aqp h1)) = reg_addr + 0x1000"
    "q_db (a_cq (h_aqp h1)) = reg_addr + 0x1000 + ucast (push_bit (unat (cap_dstrd M)) 4 :: u32)"
    using cq sq km
    by (simp add: init_rings_def dma_alloc_coherent_def kmalloc_def Let_def flip: qs_def)
  have le: "unat qs \<le> 4096" by (simp add: N ring_size_def)
  have fresh: "sq_fresh (h_aqp h1)"
    using size le N by (simp add: sq_fresh_def h1 q)
  then have "idle (h_aqp h1)"
    using size le N fill
    by (simp add: idle_def sq_fresh_inv sq_count_def q cq_quiet_def cq_wf_def ring_ok_def
        ring_wf_def slot_at_def)
  with run h1 q N that show thesis by simp
qed

text \<open>What the first and the third part owe.\<close>

lemma init_rings_frees:
  assumes mem: "mem_plenty (w_mem (m_world M))" and run: "init_rings M reg_addr h = Inr (h1, p)"
    and R: "holds (h_calls h) = Some R"
  shows "holds (h_calls h1) = Some (R + mset (ring_frees (h_aqp h1) p))"
    and "p_cq_mark p \<noteq> NULL" and "p_sq_mark p \<noteq> NULL" and "p_cid p \<noteq> NULL"
proof -
  have dma: "fst (dma_alloc_result (w_mem (m_world M)) k sz) \<noteq> NULL" for k sz
    using mem by (simp add: mem_plenty_def)
  have "holds (h_calls h1) = Some (R + mset (ring_frees (h_aqp h1) p)) \<and> p_cq_mark p \<noteq> NULL
      \<and> p_sq_mark p \<noteq> NULL \<and> p_cid p \<noteq> NULL"
    using run R dma
    by (auto simp: init_rings_def dma_alloc_coherent_def kmalloc_def Let_def split_beta holds_append
        ring_frees_def mult.commute split: if_splits)
  then show "holds (h_calls h1) = Some (R + mset (ring_frees (h_aqp h1) p))"
    "p_cq_mark p \<noteq> NULL" "p_sq_mark p \<noteq> NULL" "p_cid p \<noteq> NULL" by simp_all
qed

lemma init_tables_frees:
  assumes mem: "mem_plenty (w_mem (m_world M))" and run: "init_tables M (h, p) = Inr (h', p')"
    and R: "holds (h_calls h) = Some R" and p: "p_cq_mark p \<noteq> NULL" "p_sq_mark p \<noteq> NULL" "p_cid p \<noteq> NULL"
  shows "holds (h_calls h') = Some (R + mset (table_frees p'))" and "ptrs_ok p'"
    and "ring_frees (h_aqp h') p' = ring_frees (h_aqp h) p" and "marked (h_aqp h') = {}"
proof -
  have km: "kmalloc_result (w_mem (m_world M)) k sz \<noteq> NULL" for k sz
    using mem by (simp add: mem_plenty_def)
  have "holds (h_calls h') = Some (R + mset (table_frees p')) \<and> ptrs_ok p'
      \<and> ring_frees (h_aqp h') p' = ring_frees (h_aqp h) p \<and> marked (h_aqp h') = {}"
    using run R p km
    by (auto simp: init_tables_def kmalloc_def Let_def holds_append table_frees_def ptrs_ok_def
        ring_frees_def marked_def)
  then show "holds (h_calls h') = Some (R + mset (table_frees p'))" "ptrs_ok p'"
    "ring_frees (h_aqp h') p' = ring_frees (h_aqp h) p" "marked (h_aqp h') = {}" by simp_all
qed

text \<open>The queue count: whatever the controller answers, at least one pair is supported.\<close>

lemma num_queues_step:
  assumes r: "host_ready w I h" and g: "wf_cmd (w_cmd w)"
  obtains h' where
    "channel (\<lambda>s _. admin_set_num_queues (w_dev w) (w_cmd w) s) h c = Some (Inr h')"
    "host_ready w I h'" "0 < unat (a_supported (h_aqp h'))" "unat (a_supported (h_aqp h')) \<le> 65536"
    "sent (a_log (h_aqp h')) = sent (a_log (h_aqp h)) @ [num_queues_cmd (w_cmd w)]"
    "prefix (a_log (h_aqp h)) (a_log (h_aqp h'))" "a_used (h_aqp h') = a_used (h_aqp h)"
    "q_db (a_sq (h_aqp h')) = q_db (a_sq (h_aqp h))" "q_db (a_cq (h_aqp h')) = q_db (a_cq (h_aqp h))"
    "h_dstrd h' = h_dstrd h" "h_max_queue_size h' = h_max_queue_size h" "h_qps h' = h_qps h"
    "h_calls h' = h_calls h" "ring_alloc (h_aqp h') = ring_alloc (h_aqp h)"
proof -
  let ?c = "num_queues_cmd (w_cmd w)" and ?a = "h_aqp h"
  note p = num_queues_cmd_plain [OF g]
  have i: "idle ?a" using r by (simp add: host_ready_def)
  obtain e d' where e: "completes (w_dev w) ?a (h_dev h) ?c e d'" "I d'"
    using r p i unfolding host_ready_def serves_def by blast
  define n where "n = drop_bit 16 (cpl_dword e ! 0) + 1"
  let ?h' = "h\<lparr>h_aqp := (after_cmd ?a ?c e)\<lparr>a_supported := n\<rparr>, h_dev := d'\<rparr>"
  have "unat (cpl_dword e ! 0) div 65536 < 65536"
    using unat_u32 [of "cpl_dword e ! 0"] by simp
  then have "unat n = unat (cpl_dword e ! 0) div 65536 + 1" "unat (cpl_dword e ! 0) div 65536 < 65536"
    by (simp_all add: n_def unat_word_ariths drop_bit_unat del: drop_bit_eq_div)
  then have n: "0 < unat n" "unat n \<le> 65536" by simp_all
  have "channel (\<lambda>s _. admin_set_num_queues (w_dev w) (w_cmd w) s) h c = Some (Inr ?h')"
    using run_cmd_count_completes [OF i p e(1)]
    by (simp add: channel_def admin_set_num_queues_def n_def)
  moreover have "host_ready w I ?h'"
    using r e(2) idle_after [OF i p e(1)] by (simp add: host_ready_def)
  ultimately show thesis
    by (rule that) (use n after_cmd_log [OF i p, of e] in simp_all)
qed

lemma init_tables_ok:
  assumes mem: "mem_plenty (w_mem (m_world M))" and i: "idle (h_aqp h)"
    and n: "0 < unat (a_supported (h_aqp h))"
  obtains h' p' where "init_tables M (h, p) = Inr (h', p')" "idle (h_aqp h')"
    "pair_tables (h_aqp h')" "first_unused (h_aqp h') 0"
    "a_use_mark (h_aqp h') = replicate (unat (a_supported (h_aqp h))) 0"
    "a_log (h_aqp h') = a_log (h_aqp h)" "a_used (h_aqp h') = a_used (h_aqp h)"
    "a_supported (h_aqp h') = a_supported (h_aqp h)" "h_dev h' = h_dev h"
    "a_sq (h_aqp h') = a_sq (h_aqp h)" "a_cq (h_aqp h') = a_cq (h_aqp h)"
    "h_dstrd h' = h_dstrd h" "h_max_queue_size h' = h_max_queue_size h" "h_qps h' = h_qps h"
proof -
  have km: "kmalloc_result (w_mem (m_world M)) k sz \<noteq> NULL" for k sz
    using mem by (simp add: mem_plenty_def)
  obtain h' p' where run: "init_tables M (h, p) = Inr (h', p')" and h':
    "a_use_mark (h_aqp h') = replicate (unat (a_supported (h_aqp h))) 0"
    "a_io_qp_list (h_aqp h') = replicate (unat (a_supported (h_aqp h))) NULL"
    "length (a_sq_dma_addrs (h_aqp h')) = unat (a_supported (h_aqp h))"
    "length (a_cq_dma_addrs (h_aqp h')) = unat (a_supported (h_aqp h))"
    "a_log (h_aqp h') = a_log (h_aqp h)" "a_used (h_aqp h') = a_used (h_aqp h)"
    "a_supported (h_aqp h') = a_supported (h_aqp h)" "h_dev h' = h_dev h"
    "a_sq (h_aqp h') = a_sq (h_aqp h)" "a_cq (h_aqp h') = a_cq (h_aqp h)"
    "h_dstrd h' = h_dstrd h" "h_max_queue_size h' = h_max_queue_size h" "h_qps h' = h_qps h"
    "a_sq_mem (h_aqp h') = a_sq_mem (h_aqp h)" "a_cq_mem (h_aqp h') = a_cq_mem (h_aqp h)"
    "a_lock (h_aqp h') = a_lock (h_aqp h)"
    using km by (simp add: init_tables_def kmalloc_def Let_def)
  have "idle (h_aqp h')" using i idle_cong [of "h_aqp h'" "h_aqp h"] h' by simp
  with run h' n that show thesis by (simp add: pair_tables_def first_unused_def)
qed

subsection \<open>Initialisation as a whole\<close>

definition init_ok :: "'d machine \<Rightarrow> ('d \<Rightarrow> bool) \<Rightarrow> bool" where
  "init_ok M I \<longleftrightarrow> mem_plenty (w_mem (m_world M)) \<and> wf_cmd (w_cmd (m_world M))
     \<and> (\<forall>i. cpl_phase (m_cpl_fill M i) = 0) \<and> 2 \<le> ring_size M \<and> ring_size M dvd 65536
     \<and> serves (w_dev (m_world M)) I \<and> regs_respond M I"

text \<open>Before the first pair is created the driver owes the frees of the rings and the tables.\<close>

lemma init_owns:
  assumes mem: "mem_plenty (w_mem (m_world M))" and rings: "init_rings M reg_addr h = Inr (h1, p1)"
    and R: "holds (h_calls h) = Some R"
    and mid: "h_calls h2 = h_calls h1" "ring_alloc (h_aqp h2) = ring_alloc (h_aqp h1)" "a_used (h_aqp h2) = 0"
    and tables: "init_tables M (h2, p1) = Inr (h3, p3)" "pair_tables (h_aqp h3)" "a_used (h_aqp h3) = a_used (h_aqp h2)"
  shows "admin_owned R p3 h3" and "marked (h_aqp h3) = {}"
proof -
  note f1 = init_rings_frees [OF mem rings R]
  have c: "holds (h_calls h2) = Some (R + mset (ring_frees (h_aqp h1) p1))"
    using f1(1) by (simp add: mid(1))
  note f3 = init_tables_frees [OF mem tables(1) c f1(2-4)]
  have "ring_frees (h_aqp h3) p3 = ring_frees (h_aqp h1) p1"
    using f3(3) ring_frees_cong [OF mid(2)] by simp
  moreover have "pairs_owned h3" using tables(2,3) mid(3) f3(4) by (simp add: pairs_owned_def)
  ultimately show "admin_owned R p3 h3" using f3(1,2,4) by (simp add: admin_owned_def)
  show "marked (h_aqp h3) = {}" by (rule f3(4))
qed

text \<open>The first half of admin_init, up to the masked interrupts: the rings are allocated and the controller is on.\<close>

lemma init_started:
  assumes ok: "init_ok M I" and i: "I (h_dev h)"
  obtains h1 p1 h2 h3 h4 cc where "init_rings M reg_addr h = Inr (h1, p1)" "disable_controller M h1 = Some (Inr h2)"
    "enable_controller M (program_queues M h2) = Some (Inr h3)" "mask_interrupts M h3 = h4"
    "host_ready (m_world M) I h4" "idle (h_aqp h1)" "qN (a_cq (h_aqp h1)) = ring_size M"
    "a_log (h_aqp h4) = a_log (h_aqp h) @ start_log cc (cap_mpsmin M) (q_qs (a_cq (h_aqp h1)))
       (a_cq_dma (h_aqp h1)) (a_sq_dma (h_aqp h1))"
    "sent (a_log (h_aqp h4)) = sent (a_log (h_aqp h))" "a_used (h_aqp h4) = 0"
    "q_db (a_sq (h_aqp h4)) = reg_addr + 0x1000"
    "q_db (a_cq (h_aqp h4)) = reg_addr + 0x1000 + ucast (push_bit (unat (cap_dstrd M)) 4 :: u32)"
    "h_dstrd h4 = cap_dstrd M" "h_max_queue_size h4 = cap_queue_size M"
    "h_calls h4 = h_calls h1" "ring_alloc (h_aqp h4) = ring_alloc (h_aqp h1)"
proof -
  have mem: "mem_plenty (w_mem (m_world M))" and R: "regs_respond M I" and sv: "serves (w_dev (m_world M)) I"
    and ir: "\<forall>i. cpl_phase (m_cpl_fill M i) = 0" "2 \<le> ring_size M" "ring_size M dvd 65536"
    using ok by (simp_all add: init_ok_def)
  obtain h1 p1 where s1: "init_rings M reg_addr h = Inr (h1, p1)" "idle (h_aqp h1)"
    "h_dev h1 = h_dev h" "a_log (h_aqp h1) = a_log (h_aqp h)" "a_used (h_aqp h1) = 0"
    "q_es (a_cq (h_aqp h1)) = sizeof_cpl" "q_es (a_sq (h_aqp h1)) = sizeof_cmd"
    "qN (a_cq (h_aqp h1)) = ring_size M" "q_db (a_sq (h_aqp h1)) = reg_addr + 0x1000"
    "q_db (a_cq (h_aqp h1)) = reg_addr + 0x1000 + ucast (push_bit (unat (cap_dstrd M)) 4 :: u32)"
    "h_dstrd h1 = cap_dstrd M" "h_max_queue_size h1 = cap_queue_size M"
    by (rule init_rings_ok [OF mem ir]) blast
  let ?a = "h_aqp h1"
  let ?log = "\<lambda>cc. start_log cc (cap_mpsmin M) (q_qs (a_cq ?a)) (a_cq_dma ?a) (a_sq_dma ?a)"
  have i1: "I (h_dev h1)" using i s1(3) by simp
  obtain h2 h3 cc d where s2: "disable_controller M h1 = Some (Inr h2)"
    "enable_controller M (program_queues M h2) = Some (Inr h3)" "I d"
    "mask_interrupts M h3 = h1\<lparr>h_dev := d, h_aqp := ?a\<lparr>a_log := a_log ?a @ ?log cc\<rparr>\<rparr>" (is "_ = ?h4")
    by (rule start_controller [OF R i1 s1(6,7)])
  have quiet: "sent (?log cc) = []" by (simp add: start_log_def)
  have "idle (h_aqp ?h4)" using s1(2) idle_cong [of "h_aqp ?h4" ?a] by simp
  then have "host_ready (m_world M) I ?h4" using sv s2(3) by (simp add: host_ready_def)
  then show thesis
    by (rule that [OF s1(1) s2(1,2,4) _ s1(2,8)]) (simp_all add: s1 quiet)
qed

lemma admin_init_runs:
  assumes ok: "init_ok M I" and i: "I (h_dev h)" and v: "valid L host_list"
  obtains r h1 p1 cc cq_dma sq_dma where "admin_init M reg_addr host_list h L = Some (Inr r)"
    "host_ready (m_world M) I (d_host r)" "pair_tables (h_aqp (d_host r))"
    "a_used (h_aqp (d_host r)) = 1" "0 < unat (a_supported (h_aqp (d_host r)))"
    "a_use_mark (h_aqp (d_host r)) = (replicate (unat (a_supported (h_aqp (d_host r)))) 0)[0 := 1]"
    "q_db (a_sq (h_aqp (d_host r))) = reg_addr + 0x1000"
    "q_db (a_cq (h_aqp (d_host r))) =
      reg_addr + 0x1000 + ucast (push_bit (unat (h_dstrd (d_host r))) 4 :: u32)"
    "h_dstrd (d_host r) = cap_dstrd M"
    "dll (d_lists r) host_list []" "init_rings M reg_addr h = Inr (h1, p1)"
    "prefix (a_log (h_aqp h) @ start_log cc (cap_mpsmin M) (q_qs (a_cq (h_aqp h1)))
       (a_cq_dma (h_aqp h1)) (a_sq_dma (h_aqp h1))) (a_log (h_aqp (d_host r)))"
    "sent (a_log (h_aqp (d_host r))) = sent (a_log (h_aqp h)) @ [num_queues_cmd (w_cmd (m_world M)),
       create_cq_cmd (w_cmd (m_world M)) (io_queue_size (cap_queue_size M)) 0 cq_dma,
       create_sq_cmd (w_cmd (m_world M)) (io_queue_size (cap_queue_size M)) 0 sq_dma]"
    "qN (a_cq (h_aqp h1)) = ring_size M"
    "\<forall>R. holds (h_calls h) = Some R \<longrightarrow> admin_owned R (d_ptrs r) (d_host r)"
proof -
  let ?w = "m_world M"
  have mem: "mem_plenty (w_mem ?w)" and g: "wf_cmd (w_cmd ?w)"
    using ok by (simp_all add: init_ok_def)
  obtain h1 p1 h2 h3 h4 cc where s1: "init_rings M reg_addr h = Inr (h1, p1)" "disable_controller M h1 = Some (Inr h2)"
    "enable_controller M (program_queues M h2) = Some (Inr h3)" "mask_interrupts M h3 = h4" and r4: "host_ready ?w I h4"
    and f1: "idle (h_aqp h1)" "qN (a_cq (h_aqp h1)) = ring_size M" and log: "a_log (h_aqp h4) = a_log (h_aqp h)
       @ start_log cc (cap_mpsmin M) (q_qs (a_cq (h_aqp h1))) (a_cq_dma (h_aqp h1)) (a_sq_dma (h_aqp h1))"
    and f4: "sent (a_log (h_aqp h4)) = sent (a_log (h_aqp h))" "a_used (h_aqp h4) = 0"
    "q_db (a_sq (h_aqp h4)) = reg_addr + 0x1000"
    "q_db (a_cq (h_aqp h4)) = reg_addr + 0x1000 + ucast (push_bit (unat (cap_dstrd M)) 4 :: u32)"
    "h_dstrd h4 = cap_dstrd M" "h_max_queue_size h4 = cap_queue_size M"
    "h_calls h4 = h_calls h1" "ring_alloc (h_aqp h4) = ring_alloc (h_aqp h1)"
    by (rule init_started [OF ok i])
  obtain h5 where s5: "channel (\<lambda>s _. admin_set_num_queues (w_dev ?w) (w_cmd ?w) s) h4 (w_cmd ?w) = Some (Inr h5)"
    "host_ready ?w I h5" "0 < unat (a_supported (h_aqp h5))"
    "sent (a_log (h_aqp h5)) = sent (a_log (h_aqp h4)) @ [num_queues_cmd (w_cmd ?w)]"
    "prefix (a_log (h_aqp h4)) (a_log (h_aqp h5))" "a_used (h_aqp h5) = a_used (h_aqp h4)"
    "q_db (a_sq (h_aqp h5)) = q_db (a_sq (h_aqp h4))" "q_db (a_cq (h_aqp h5)) = q_db (a_cq (h_aqp h4))"
    "h_dstrd h5 = h_dstrd h4" "h_max_queue_size h5 = h_max_queue_size h4"
    "h_calls h5 = h_calls h4" "ring_alloc (h_aqp h5) = ring_alloc (h_aqp h4)"
    by (rule num_queues_step [OF r4 g]) blast
  have i5: "idle (h_aqp h5)" using s5(2) by (simp add: host_ready_def)
  obtain h6 p6 where s6: "init_tables M (h5, p1) = Inr (h6, p6)" "idle (h_aqp h6)"
    "pair_tables (h_aqp h6)" "first_unused (h_aqp h6) 0"
    "a_use_mark (h_aqp h6) = replicate (unat (a_supported (h_aqp h5))) 0"
    "a_log (h_aqp h6) = a_log (h_aqp h5)" "a_used (h_aqp h6) = a_used (h_aqp h5)"
    "a_supported (h_aqp h6) = a_supported (h_aqp h5)" "h_dev h6 = h_dev h5"
    "a_sq (h_aqp h6) = a_sq (h_aqp h5)" "a_cq (h_aqp h6) = a_cq (h_aqp h5)"
    "h_dstrd h6 = h_dstrd h5" "h_max_queue_size h6 = h_max_queue_size h5"
    by (rule init_tables_ok [OF mem i5 s5(3)]) blast
  have r6: "host_ready ?w I h6"
    using s5(2) s6(2,9) by (simp add: host_ready_def)
  have free: "a_used (h_aqp h6) \<noteq> a_supported (h_aqp h6)"
    using s5(3) by (auto simp: s6(7,8) s5(6) f4(2))
  obtain h7 p7 cd sd where s7: "admin_create_io_queue_pair ?w h6 = Some (Inr (h7, p7))"
    "host_ready ?w I h7" "sent (a_log (h_aqp h7)) = sent (a_log (h_aqp h6)) @
       [create_cq_cmd (w_cmd ?w) (io_queue_size (h_max_queue_size h6)) 0 cd,
        create_sq_cmd (w_cmd ?w) (io_queue_size (h_max_queue_size h6)) 0 sd]"
    "prefix (a_log (h_aqp h6)) (a_log (h_aqp h7))" "a_used (h_aqp h7) = a_used (h_aqp h6) + 1"
    "a_supported (h_aqp h7) = a_supported (h_aqp h6)"
    "a_use_mark (h_aqp h7) = (a_use_mark (h_aqp h6))[0 := 1]" "pair_tables (h_aqp h7)"
    "q_db (a_sq (h_aqp h7)) = q_db (a_sq (h_aqp h6))" "q_db (a_cq (h_aqp h7)) = q_db (a_cq (h_aqp h6))"
    "h_dstrd h7 = h_dstrd h6"
    by (rule create_ends [OF r6 g s6(3) free s6(4) mem]) (use s6(3) in \<open>simp add: pair_tables_def\<close>)
  obtain L1 where l: "list_init L host_list = Inr L1" "dll L1 host_list []"
    using list_init_dll [OF v] by blast
  have owned: "admin_owned R p6 h7" if R: "holds (h_calls h) = Some R" for R
  proof -
    have "h_calls h5 = h_calls h1" "ring_alloc (h_aqp h5) = ring_alloc (h_aqp h1)" "a_used (h_aqp h5) = 0"
      by (simp_all add: s5(6,11,12) f4)
    note own = init_owns [OF mem s1(1) R this s6(1,3,7)]
    show ?thesis using own_create [OF r6 g mem own(1) s7(1)] own(2) by simp
  qed
  let ?r = "\<lparr>d_host = h7, d_ptrs = p6, d_lists = L1\<rparr>"
  have "admin_init M reg_addr host_list h L = Some (Inr ?r)"
    using s1 s5(1) s6(1) s7(1) l(1) by (simp add: admin_init_def Let_def)
  moreover have "prefix (a_log (h_aqp h4)) (a_log (h_aqp h7))"
    using s5(5) s7(4) prefix_order.trans by (simp add: s6(6))
  moreover have "sent (a_log (h_aqp h7)) = sent (a_log (h_aqp h)) @ [num_queues_cmd (w_cmd ?w),
       create_cq_cmd (w_cmd ?w) (io_queue_size (cap_queue_size M)) 0 cd,
       create_sq_cmd (w_cmd ?w) (io_queue_size (cap_queue_size M)) 0 sd]"
    by (simp add: s7(3) s6(6,13) s5(4,10) f4)
  ultimately show thesis
    using s7(2,8) s5(3) s1(1) f1(2) l(2) owned
    by (intro that [of ?r h1 p1 cc cd sd])
      (simp_all add: s7(5-7,9-11) s6(5,7,8,10-12) s5(6-9) f4 log)
qed

subsection \<open>Properties\<close>


text \<open>
  A controller with rings of 1024 entries that answers at once; its state is what was last written
  to CC, and CSTS reads as that.
\<close>

definition small_machine :: "u32 machine" where
  "small_machine = \<lparr>m_world = \<lparr>w_mem = some_memory, w_dev = prompt_device 0x30003, w_cmd = zero_cmd,
       w_qp = \<lparr>qp_cq = blank_queue 4 0, qp_sq = blank_queue 4 0\<rparr>\<rparr>,
     m_cap = \<lambda>i. if i = 0 then 0x0f0003ff else 0,
     m_read = \<lambda>off d. (if off = 0x1c then d else 0, d),
     m_write = \<lambda>off v d. if off = 0x14 then v else d,
     m_cpl_fill = \<lambda>i. done_cpl 0 0, m_cmd_fill = \<lambda>i. zero_cmd, m_dma_fill = \<lambda>i. 0\<rparr>"

definition raw_host :: "u32 host" where
  "raw_host = \<lparr>h_aqp = blank_aqp 4, h_dev = 0, h_max_queue_size = 0, h_dstrd = 0, h_page_size = 0,
     h_timeout = 0, h_qps = Map.empty, h_calls = []\<rparr>"

lemma small_machine_ok: "init_ok small_machine (\<lambda>_. True)"
proof -
  have "serves (prompt_device 0x30003) (\<lambda>_ :: u32. True)"
    using prompt_device_completes by (fastforce simp: serves_def)
  moreover have "csts_reaches small_machine (v AND 1) (m_write small_machine (reg_at CC 0) v d)" for v d
    by (rule csts_reaches.now) (simp add: small_machine_def reg_at_values)
  ultimately show ?thesis
    by (simp add: init_ok_def regs_respond_def)
      (simp add: small_machine_def some_memory_def mem_plenty_def wf_cmd_def cpl_phase_def done_cpl_def
        ring_size_def)
qed


text \<open>
  C11. What the controller sees of admin_init, in order: CC.EN cleared with the other bits of CC kept; the sizes
  of both admin queues minus one in AQA; the bus addresses of the completion and the submission ring in
  ACQ and ASQ, low word first; CC with entry sizes 2^4 and 2^6, the smallest page size and EN; all interrupts masked; and
  only after all of these the commands: set the number of queues, then create the completion and
  the submission queue with identifier 1.
\<close>

theorem admin_init_programs:
  assumes "init_ok M I" and "I (h_dev h)" and "valid L host_list"
  shows "\<exists>r h1 p1 cc cq_dma sq_dma. admin_init M reg_addr host_list h L = Some (Inr r)
    \<and> init_rings M reg_addr h = Inr (h1, p1) \<and> qN (a_cq (h_aqp h1)) = ring_size M
    \<and> prefix (a_log (h_aqp h) @
        [RegStore 0x14 (cc AND NOT 1),
         RegStore 0x24 (push_bit 16 (q_qs (a_cq (h_aqp h1)) - 1) OR (q_qs (a_cq (h_aqp h1)) - 1)),
         RegStore 0x30 (ucast (a_cq_dma (h_aqp h1))), RegStore 0x34 (ucast (drop_bit 32 (a_cq_dma (h_aqp h1)))),
         RegStore 0x28 (ucast (a_sq_dma (h_aqp h1))), RegStore 0x2c (ucast (drop_bit 32 (a_sq_dma (h_aqp h1)))),
         RegStore 0x14 (push_bit 20 4 OR push_bit 16 6 OR push_bit 7 (cap_mpsmin M) OR 1),
         RegStore 0xc 0xffffffff, RegStore 0x10 0]) (a_log (h_aqp (d_host r)))
    \<and> sent (a_log (h_aqp (d_host r))) = sent (a_log (h_aqp h)) @
        [num_queues_cmd (w_cmd (m_world M)),
         create_cq_cmd (w_cmd (m_world M)) (io_queue_size (cap_queue_size M)) 0 cq_dma,
         create_sq_cmd (w_cmd (m_world M)) (io_queue_size (cap_queue_size M)) 0 sq_dma]"
  by (rule admin_init_runs [OF assms]) (unfold start_log_def enable_word_def, blast)

theorem admin_init_programs_witness:
  "\<exists>r. admin_init small_machine 0xF0000000 0x100 raw_host three_nodes = Some (Inr r)
    \<and> length (sent (a_log (h_aqp (d_host r)))) = 3"
proof -
  have "sent (a_log (h_aqp raw_host)) = []" by (simp add: raw_host_def blank_aqp_def)
  then show ?thesis
    using admin_init_programs [OF small_machine_ok, where h = raw_host and L = three_nodes
      and host_list = "0x100" and reg_addr = "0xF0000000"]
    by (auto simp: valid_def three_nodes_def)
qed

end
