(* ===== verification/Admin_Net.thy ===== *)
theory Admin_Net
  imports Admin_Init
begin

section \<open>The admin queue pair with its controller (kernel/nvme/admin.c)\<close>

text \<open>
  Both rings, the host threads and the controller as one system. The controller has a state of its own: where it
  posts next, with which phase tag, and the head it last read from the doorbell register, which may be
  behind the driver's. Of the driver it sees nothing else. It posts while the ring is not full by what it has seen; threads take the
  completions that polling finds, and reclaim them in any order. The completion ring implements a
  queue of completions between the two: nothing is overwritten before it is reclaimed, and no poll takes an
  entry of an earlier lap.
\<close>

subsection \<open>Distances on a ring\<close>

definition gap :: "nat \<Rightarrow> nat \<Rightarrow> nat \<Rightarrow> nat" where
  "gap n a b = (b + n - a) mod n"

lemma gap_less: "0 < n \<Longrightarrow> gap n a b < n"
  by (simp add: gap_def)

lemma gap_eq: "a < n \<Longrightarrow> b < n \<Longrightarrow> gap n a b = (if a \<le> b then b - a else n - a + b)"
  by (auto simp: gap_def mod_if)

lemma gap_add: "a < n \<Longrightarrow> b < n \<Longrightarrow> (a + gap n a b) mod n = b"
  by (auto simp: gap_eq mod_if)

lemma gap_unique: "a < n \<Longrightarrow> w < n \<Longrightarrow> gap n a ((a + w) mod n) = w"
  by (auto simp: gap_eq mod_if)

lemma gap_same [simp]: "a < n \<Longrightarrow> gap n a a = 0"
  by (simp add: gap_eq)

lemma gap_from:
  assumes "a < n" "b < n" "k \<le> gap n a b"
  shows "gap n ((a + k) mod n) b = gap n a b - k"
proof -
  have "((a + k) mod n + (gap n a b - k)) mod n = (a + gap n a b) mod n"
    using assms(3) by (metis add.assoc le_add_diff_inverse mod_add_left_eq)
  also have "\<dots> = b" using assms(1,2) by (rule gap_add)
  finally have b: "((a + k) mod n + (gap n a b - k)) mod n = b" .
  have "gap n a b - k < n" using gap_less [of n a b] assms(1) by simp
  with gap_unique [of "(a + k) mod n" n "gap n a b - k"] assms(1) b show ?thesis by simp
qed

lemma gap_to:
  assumes "a < n" "b < n" "gap n a b + k < n"
  shows "gap n a ((b + k) mod n) = gap n a b + k"
proof -
  have "(b + k) mod n = ((a + gap n a b) mod n + k) mod n" using gap_add [OF assms(1,2)] by simp
  also have "\<dots> = (a + (gap n a b + k)) mod n" by (simp add: mod_simps add.assoc)
  finally show ?thesis using gap_unique [OF assms(1,3)] by simp
qed

text \<open>The driver's phase, seen from the tag \<open>p\<close> of the controller's tail, when the head advances.\<close>

lemma lap_phase:
  assumes "h < n" and "t < n" and "k \<le> gap n h t" and "p = 0 \<or> p = (1 :: u8)"
    and "q = (if h \<le> t then p else flip p)"
  shows "(if h + k < n then q else flip q) = (if (h + k) mod n \<le> t then p else flip p)"
proof -
  have "(h + k) mod n = (if h + k < n then h + k else h + k - n)"
    using assms(1,3) gap_less [of n h t] by (simp add: mod_if)
  with assms show ?thesis by (auto simp: gap_eq split: if_splits)
qed

subsection \<open>The system\<close>

text \<open>The value of a doorbell register after some of the driver's writes.\<close>

fun db_write :: "addr \<Rightarrow> nat \<Rightarrow> hw_event \<Rightarrow> nat" where
  "db_write d v (Doorbell d' x) = (if d' = d then unat x else v)"
| "db_write d v (SqStore i c) = v"
| "db_write d v (RegStore i x) = v"

text \<open>
  \<open>n_db\<close> is the completion doorbell register; \<open>n_held\<close> are the ring slots whose completions threads have taken and not
  yet reclaimed.
\<close>

record admin_net =
  n_aqp :: aqp
  n_tail :: nat
  n_phase :: u8
  n_db :: nat
  n_seen :: nat
  n_held :: "nat set"

abbreviation n_cq :: "admin_net \<Rightarrow> queue" where
  "n_cq s \<equiv> a_cq (n_aqp s)"

abbreviation n_mem :: "admin_net \<Rightarrow> cpl list" where
  "n_mem s \<equiv> a_cq_mem (n_aqp s)"

text \<open>The driver does something: the writes it has added to the log reach the register.\<close>

definition db_after :: "admin_net \<Rightarrow> aqp \<Rightarrow> nat" where
  "db_after s a = foldl (db_write (q_db (n_cq s))) (n_db s) (drop (length (a_log (n_aqp s))) (a_log a))"

definition host_does :: "aqp \<Rightarrow> admin_net \<Rightarrow> admin_net" where
  "host_does a s = s\<lparr>n_aqp := a, n_db := db_after s a\<rparr>"

lemma host_does_simps [simp]:
  "n_aqp (host_does a s) = a" "n_tail (host_does a s) = n_tail s" "n_phase (host_does a s) = n_phase s"
  "n_seen (host_does a s) = n_seen s" "n_held (host_does a s) = n_held s" "n_db (host_does a s) = db_after s a"
  by (simp_all add: host_does_def)

lemma db_after_same: "a_log a = a_log (n_aqp s) \<Longrightarrow> db_after s a = n_db s"
  by (simp add: db_after_def)

definition dev_post :: "cpl \<Rightarrow> admin_net \<Rightarrow> admin_net" where
  "dev_post e s = s\<lparr>n_aqp := (n_aqp s)\<lparr>a_cq_mem := (n_mem s)[n_tail s := e]\<rparr>,
     n_tail := (n_tail s + 1) mod qN (n_cq s),
     n_phase := (if n_tail s + 1 = qN (n_cq s) then flip (n_phase s) else n_phase s)\<rparr>"

text \<open>
  A thread takes a completion that no other has taken; the code does not enforce this, and the last
  property says what can happen without it. A poll that finds nothing changes nothing and is no step.
\<close>

inductive net_step :: "admin_net \<Rightarrow> admin_net \<Rightarrow> bool" where
  net_submit: "plain_cmd c \<Longrightarrow> admin_enqueue_command (n_aqp s) c = Inr (a', c', r) \<Longrightarrow>
    net_step s (host_does a' s)"
| net_finish: "loc \<in> set (live (n_aqp s)) \<Longrightarrow> admin_sq_mark_cleanup (n_aqp s) (of_nat loc) = Inr a' \<Longrightarrow>
    net_step s (host_does a' s)"
| net_take: "admin_cq_poll (n_aqp s) cid = Inr (a', r) \<Longrightarrow> r \<noteq> - 1 \<Longrightarrow> unat r \<notin> n_held s \<Longrightarrow>
    q_mark (n_cq s) ! unat r = 0 \<Longrightarrow> net_step s ((host_does a' s)\<lparr>n_held := insert (unat r) (n_held s)\<rparr>)"
| net_reclaim: "l \<in> n_held s \<Longrightarrow> admin_cq_mark_cleanup (n_aqp s) (of_nat l) = Inr a' \<Longrightarrow>
    net_step s ((host_does a' s)\<lparr>n_held := n_held s - {l}\<rparr>)"
| net_post: "(n_tail s + 1) mod qN (n_cq s) \<noteq> n_seen s \<Longrightarrow> cpl_phase e = n_phase s \<Longrightarrow>
    net_step s (dev_post e s)"
| net_see: "net_step s (s\<lparr>n_seen := n_db s\<rparr>)"

text \<open>The completions posted and not yet reclaimed, oldest first, each with its slot and whether it is done.\<close>

definition posted :: "admin_net \<Rightarrow> nat" where
  "posted s = gap (qN (n_cq s)) (qh (n_cq s)) (n_tail s)"

definition cq_view :: "admin_net \<Rightarrow> (nat \<times> cpl \<times> bool) list" where
  "cq_view s = map (\<lambda>(l, d). (l, n_mem s ! l, d)) (ring_abs (posted s) (n_cq s))"

abbreviation cpl_step :: "nat \<Rightarrow> (nat \<times> cpl \<times> bool) list \<Rightarrow> (nat \<times> cpl \<times> bool) list \<Rightarrow> bool" where
  "cpl_step n \<equiv> fifo_step n (\<lambda>q e. True)"

text \<open>
  The invariant. The controller's tag separates the entries of its current lap, which are those before its
  tail, from older ones; the driver's is the same, or the other one while the head is a lap behind.
\<close>

definition net_inv :: "admin_net \<Rightarrow> bool" where
  "net_inv s \<longleftrightarrow> \<not> a_lock (n_aqp s) \<and> cq_wf (n_aqp s) \<and> ring_ok (posted s) (n_cq s)
     \<and> n_tail s < qN (n_cq s) \<and> n_seen s < qN (n_cq s)
     \<and> gap (qN (n_cq s)) (n_seen s) (qh (n_cq s)) + posted s < qN (n_cq s)
     \<and> q_phase (n_cq s) = (if qh (n_cq s) \<le> n_tail s then n_phase s else flip (n_phase s))
     \<and> (\<forall>l < qN (n_cq s). cpl_phase (n_mem s ! l) = (if l < n_tail s then n_phase s else flip (n_phase s)))
     \<and> (n_phase s = 0 \<or> n_phase s = 1)
     \<and> (\<forall>l \<in> n_held s. (l, False) \<in> set (ring_abs (posted s) (n_cq s)))
     \<and> n_db s = qh (n_cq s) \<and> q_db (a_sq (n_aqp s)) \<noteq> q_db (n_cq s)"

lemma net_inv_facts:
  assumes "net_inv s"
  shows "\<not> a_lock (n_aqp s)" "cq_wf (n_aqp s)" "ring_ok (posted s) (n_cq s)" "ring_wf (n_cq s)"
    "2 \<le> qN (n_cq s)" "qN (n_cq s) \<le> 4096" "qh (n_cq s) < qN (n_cq s)" "n_tail s < qN (n_cq s)"
    "length (n_mem s) = qN (n_cq s)" "posted s < qN (n_cq s)"
    "slot_at (n_cq s) (posted s) = n_tail s"
  using assms gap_add [of "qh (n_cq s)" "qN (n_cq s)" "n_tail s"]
  by (auto simp: net_inv_def cq_wf_def ring_wf_def posted_def slot_at_def)

text \<open>What the steps of the submission side leave alone is all that the invariant looks at.\<close>

lemma net_frame:
  assumes "net_inv s" and "a_cq a = n_cq s" and "a_cq_mem a = n_mem s" and "\<not> a_lock a"
    and "q_db (a_sq a) = q_db (a_sq (n_aqp s))" and "db_after s a = n_db s"
  shows "net_inv (host_does a s)" and "cq_view (host_does a s) = cq_view s"
  using assms by (simp_all add: net_inv_def posted_def cq_wf_def cq_view_def)

subsection \<open>Polling\<close>

text \<open>From the head to the end of the ring the tag says which entries are posted and not reclaimed.\<close>

lemma window_upper:
  assumes inv: "net_inv s" and l: "qh (n_cq s) \<le> l" "l < qN (n_cq s)"
  shows "cpl_phase (n_mem s ! l) = q_phase (n_cq s) \<longleftrightarrow> l \<in> fst ` set (ring_abs (posted s) (n_cq s))"
proof -
  let ?h = "qh (n_cq s)" and ?N = "qN (n_cq s)"
  note f = net_inv_facts [OF inv]
  have two: "n_phase s = 0 \<or> n_phase s = 1" and w: "posted s = gap ?N ?h (n_tail s)"
    using inv by (simp_all add: net_inv_def posted_def)
  have "cpl_phase (n_mem s ! l) = q_phase (n_cq s) \<longleftrightarrow> (if ?h \<le> n_tail s then l < n_tail s else True)"
    using inv l two by (auto simp: net_inv_def)
  also have "\<dots> \<longleftrightarrow> l - ?h < posted s"
    using l f(7,8) by (auto simp: w gap_eq)
  also have "\<dots> \<longleftrightarrow> l \<in> fst ` set (ring_abs (posted s) (n_cq s))"
  proof
    assume "l - ?h < posted s"
    moreover have "slot_at (n_cq s) (l - ?h) = l" using l by (simp add: slot_at_def)
    ultimately show "l \<in> fst ` set (ring_abs (posted s) (n_cq s))" by (force simp: ring_abs_def)
  next
    assume "l \<in> fst ` set (ring_abs (posted s) (n_cq s))"
    then obtain j where j: "j < posted s" "l = slot_at (n_cq s) j" by (auto simp: ring_abs_def)
    moreover have "slot_at (n_cq s) (l - ?h) = l" using l by (simp add: slot_at_def)
    ultimately have "l - ?h = j"
      using slot_at_inj [of "n_cq s" "l - ?h" j] l f(10) by simp
    with j show "l - ?h < posted s" by simp
  qed
  finally show ?thesis .
qed

lemma view_slot: "(l, e, d) \<in> set (cq_view s) \<longleftrightarrow> (l, d) \<in> set (ring_abs (posted s) (n_cq s)) \<and> e = n_mem s ! l"
  by (auto simp: cq_view_def)

lemma view_slot_less: "net_inv s \<Longrightarrow> (l, e, d) \<in> set (cq_view s) \<Longrightarrow> l < qN (n_cq s)"
  using slot_at_less net_inv_facts(4) by (auto simp: view_slot ring_abs_def)

lemma view_head: "net_inv s \<Longrightarrow> cq_view s \<noteq> [] \<Longrightarrow> fst (hd (cq_view s)) = qh (n_cq s)"
  using slot_at_0 [OF net_inv_facts(4)]
  by (cases "posted s") (simp_all add: cq_view_def ring_abs_Suc, simp add: ring_abs_def)

lemma small_index: "l < 4096 \<Longrightarrow> unat (of_nat l :: s32) = l"
  by (simp add: unat_of_nat)

definition poll_sound :: "admin_net \<Rightarrow> u16 \<Rightarrow> s32 \<Rightarrow> bool" where
  "poll_sound s cid r \<longleftrightarrow>
     (if r = - 1 then \<forall>(l, e, d) \<in> set (cq_view s). qh (n_cq s) \<le> l \<longrightarrow> cpl_cid e \<noteq> ucast cid
      else \<exists>e d. (unat r, e, d) \<in> set (cq_view s) \<and> cpl_cid e = ucast cid)"

lemma net_poll:
  assumes inv: "net_inv s"
  shows "\<exists>r. admin_cq_poll (n_aqp s) cid = Inr (n_aqp s, r) \<and> poll_sound s cid r"
proof -
  let ?q = "n_cq s" and ?P = "\<lambda>l. cpl_match (n_cq s) cid (n_mem s ! l)"
  note f = net_inv_facts [OF inv]
  note run = cq_poll_find [OF f(1,2), of cid]
  show ?thesis
  proof (cases "List.find ?P [qh ?q..<qN ?q]")
    case None
    have "cpl_cid e \<noteq> ucast cid" if "(l, e, d) \<in> set (cq_view s)" "qh ?q \<le> l" for l e d
    proof -
      have "l < qN ?q" "l \<in> fst ` set (ring_abs (posted s) ?q)" "e = n_mem s ! l"
        using that(1) view_slot_less [OF inv] by (force simp: view_slot)+
      with None that(2) window_upper [OF inv] show ?thesis
        by (auto simp: find_None_iff cpl_match_def)
    qed
    with run None show ?thesis by (auto simp: poll_sound_def)
  next
    case (Some l)
    then have l: "qh ?q \<le> l" "l < qN ?q" "?P l" by (auto simp: find_Some_iff)
    then have "l \<in> fst ` set (ring_abs (posted s) ?q)" using window_upper [OF inv] by (simp add: cpl_match_def)
    then obtain d where "(l, n_mem s ! l, d) \<in> set (cq_view s)" by (force simp: view_slot)
    with l run Some f(6) small_not_minus_1 [of l] small_index [of l] show ?thesis
      by (auto simp: cpl_match_def poll_sound_def simp del: of_nat_unat)
  qed
qed

subsection \<open>The steps\<close>

lemma enqueue_frame:
  assumes "admin_enqueue_command a c = Inr (a', c', r)"
  shows "a_cq a' = a_cq a" "a_cq_mem a' = a_cq_mem a" "\<not> a_lock a'" "q_db (a_sq a') = q_db (a_sq a)"
    and "a = n_aqp s \<Longrightarrow> q_db (n_cq s) \<noteq> q_db (a_sq a) \<Longrightarrow> db_after s a' = n_db s"
  using assms
  by (auto simp: admin_enqueue_command_def aqp_lock_def aqp_unlock_def Let_def db_after_def
      split: if_splits option.splits)

lemma finished_frame:
  "a_cq (finished a l) = a_cq a" "a_cq_mem (finished a l) = a_cq_mem a" "a_lock (finished a l) = a_lock a"
  "q_db (a_sq (finished a l)) = q_db (a_sq a)" "a_log (finished a l) = a_log a"
  by (simp_all add: finished_def Let_def)

text \<open>Reclaiming a slot that is held.\<close>

lemma net_reclaim_runs:
  assumes inv: "net_inv s" and l: "l \<in> n_held s"
  obtains a' where "admin_cq_mark_cleanup (n_aqp s) (of_nat l) = Inr a'"
    and "q_qs (a_cq a') = q_qs (n_cq s)" and "net_inv ((host_does a' s)\<lparr>n_held := n_held s - {l}\<rparr>)"
    and "cq_view ((host_does a' s)\<lparr>n_held := n_held s - {l}\<rparr>) =
      dropWhile (\<lambda>(l', e, d). d) (map (\<lambda>(l', e, d). (l', e, d \<or> l' = l)) (cq_view s))"
proof -
  let ?q = "n_cq s" and ?N = "qN (n_cq s)" and ?h = "qh (n_cq s)"
  note f = net_inv_facts [OF inv]
  define k where "k = length (takeWhile snd (mark_done l (ring_abs (posted s) ?q)))"
  have held: "(l', False) \<in> set (ring_abs (posted s) ?q)" if "l' \<in> n_held s" for l'
    using inv that by (auto simp: net_inv_def)
  then have "l \<in> fst ` set (ring_abs (posted s) ?q)" using l by force
  from cq_cleanup_runs [OF f(1,3,10) this k_def] obtain a' where
    run: "admin_cq_mark_cleanup (n_aqp s) (of_nat l) = Inr a'"
    and ring: "ring_abs (posted s - k) (a_cq a') = finish l (ring_abs (posted s) ?q)" "ring_ok (posted s - k) (a_cq a')"
    and head: "qh (a_cq a') = (?h + k) mod ?N"
    and phase: "q_phase (a_cq a') = (if ?h + k < ?N then q_phase ?q else flip (q_phase ?q))"
    and log: "a_log a' = a_log (n_aqp s) @ (if k = 0 then [] else [Doorbell (q_db ?q) (ucast (q_head (a_cq a')))])"
    and k: "k \<le> posted s" and same: "q_qs (a_cq a') = q_qs ?q" "q_db (a_cq a') = q_db ?q"
      "a_cq_mem a' = n_mem s" "\<not> a_lock a'"
    by blast
  let ?s = "(host_does a' s)\<lparr>n_held := n_held s - {l}\<rparr>"
  have w: "posted ?s = posted s - k"
    using gap_from [OF f(7,8)] k by (simp add: posted_def same head)
  have seen: "n_seen s < ?N" "gap ?N (n_seen s) ?h + posted s < ?N" using inv by (simp_all add: net_inv_def)
  have "gap ?N (n_seen s) (qh (a_cq a')) = gap ?N (n_seen s) ?h + k"
    using gap_to [OF seen(1) f(7)] seen(2) k by (simp add: head)
  then have room: "gap ?N (n_seen s) (qh (a_cq a')) + posted ?s < ?N" using seen(2) k w by simp
  have less: "qh (a_cq a') < ?N" using head f(7) by simp
  have cut: "unat (ucast (q_head (a_cq a')) :: u32) = qh (a_cq a')" using less f(6) by (simp add: unat_ucast_mod)
  have still: "k = 0 \<Longrightarrow> qh (a_cq a') = ?h" using head f(7) by simp
  have "n_db s = ?h" using inv by (simp add: net_inv_def)
  then have db: "db_after s a' = qh (a_cq a')"
    using still by (cases "k = 0") (simp_all add: db_after_def log cut)
  have "k \<le> gap ?N ?h (n_tail s)" using k by (simp add: posted_def)
  from lap_phase [OF f(7,8) this, of "n_phase s" "q_phase ?q"] inv
  have ph: "q_phase (a_cq a') = (if qh (a_cq a') \<le> n_tail s then n_phase s else flip (n_phase s))"
    by (simp add: head phase net_inv_def)
  have sq: "q_db (a_sq a') = q_db (a_sq (n_aqp s))" using cq_cleanup_frame(1) [OF run] by simp
  have wf: "cq_wf a'"
    using f(2,5,9) ring(2) phase inv by (auto simp: cq_wf_def ring_ok_def same)
  have "(l', False) \<in> set (ring_abs (posted s - k) (a_cq a'))" if "l' \<in> n_held s - {l}" for l'
    using finish_keeps held that by (auto simp: ring(1))
  then have new: "net_inv ?s"
    using inv room less db ph sq wf ring(2) w by (simp add: net_inv_def same)
  show thesis
    by (rule that [OF run same(1) new]) (simp add: cq_view_def w ring(1) same finish_view)
qed

text \<open>Posting: by what it has seen of the head the controller never runs into it.\<close>

lemma net_room:
  assumes inv: "net_inv s" and room: "(n_tail s + 1) mod qN (n_cq s) \<noteq> n_seen s"
  shows "gap (qN (n_cq s)) (n_seen s) (qh (n_cq s)) + posted s + 1 < qN (n_cq s)"
proof (rule ccontr)
  let ?N = "qN (n_cq s)" and ?lag = "gap (qN (n_cq s)) (n_seen s) (qh (n_cq s))"
  note f = net_inv_facts [OF inv]
  assume full: "\<not> ?lag + posted s + 1 < ?N"
  have seen: "n_seen s < ?N" "?lag + posted s < ?N" using inv by (simp_all add: net_inv_def)
  have "n_tail s = ((n_seen s + ?lag) mod ?N + posted s) mod ?N"
    using gap_add [OF f(7,8)] gap_add [OF seen(1) f(7)] by (simp add: posted_def)
  then have "(n_tail s + 1) mod ?N = (n_seen s + (?lag + posted s + 1)) mod ?N"
    by (simp add: mod_simps add.assoc)
  also have "?lag + posted s + 1 = ?N" using full seen(2) by simp
  finally show False using room seen(1) by simp
qed

lemma net_post_keeps:
  assumes inv: "net_inv s" and room: "(n_tail s + 1) mod qN (n_cq s) \<noteq> n_seen s" and e: "cpl_phase e = n_phase s"
  shows "net_inv (dev_post e s)" and "cq_view (dev_post e s) = cq_view s @ [(n_tail s, e, False)]"
    and "posted s < qN (n_cq s) - 1"
proof -
  let ?q = "n_cq s" and ?N = "qN (n_cq s)" and ?w = "posted s" and ?s = "dev_post e s"
  note f = net_inv_facts [OF inv]
  have more: "gap ?N (n_seen s) (qh ?q) + ?w + 1 < ?N" by (rule net_room [OF inv room])
  then show "?w < ?N - 1" by simp
  have a: "n_cq ?s = ?q" "n_mem ?s = (n_mem s)[n_tail s := e]" "n_tail ?s = (n_tail s + 1) mod ?N"
    "n_phase ?s = (if n_tail s + 1 = ?N then flip (n_phase s) else n_phase s)"
    by (simp_all add: dev_post_def)
  have w: "posted ?s = Suc ?w"
    using gap_to [OF f(7,8), of 1] more by (simp add: posted_def a)
  have free: "q_mark ?q ! n_tail s = 0"
    using f(3,10,11) unfolding ring_ok_def by force
  have abs: "ring_abs (Suc ?w) ?q = ring_abs ?w ?q @ [(n_tail s, False)]"
    by (simp add: ring_abs_snoc f(11) free)
  have old: "(n_mem s)[n_tail s := e] ! l = n_mem s ! l" if "(l, d) \<in> set (ring_abs ?w ?q)" for l d
    using slot_at_notin [OF f(10)] that f(11) by (subst nth_list_update_neq) force+
  show "cq_view ?s = cq_view s @ [(n_tail s, e, False)]"
    using f(8,9) by (auto simp: cq_view_def w a abs intro: old)
  have two: "n_phase s = 0 \<or> n_phase s = 1" and tags: "\<forall>l < ?N. cpl_phase (n_mem s ! l) =
      (if l < n_tail s then n_phase s else flip (n_phase s))" using inv by (simp_all add: net_inv_def)
  have t: "n_tail ?s = (if n_tail s + 1 = ?N then 0 else n_tail s + 1)" using f(8) by (simp add: a mod_if)
  have "cpl_phase (n_mem ?s ! l) = (if l < n_tail ?s then n_phase ?s else flip (n_phase ?s))" if "l < ?N" for l
    using that tags two e f(8,9) unfolding t by (auto simp: a nth_list_update)
  moreover have "q_phase ?q = (if qh ?q \<le> n_tail ?s then n_phase ?s else flip (n_phase ?s))"
  proof -
    have "q_phase ?q = (if qh ?q \<le> n_tail s then n_phase s else flip (n_phase s))"
      using inv by (simp add: net_inv_def)
    moreover have "n_tail s + 1 = ?N \<Longrightarrow> 0 < qh ?q" "qh ?q \<noteq> n_tail s + 1"
      using more f(7,8) by (auto simp: posted_def gap_eq split: if_splits)
    ultimately show ?thesis using two f(7,8) unfolding t by (auto simp: a)
  qed
  moreover have "ring_ok (Suc ?w) ?q" using f(3) more by (auto simp: ring_ok_def)
  moreover have "n_tail ?s < ?N" "n_phase ?s = 0 \<or> n_phase ?s = 1" "cq_wf (n_aqp ?s)"
    using f(2,5,7) by (simp_all add: a cq_wf_def) (use two in auto)
  moreover have "a_lock (n_aqp ?s) = a_lock (n_aqp s)" "n_db ?s = n_db s"
    "a_sq (n_aqp ?s) = a_sq (n_aqp s)" "n_seen ?s = n_seen s" "n_held ?s = n_held s"
    by (simp_all add: dev_post_def)
  ultimately show "net_inv ?s"
    using inv more unfolding net_inv_def w a(1) by (simp add: abs)
qed

text \<open>
  Every step keeps the invariant and the sizes of the rings, is a step of the queue of completions or none,
  and is a run of the submission side.
\<close>

abbreviation all_inv :: "admin_net \<Rightarrow> bool" where
  "all_inv s \<equiv> net_inv s \<and> sq_inv (n_aqp s)"

lemma net_step_host:
  assumes "net_step s s'"
  shows "host_step\<^sup>*\<^sup>* (n_aqp s) (n_aqp s')"
  using assms
proof cases
  case (net_post e)
  then show ?thesis using device [of "n_aqp s" "(n_mem s)[n_tail s := e]"] by (simp add: dev_post_def)
qed (auto intro: host_step.intros)

lemma net_step_refines:
  assumes step: "net_step s s'" and inv: "net_inv s" and sq: "sq_inv (n_aqp s)"
  shows "net_inv s' \<and> qN (n_cq s') = qN (n_cq s)
    \<and> (cq_view s' = cq_view s \<or> cpl_step (qN (n_cq s)) (cq_view s) (cq_view s'))"
  using step
proof cases
  case (net_submit c a' c' r)
  have "q_db (n_cq s) \<noteq> q_db (a_sq (n_aqp s))" using inv by (auto simp: net_inv_def)
  with net_frame [OF inv, of a'] enqueue_frame [OF net_submit(3)] net_submit(1) show ?thesis by simp
next
  case (net_finish loc a')
  then have a': "a' = finished (n_aqp s) loc" using finish_runs(1) [OF sq] by simp
  with net_frame [OF inv, of a'] net_finish(1) inv show ?thesis
    by (simp add: finished_frame net_inv_def db_after_same)
next
  case (net_take cid a' r)
  then have s': "s' = s\<lparr>n_held := insert (unat r) (n_held s)\<rparr>" and r: "poll_sound s cid r"
    using net_poll [OF inv, of cid] by (auto simp: host_does_def db_after_same)
  obtain d where "(unat r, d) \<in> set (ring_abs (posted s) (n_cq s))"
    using r net_take(3) by (auto simp: poll_sound_def view_slot)
  with net_take(5) have "(unat r, False) \<in> set (ring_abs (posted s) (n_cq s))"
    by (auto simp: ring_abs_def)
  with inv show ?thesis by (simp add: s' net_inv_def posted_def cq_view_def)
next
  case (net_reclaim l a')
  obtain a'' where "admin_cq_mark_cleanup (n_aqp s) (of_nat l) = Inr a''"
    "q_qs (a_cq a'') = q_qs (n_cq s)" "net_inv ((host_does a'' s)\<lparr>n_held := n_held s - {l}\<rparr>)"
    "cq_view ((host_does a'' s)\<lparr>n_held := n_held s - {l}\<rparr>) =
      dropWhile (\<lambda>(l', e, d). d) (map (\<lambda>(l', e, d). (l', e, d \<or> l' = l)) (cq_view s))"
    by (rule net_reclaim_runs [OF inv net_reclaim(2)])
  moreover have "(l, n_mem s ! l, False) \<in> set (cq_view s)"
    using inv net_reclaim(2) by (simp add: net_inv_def view_slot)
  ultimately show ?thesis using net_reclaim f_finish by fastforce
next
  case (net_post e)
  note keeps = net_post_keeps [OF inv net_post(2,3)]
  note f = net_inv_facts [OF inv]
  have view: "cq_view s \<noteq> [] \<longrightarrow> n_tail s = (fst (last (cq_view s)) + 1) mod qN (n_cq s)"
    using slot_after_last [of "posted s" "n_cq s"] f(11) by (auto simp: cq_view_def last_map split_beta)
  have "fst ` set (cq_view s) = fst ` set (ring_abs (posted s) (n_cq s))" by (force simp: cq_view_def)
  then have "n_tail s \<notin> fst ` set (cq_view s)" using slot_at_notin [OF f(10)] f(11) by simp
  with keeps(3) f(8) view have "cpl_step (qN (n_cq s)) (cq_view s) (cq_view s @ [(n_tail s, e, False)])"
    by (intro f_append) (simp_all add: cq_view_def)
  with keeps net_post(1) show ?thesis by (simp add: dev_post_def)
next
  case net_see
  with inv net_inv_facts(7,10) [OF inv] show ?thesis by (simp add: net_inv_def posted_def cq_view_def)
qed

interpretation net: simulation net_step "\<lambda>s. all_inv s \<and> qN (n_cq s) = n" cq_view "cpl_step n" for n
proof
  fix s s' assume step: "net_step s s'" and inv: "all_inv s \<and> qN (n_cq s) = n"
  have "sq_inv (n_aqp s')"
    using sub.run_keeps [OF net_step_host [OF step]] inv by blast
  then show "all_inv s' \<and> qN (n_cq s') = n" and "cq_view s' = cq_view s \<or> cpl_step n (cq_view s) (cq_view s')"
    using net_step_refines [OF step] inv by auto
qed

subsection \<open>Properties\<close>

text \<open>
  An idle pair with a controller that is in step with it. What the controller has seen of the head may be old.
\<close>

definition net_start :: "admin_net \<Rightarrow> bool" where
  "net_start s \<longleftrightarrow> idle (n_aqp s) \<and> q_db (a_sq (n_aqp s)) \<noteq> q_db (n_cq s)
     \<and> n_tail s = qh (n_cq s) \<and> n_phase s = q_phase (n_cq s) \<and> n_db s = qh (n_cq s)
     \<and> n_seen s < qN (n_cq s) \<and> n_held s = {}"

lemma net_start_inv:
  assumes "net_start s"
  shows "all_inv s" and "cq_view s = []" and "sq_view (n_aqp s) = []"
proof -
  have h: "qh (n_cq s) < qN (n_cq s)" and w: "posted s = 0"
    using assms by (auto simp: net_start_def idle_def cq_quiet_def cq_wf_def ring_wf_def posted_def)
  then show "all_inv s"
    using assms gap_less [of "qN (n_cq s)" "n_seen s" "qh (n_cq s)"]
    by (auto simp: net_start_def idle_def net_inv_def cq_quiet_def sq_inv_def cq_wf_def)
  show "cq_view s = []" "sq_view (n_aqp s) = []"
    using assms w view_slots(2) [of "n_aqp s"] by (simp_all add: cq_view_def ring_abs_def net_start_def idle_def)
qed

lemma net_reach_inv: "net_step\<^sup>*\<^sup>* s0 s \<Longrightarrow> net_start s0 \<Longrightarrow> all_inv s"
  using net.run_keeps net_start_inv(1) by blast

text \<open>
  The pair that admin_init leaves is one to start from: its two doorbells are different registers, whatever
  the stride. Its completion doorbell holds the head, as the driver last wrote it.
\<close>

definition started :: "aqp \<Rightarrow> admin_net" where
  "started a = \<lparr>n_aqp = a, n_tail = qh (a_cq a), n_phase = q_phase (a_cq a), n_db = qh (a_cq a),
     n_seen = qh (a_cq a), n_held = {}\<rparr>"

lemma started_start:
  assumes "idle a" and "q_db (a_sq a) \<noteq> q_db (a_cq a)"
  shows "net_start (started a)"
  using assms by (auto simp: net_start_def started_def idle_def cq_quiet_def cq_wf_def ring_wf_def)

lemma stride_nonzero: "(ucast (push_bit (unat (cap_dstrd M)) 4 :: u32) :: u64) \<noteq> 0"
proof -
  define d where "d = unat (cap_dstrd M)"
  have "unat (RDBITS (ucast (m_cap M 1)) 3 0) < 16" using RDBITS_less [of 0 3 "ucast (m_cap M 1)"] by simp
  then have "d < 16" by (simp add: d_def cap_dstrd_def unat_ucast_mod)
  then have "(2 :: nat) ^ d \<le> 2 ^ 15" by (intro power_increasing) simp_all
  then have "unat (push_bit d 4 :: u32) = 4 * 2 ^ d"
    by (simp only: unsigned_push_bit_eq) (simp add: push_bit_eq_mult take_bit_eq_mod)
  then have "unat (ucast (push_bit d 4 :: u32) :: u64) \<noteq> 0" by (simp add: word_nat)
  then show ?thesis unfolding d_def by auto
qed

lemma init_net_start:
  assumes "init_ok M I" and "I (h_dev h)" and "valid L host_list"
  shows "\<exists>r. admin_init M reg_addr host_list h L = Some (Inr r) \<and> net_start (started (h_aqp (d_host r)))"
proof (rule admin_init_runs [OF assms])
  fix r
  assume run: "admin_init M reg_addr host_list h L = Some (Inr r)" "host_ready (m_world M) I (d_host r)"
    and db: "q_db (a_sq (h_aqp (d_host r))) = reg_addr + 0x1000"
    "q_db (a_cq (h_aqp (d_host r))) = reg_addr + 0x1000 + ucast (push_bit (unat (h_dstrd (d_host r))) 4 :: u32)"
    "h_dstrd (d_host r) = cap_dstrd M"
  have "net_start (started (h_aqp (d_host r)))"
    by (rule started_start) (use run(2) db stride_nonzero [of M] in \<open>simp_all add: host_ready_def\<close>)
  with run(1) show ?thesis by blast
qed

text \<open>
  C2. Host threads and the controller on both rings, from an idle pair on, in any order, where no completion
  is taken twice: a poll always returns; when it finds something, it is a completion the controller has
  posted and nobody has reclaimed, with the id asked for, never an entry of an earlier lap; when it
  finds nothing, no such completion lies between the head and the end of the ring. Whatever a
  thread has taken is still there, and reclaiming it succeeds. The completions between head and the controller's tail are a
  state that a queue of fewer than n completions can get to, so the controller overwrites nothing that is not
  reclaimed, however old the head it has seen; at the same time the commands are a state of their queue.
\<close>

theorem admin_net_safety:
  assumes "net_step\<^sup>*\<^sup>* s0 s" and "net_start s0"
  shows "(\<forall>cid. \<exists>r. admin_cq_poll (n_aqp s) cid = Inr (n_aqp s, r) \<and> poll_sound s cid r)
    \<and> (\<forall>l \<in> n_held s. (\<exists>e. (l, e, False) \<in> set (cq_view s))
         \<and> (\<exists>a'. admin_cq_mark_cleanup (n_aqp s) (of_nat l) = Inr a'))
    \<and> (cpl_step (qN (n_cq s0)))\<^sup>*\<^sup>* [] (cq_view s)
    \<and> (queue_step (qN (a_sq (n_aqp s0))))\<^sup>*\<^sup>* [] (sq_view (n_aqp s))"
proof -
  note start = net_start_inv [OF assms(2)]
  have inv: "net_inv s" using net_reach_inv [OF assms] by simp
  have "(cpl_step (qN (n_cq s0)))\<^sup>*\<^sup>* [] (cq_view s)"
    using net.run_simulated [OF assms(1)] start(1) unfolding start(2) [symmetric] by blast
  moreover have "reachable_from (n_aqp s0) (n_aqp s)"
    by (rule run_projects [of net_step host_step n_aqp, OF net_step_host assms(1)])
  then have "(queue_step (qN (a_sq (n_aqp s0))))\<^sup>*\<^sup>* [] (sq_view (n_aqp s))"
    using sub.run_simulated start(1) unfolding start(3) [symmetric] by blast
  moreover have "(\<exists>e. (l, e, False) \<in> set (cq_view s)) \<and> (\<exists>a'. admin_cq_mark_cleanup (n_aqp s) (of_nat l) = Inr a')"
    if held: "l \<in> n_held s" for l
  proof -
    obtain a' where "admin_cq_mark_cleanup (n_aqp s) (of_nat l) = Inr a'" by (rule net_reclaim_runs [OF inv held])
    moreover have "(l, n_mem s ! l, False) \<in> set (cq_view s)" using inv held by (simp add: net_inv_def view_slot)
    ultimately show ?thesis by blast
  qed
  ultimately show ?thesis using net_poll [OF inv] by blast
qed


subsection \<open>A run with two commands\<close>

text \<open>
  A ring of four. Two commands are submitted, with ids 0 and 1; the controller completes both; the second thread
  takes its completion, finishes its command and reclaims the completion. The first thread has not polled yet.
\<close>

definition blank_net :: admin_net where
  "blank_net = \<lparr>n_aqp = blank_aqp 4, n_tail = 0, n_phase = 1, n_db = 0, n_seen = 0, n_held = {}\<rparr>"

lemma blank_net_start: "net_start blank_net"
proof -
  have "idle (blank_aqp 4)" by (rule blank_idle) simp_all
  then show ?thesis by (simp add: net_start_def blank_net_def) (simp add: blank_aqp_def blank_queue_def)
qed

definition two_sent :: aqp where
  "two_sent = enqueued one_in_flight 1 zero_cmd"

lemma enqueue_least:
  assumes "sq_inv a" and "sq_count (a_sq a) \<noteq> qN (a_sq a) - 1"
    and "q_cid (a_sq a) ! i = 0" and "\<forall>j < i. q_cid (a_sq a) ! j \<noteq> 0"
  shows "admin_enqueue_command a c = Inr (enqueued a i c, with_cid i c, of_nat (qt (a_sq a)))"
proof -
  obtain i' where i': "q_cid (a_sq a) ! i' = 0" "\<forall>j < i'. q_cid (a_sq a) ! j \<noteq> 0"
    "admin_enqueue_command a c = Inr (enqueued a i' c, with_cid i' c, of_nat (qt (a_sq a)))"
    using enqueue_accepts [OF assms(1,2)] by blast
  have "i' = i" using i'(1,2) assms(3,4) by (metis linorder_neqE_nat)
  with i'(3) show ?thesis by simp
qed

lemma two_sent:
  "sq_view two_sent = [(0, 0, False), (1, 1, False)]" "sq_inv two_sent"
  "admin_enqueue_command one_in_flight zero_cmd = Inr (two_sent, with_cid 1 zero_cmd, 1)"
  "a_cq two_sent = a_cq (blank_aqp 4)" "a_cq_mem two_sent = a_cq_mem (blank_aqp 4)"
  "q_cid (a_sq two_sent) = (replicate MAX_CMD 0)[0 := 1, 1 := 1]" "qN (a_sq two_sent) = 4" "cid_at two_sent 1 = 1"
proof -
  note inv = one_in_flight(1)
  have c: "q_tail (a_sq one_in_flight) = 1" "qN (a_sq one_in_flight) = 4"
    "q_cid (a_sq one_in_flight) = (replicate MAX_CMD 0)[0 := 1]"
    by (simp_all add: one_in_flight_def enqueued_def blank_aqp_def blank_queue_def Let_def)
  have v1: "sq_view one_in_flight = [(0, cid_at one_in_flight 0, False)]" by (simp add: sq_view_def one_in_flight(2))
  have "sq_count (a_sq one_in_flight) = 1" using view_slots(2) [of one_in_flight] v1 by simp
  then have room: "sq_count (a_sq one_in_flight) \<noteq> qN (a_sq one_in_flight) - 1" by (simp add: c)
  have free: "q_cid (a_sq one_in_flight) ! 1 = 0" "\<forall>j < 1. q_cid (a_sq one_in_flight) ! j \<noteq> 0"
    by (simp_all add: c MAX_CMD_def)
  from enqueue_least [OF inv room free, of zero_cmd]
  show "admin_enqueue_command one_in_flight zero_cmd = Inr (two_sent, with_cid 1 zero_cmd, 1)"
    by (simp add: two_sent_def c)
  have "cid_at one_in_flight 0 = cmd_cid (with_cid 0 zero_cmd)"
    by (simp add: cid_at_def one_in_flight_def enqueued_def Let_def blank_aqp_def blank_queue_def)
  then have "cid_at one_in_flight 0 = 0" using with_cid_cid [OF zero_cmd_plain, of 0] by simp
  with v1 enqueued_view [OF inv room zero_cmd_plain _ free(1)] c
  show v: "sq_view two_sent = [(0, 0, False), (1, 1, False)]" "sq_inv two_sent"
    by (simp_all add: two_sent_def MAX_CMD_def)
  have "(1, 1, False) \<in> set (sq_view two_sent)" by (simp add: v)
  then show "cid_at two_sent 1 = 1" by (simp only: view_live)
  show "a_cq two_sent = a_cq (blank_aqp 4)" "a_cq_mem two_sent = a_cq_mem (blank_aqp 4)"
    "q_cid (a_sq two_sent) = (replicate MAX_CMD 0)[0 := 1, 1 := 1]" "qN (a_sq two_sent) = 4"
    using c by (simp_all add: two_sent_def one_in_flight_def enqueued_def Let_def)
qed

definition both_posted :: admin_net where
  "both_posted = dev_post (done_cpl 0 0x10001) (dev_post (done_cpl 0 0x10000) (host_does two_sent (host_does one_in_flight blank_net)))"

lemma both_posted:
  "net_step\<^sup>*\<^sup>* blank_net both_posted"
  "cq_view both_posted = [(0, done_cpl 0 0x10000, False), (1, done_cpl 0 0x10001, False)]"
  "a_sq (n_aqp both_posted) = a_sq two_sent" "n_cq both_posted = a_cq (blank_aqp 4)" "n_held both_posted = {}" "sq_view (n_aqp both_posted) = sq_view two_sent"
  "cid_at (n_aqp both_posted) = cid_at two_sent"
proof -
  let ?e = "done_cpl 0 0x10000" and ?e' = "done_cpl 0 0x10001"
  let ?s1 = "host_does one_in_flight blank_net" and ?s2 = "host_does two_sent (host_does one_in_flight blank_net)"
  have b: "n_aqp blank_net = blank_aqp 4" by (simp add: blank_net_def)
  note start = net_start_inv [OF blank_net_start]
  have "sq_count (a_sq (blank_aqp 4)) \<noteq> qN (a_sq (blank_aqp 4)) - 1" "q_cid (a_sq (blank_aqp 4)) ! 0 = 0"
    by (simp_all add: blank_aqp_def blank_queue_def sq_count_def MAX_CMD_def)
  from enqueue_least [of "blank_aqp 4", OF _ this] start(1) b
  have "admin_enqueue_command (n_aqp blank_net) zero_cmd = Inr (one_in_flight, with_cid 0 zero_cmd, of_nat (qt (a_sq (blank_aqp 4))))"
    by (simp add: one_in_flight_def)
  from net_submit [OF zero_cmd_plain this] have r1: "net_step blank_net ?s1" .
  moreover from net_submit [OF zero_cmd_plain, of ?s1] two_sent(3) have r2: "net_step ?s1 ?s2" by simp
  ultimately have run2: "net_step\<^sup>*\<^sup>* blank_net ?s2" by (rule converse_rtranclp_into_rtranclp [OF _ r_into_rtranclp])
  then have inv: "net_inv ?s2" using net_reach_inv blank_net_start by blast
  have view: "cq_view ?s2 = []"
    by (simp add: cq_view_def posted_def blank_net_def two_sent(4))
      (simp add: blank_aqp_def blank_queue_def gap_def ring_abs_def)
  have st: "n_tail ?s2 = 0" "n_phase ?s2 = 1" "n_seen ?s2 = 0" "qN (n_cq ?s2) = 4"
    by (simp_all add: blank_net_def two_sent(4)) (simp add: blank_aqp_def blank_queue_def)
  have ph: "cpl_phase ?e = 1" "cpl_phase ?e' = 1" by (simp_all add: cpl_phase_def done_cpl_def)
  have p1: "(n_tail ?s2 + 1) mod qN (n_cq ?s2) \<noteq> n_seen ?s2" "cpl_phase ?e = n_phase ?s2"
    unfolding st ph by simp_all
  note k1 = net_post_keeps [OF inv p1] and r3 = net_step.net_post [OF p1]
  let ?s3 = "dev_post ?e ?s2"
  have st3: "n_tail ?s3 = 1" "n_phase ?s3 = 1" "n_seen ?s3 = 0" "qN (n_cq ?s3) = 4"
    using st by (simp_all add: dev_post_def)
  have p2: "(n_tail ?s3 + 1) mod qN (n_cq ?s3) \<noteq> n_seen ?s3" "cpl_phase ?e' = n_phase ?s3"
    unfolding st3 ph by simp_all
  note k2 = net_post_keeps [OF k1(1) p2] and r4 = net_step.net_post [OF p2]
  show "cq_view both_posted = [(0, ?e, False), (1, ?e', False)]"
    unfolding both_posted_def k2(2) k1(2) view st st3 by simp
  show "net_step\<^sup>*\<^sup>* blank_net both_posted"
    using run2 r3 r4 unfolding both_posted_def by (meson rtranclp.rtrancl_into_rtrancl)
  show "a_sq (n_aqp both_posted) = a_sq two_sent" "n_cq both_posted = a_cq (blank_aqp 4)" "n_held both_posted = {}"
    "sq_view (n_aqp both_posted) = sq_view two_sent" "cid_at (n_aqp both_posted) = cid_at two_sent"
    by (simp_all add: both_posted_def dev_post_def blank_net_def sq_view_def sq_ring_def cid_at_def fun_eq_iff two_sent(4))
qed

lemma second_thread_done:
  obtains s where "net_step\<^sup>*\<^sup>* blank_net s"
    and "cq_view s = [(0, done_cpl 0 0x10000, False), (1, done_cpl 0 0x10001, True)]" "qh (n_cq s) = 0"
    and "admin_enqueue_command (n_aqp s) zero_cmd =
      Inr (enqueued (n_aqp s) 1 zero_cmd, with_cid 1 zero_cmd, of_nat (qt (a_sq (n_aqp s))))"
proof -
  let ?s = both_posted and ?a = "n_aqp both_posted" and ?s5 = "both_posted\<lparr>n_held := {1}\<rparr>"
  note b = both_posted
  have inv: "net_inv ?s" "sq_inv ?a" using net_reach_inv [OF b(1) blank_net_start] by simp_all
  have ids: "cpl_cid (done_cpl 0 0x10000) = 0" "cpl_cid (done_cpl 0 0x10001) = 1"
    by (simp_all add: cpl_cid_def done_cpl_def)
  have h: "qh (n_cq ?s) = 0" "q_mark (n_cq ?s) ! 1 = 0" by (simp_all add: b(4)) (simp_all add: blank_aqp_def blank_queue_def)
  obtain r where r: "admin_cq_poll ?a 1 = Inr (?a, r)" "poll_sound ?s 1 r" using net_poll [OF inv(1)] by blast
  then have "r \<noteq> - 1" "unat r = 1" using h ids by (auto simp: poll_sound_def b(2) split: if_splits)
  with net_take [OF r(1)] h(2) b(5) have t5: "net_step ?s ?s5" by (simp add: host_does_def db_after_same)
  have "(1, 1, False) \<in> set (sq_view ?a)" by (simp add: b(6) two_sent(1))
  then have l: "1 \<in> set (live ?a)" by (simp only: view_live)
  let ?f = "finished ?a 1" and ?s6 = "host_does (finished ?a 1) ?s5"
  note fin = finished_inv [OF inv(2) l] and run = finish_runs(1) [OF inv(2) l]
  have t6: "net_step ?s5 ?s6" using net_finish [of 1 ?s5 ?f] l run by simp
  have run6: "net_step\<^sup>*\<^sup>* blank_net ?s6" using b(1) t5 t6 by (meson rtranclp.rtrancl_into_rtrancl)
  have inv6: "net_inv ?s6" "sq_inv ?f" using net_reach_inv [OF run6 blank_net_start] by simp_all
  have v6: "cq_view ?s6 = cq_view ?s" by (simp add: cq_view_def posted_def finished_frame)
  have "1 \<in> n_held ?s6" by simp
  then obtain a7 where a7: "admin_cq_mark_cleanup (n_aqp ?s6) (of_nat 1) = Inr a7"
    "cq_view ((host_does a7 ?s6)\<lparr>n_held := n_held ?s6 - {1}\<rparr>) =
      dropWhile (\<lambda>(l', e, d). d) (map (\<lambda>(l', e, d). (l', e, d \<or> l' = 1)) (cq_view ?s6))"
    by (rule net_reclaim_runs [OF inv6(1)])
  let ?s7 = "(host_does a7 ?s6)\<lparr>n_held := n_held ?s6 - {1}\<rparr>"
  have "net_step ?s6 ?s7" using net_reclaim [of 1 ?s6 a7] a7(1) by simp
  with run6 have run7: "net_step\<^sup>*\<^sup>* blank_net ?s7" by (rule rtranclp.rtrancl_into_rtrancl)
  have v7: "cq_view ?s7 = [(0, done_cpl 0 0x10000, False), (1, done_cpl 0 0x10001, True)]"
    unfolding a7(2) v6 b(2) by simp
  have inv7: "net_inv ?s7" "sq_inv a7" using net_reach_inv [OF run7 blank_net_start] by simp_all
  have sq: "a_sq a7 = a_sq ?f" "sq_view a7 = sq_view ?f"
    using cq_cleanup_frame [OF a7(1)] sq_inv_frame(3) [OF inv6(2)] by simp_all
  have "sq_view ?f = [(0, 0, False), (1, 1, True)]" using fin(3) by (simp add: b(6) two_sent(1))
  then have "sq_count (a_sq a7) = 2" using view_slots(2) [of a7] sq(2) by simp
  moreover have "qN (a_sq a7) = 4" "q_cid (a_sq a7) = (replicate MAX_CMD 0)[0 := 1, 1 := 1, 1 := 0]"
    using two_sent(6,7,8) by (simp_all add: sq(1) finished_def Let_def b(3,7))
  ultimately have enq: "admin_enqueue_command a7 zero_cmd = Inr (enqueued a7 1 zero_cmd, with_cid 1 zero_cmd, of_nat (qt (a_sq a7)))"
    by (intro enqueue_least [OF inv7(2)]) (simp_all add: MAX_CMD_def)
  have "qh (n_cq ?s7) = 0" using view_head [OF inv7(1)] v7 by simp
  with that [OF run7 v7] enq show thesis by simp
qed


theorem admin_net_safety_witness:
  "(\<exists>r. admin_cq_poll (n_aqp both_posted) 1 = Inr (n_aqp both_posted, r) \<and> poll_sound both_posted 1 r)
    \<and> (cpl_step 4)\<^sup>*\<^sup>* [] [(0, done_cpl 0 0x10000, False), (1, done_cpl 0 0x10001, False)]"
proof -
  have "qN (n_cq blank_net) = 4" by (simp add: blank_net_def blank_aqp_def blank_queue_def)
  with admin_net_safety [OF both_posted(1) blank_net_start] show ?thesis by (simp only: both_posted(2))
qed

end
