(* ===== verification/Test_Code.thy ===== *)
theory Test_Code
  imports Kernel
begin

section \<open>The test code (kernel/nvme/ctrl.c, kernel/nvme/bafs\_nvme\_mod.c)\<close>

text \<open>
  What is compiled only with TEST or TEST2: the allocation test in \<open>ctrl_get\<close>, and the calls into NVIDIA's UVM driver,
  \<open>my_uvm_api_initialize\<close> and \<open>test_uvm\<close>.
\<close>

subsection \<open>The allocation test in ctrl\_get\<close>

text \<open>
  Two arrays are allocated at the start of \<open>ctrl_get\<close>, one for DMA addresses and one for pointers. The
  test, between the allocation of the queue pair and the insertion into the list, allocates two buffers of 4 GB, stops at
  the first failure, and frees the buffers it got and the arrays. The arrays' allocation is not tested: with
  no array of pointers the first store faults, with no array of addresses the first successful allocation does.
\<close>

definition TEST_NUM :: nat where
  "TEST_NUM = 2"

definition TEST_SIZE :: u64 where
  "TEST_SIZE = 4 * 1024 * 1024 * 1024"

definition test_arrays :: "mem_api \<Rightarrow> calls \<Rightarrow> addr \<times> addr \<times> calls" where
  "test_arrays api k =
     (let (dma_addrs, k1) = kmalloc api (of_nat TEST_NUM * 8) k;
          (addrs, k2) = kmalloc api (of_nat TEST_NUM * 8) k1
      in (dma_addrs, addrs, k2))"

fun alloc_loop ::
  "mem_api \<Rightarrow> addr \<Rightarrow> addr \<Rightarrow> nat \<Rightarrow> (addr \<times> u64) list \<Rightarrow> calls \<Rightarrow> ((addr \<times> u64) list \<times> calls) res" where
  "alloc_loop api dma_addrs addrs 0 got k = Inr (got, k)"
| "alloc_loop api dma_addrs addrs (Suc n) got k =
     (let (p, b, k1) = dma_alloc_coherent api TEST_SIZE k in
      if addrs = NULL \<or> dma_addrs = NULL \<and> p \<noteq> NULL then Inl NullDeref
      else if p = NULL then Inr (got, k1)
      else alloc_loop api dma_addrs addrs n (got @ [(p, b)]) k1)"

abbreviation dma_frees :: "(addr \<times> u64) list \<Rightarrow> calls" where
  "dma_frees got \<equiv> map (\<lambda>(p, b). DmaFree TEST_SIZE p b) got"

definition alloc_test :: "mem_api \<Rightarrow> addr \<Rightarrow> addr \<Rightarrow> calls \<Rightarrow> calls res" where
  "alloc_test api dma_addrs addrs k =
     bindE (alloc_loop api dma_addrs addrs TEST_NUM [] k) (\<lambda>(got, k1).
     Inr (kfree addrs (kfree dma_addrs (k1 @ dma_frees got))))"

text \<open>With its arrays the test releases what it took, wherever it stops.\<close>

lemma alloc_loop_holds:
  assumes "dma_addrs \<noteq> NULL" and "addrs \<noteq> NULL" and "holds k = Some (R + mset (dma_frees got))"
  shows "\<exists>got' k'. alloc_loop api dma_addrs addrs n got k = Inr (got', k')
    \<and> holds k' = Some (R + mset (dma_frees got'))"
  using assms(3)
proof (induction n arbitrary: got k)
  case (Suc n)
  obtain p b where r: "dma_alloc_result api k TEST_SIZE = (p, b)" by fastforce
  show ?case
  proof (cases "p = NULL")
    case True
    with Suc.prems r assms(1,2) show ?thesis
      by (simp add: dma_alloc_coherent_def holds_append)
  next
    case False
    then have "holds (k @ [DmaAlloc TEST_SIZE p b]) = Some (R + mset (dma_frees (got @ [(p, b)])))"
      using Suc.prems by (simp add: holds_append)
    from Suc.IH [OF this] False r assms(1,2) show ?thesis
      by (simp add: dma_alloc_coherent_def)
  qed
qed simp

lemma alloc_test_balanced:
  assumes "dma_addrs \<noteq> NULL" and "addrs \<noteq> NULL" and "holds k = Some (R + {#Kfree dma_addrs, Kfree addrs#})"
  shows "\<exists>k'. alloc_test api dma_addrs addrs k = Inr k' \<and> holds k' = Some R"
proof -
  let ?R = "R + {#Kfree dma_addrs, Kfree addrs#}"
  obtain got k1 where r: "alloc_loop api dma_addrs addrs TEST_NUM [] k = Inr (got, k1)"
    "holds k1 = Some (?R + mset (dma_frees got))"
    using alloc_loop_holds [OF assms(1,2), of k ?R "[]" api TEST_NUM] assms(3) by auto
  have "holds (k1 @ (dma_frees got @ [Kfree dma_addrs, Kfree addrs])) = Some R"
    by (rule holds_released) (use r(2) assms(1,2) in \<open>auto simp: ac_simps\<close>)
  with r(1) show ?thesis by (simp add: alloc_test_def kfree_def)
qed

lemma test_arrays_hold:
  assumes "holds k = Some R" and "test_arrays api k = (dma_addrs, addrs, k')"
  shows "holds k' = Some (R + (if dma_addrs = NULL then {#} else {#Kfree dma_addrs#})
    + (if addrs = NULL then {#} else {#Kfree addrs#}))"
  using assms by (auto simp: test_arrays_def kmalloc_def Let_def holds_append)

subsection \<open>The UVM calls\<close>

text \<open>
  \<open>my_uvm_api_initialize\<close> is a copy of the initialisation in NVIDIA's UVM driver; \<open>test_uvm\<close> is called when the module
  is loaded and by the ioctl with command 0. NVIDIA's driver and the kernel's file functions are a
  parameter: its status codes and mask of flags, what \<open>uvm_va_space_get\<close> reads from a file, what
  \<open>uvm_hmm_mirror_register\<close> does, what \<open>filp_open\<close> returns. Of a va\_space only the two members are modelled that the code
  uses; taking and giving back the two semaphores is a call in the log.
\<close>

type_synonym nv_status = u32

record va_space =
  va_initialized :: s32
  va_initialization_flags :: u64

datatype uvm_call =
    DownWriteMmapSem | VaSpaceDownWrite addr | HmmMirrorRegister addr
  | VaSpaceUpWrite addr | UpWriteMmapSem | FilpClose addr

record uvm_state =
  u_spaces :: "addr \<Rightarrow> va_space option"
  u_calls :: "uvm_call list"

record uvm_api =
  nv_ok :: nv_status
  nv_err_invalid_argument :: nv_status
  init_flags_mask :: u64
  va_space_get :: "addr \<Rightarrow> addr res"
  hmm_mirror_register :: "addr \<Rightarrow> uvm_state \<Rightarrow> uvm_state \<times> nv_status"
  uvm_filp_open :: addr

definition uvm_log :: "uvm_call list \<Rightarrow> uvm_state \<Rightarrow> uvm_state" where
  "uvm_log cs s = s\<lparr>u_calls := u_calls s @ cs\<rparr>"

definition space_at :: "uvm_state \<Rightarrow> addr \<Rightarrow> va_space res" where
  "space_at s va = (case u_spaces s va of None \<Rightarrow> Inl (BadAccess va) | Some v \<Rightarrow> Inr v)"

definition set_space :: "addr \<Rightarrow> va_space \<Rightarrow> uvm_state \<Rightarrow> uvm_state" where
  "set_space va v s = s\<lparr>u_spaces := (u_spaces s)(va \<mapsto> v)\<rparr>"

definition my_uvm_api_initialize :: "uvm_api \<Rightarrow> u64 \<Rightarrow> addr \<Rightarrow> uvm_state \<Rightarrow> (uvm_state \<times> nv_status) res" where
  "my_uvm_api_initialize U flags filp s =
     bindE (va_space_get U filp) (\<lambda>va.
     if flags AND NOT (init_flags_mask U) \<noteq> 0 then Inr (s, nv_err_invalid_argument U)
     else
       let s1 = uvm_log [DownWriteMmapSem, VaSpaceDownWrite va] s in
       bindE (space_at s1 va) (\<lambda>v.
       bindE
         (if va_initialized v \<noteq> 0
          then Inr (s1, if flags \<noteq> va_initialization_flags v then nv_err_invalid_argument U else nv_ok U)
          else
            let (s2, status) = hmm_mirror_register U va (set_space va (v\<lparr>va_initialization_flags := flags\<rparr>) s1) in
            if status = nv_ok U
            then bindE (space_at s2 va) (\<lambda>v2. Inr (set_space va (v2\<lparr>va_initialized := 1\<rparr>) s2, status))
            else Inr (s2, status))
         (\<lambda>(s3, status). Inr (uvm_log [VaSpaceUpWrite va, UpWriteMmapSem] s3, status))))"

definition test_uvm :: "uvm_api \<Rightarrow> uvm_state \<Rightarrow> uvm_state res" where
  "test_uvm U s =
     (let f = uvm_filp_open U in
      if f \<noteq> NULL then bindE (va_space_get U f) (\<lambda>va. Inr (uvm_log [FilpClose f] s))
      else Inr s)"

text \<open>
  \<open>filp_open\<close> reports an error as an error pointer, never as NULL. The test for NULL lets it through, and what is
  read through that pointer is a fault; the message that the file could not be opened is never printed.
\<close>

lemma test_uvm_open_error:
  assumes "IS_ERR (uvm_filp_open U)" and "\<And>p. IS_ERR p \<Longrightarrow> va_space_get U p = Inl (BadAccess p)"
  shows "test_uvm U s = Inl (BadAccess (uvm_filp_open U))"
proof -
  have "uvm_filp_open U \<noteq> NULL" using assms(1) by auto
  with assms show ?thesis by (simp add: test_uvm_def Let_def)
qed

text \<open>What registering for mirroring may do: it leaves the members that the code sets.\<close>

definition mirror_ok :: "uvm_api \<Rightarrow> bool" where
  "mirror_ok U \<longleftrightarrow> nv_ok U \<noteq> nv_err_invalid_argument U
     \<and> (\<forall>va s. u_spaces (fst (hmm_mirror_register U va s)) = u_spaces s
          \<and> u_calls (fst (hmm_mirror_register U va s)) = u_calls s @ [HmmMirrorRegister va])"

lemmas uvm_defs = my_uvm_api_initialize_def uvm_log_def space_at_def set_space_def

text \<open>The status, the members and the calls of one initialisation, in all its branches.\<close>

lemma uvm_initialize_runs:
  assumes ok: "mirror_ok U" and va: "va_space_get U filp = Inr va" and v: "u_spaces s va = Some v"
    and flags: "flags AND NOT (init_flags_mask U) = 0"
  shows "\<exists>s' st. my_uvm_api_initialize U flags filp s = Inr (s', st)
    \<and> u_spaces s' = (if va_initialized v \<noteq> 0 then u_spaces s else (u_spaces s)(va \<mapsto>
        v\<lparr>va_initialization_flags := flags, va_initialized := (if st = nv_ok U then 1 else 0)\<rparr>))
    \<and> (va_initialized v \<noteq> 0 \<longrightarrow>
        st = (if flags = va_initialization_flags v then nv_ok U else nv_err_invalid_argument U))
    \<and> u_calls s' = u_calls s @ [DownWriteMmapSem, VaSpaceDownWrite va]
        @ (if va_initialized v = 0 then [HmmMirrorRegister va] else []) @ [VaSpaceUpWrite va, UpWriteMmapSem]"
proof (cases "va_initialized v = 0")
  case False
  then show ?thesis by (simp add: uvm_defs va v flags)
next
  case True
  then obtain fl where vv: "v = \<lparr>va_initialized = 0, va_initialization_flags = fl\<rparr>" by (cases v) simp
  let ?s1 = "set_space va (v\<lparr>va_initialization_flags := flags\<rparr>) (uvm_log [DownWriteMmapSem, VaSpaceDownWrite va] s)"
  obtain s2 st where m: "hmm_mirror_register U va ?s1 = (s2, st)" by fastforce
  then have "u_spaces s2 = u_spaces ?s1" "u_calls s2 = u_calls ?s1 @ [HmmMirrorRegister va]"
    using ok by (metis fst_conv mirror_ok_def)+
  with m v show ?thesis by (cases "st = nv_ok U") (simp_all add: uvm_defs va flags vv)
qed


text \<open>A driver with the mask 3 whose registration succeeds.\<close>

definition plain_uvm :: uvm_api where
  "plain_uvm = \<lparr>nv_ok = 0, nv_err_invalid_argument = 0x1f, init_flags_mask = 3,
     va_space_get = (\<lambda>f. if f = 0x1000 then Inr 0x2000 else Inl (BadAccess f)),
     hmm_mirror_register = (\<lambda>va s. (uvm_log [HmmMirrorRegister va] s, 0)), uvm_filp_open = 0x1000\<rparr>"

definition fresh_space :: uvm_state where
  "fresh_space = \<lparr>u_spaces = [0x2000 \<mapsto> \<lparr>va_initialized = 0, va_initialization_flags = 0\<rparr>], u_calls = []\<rparr>"


end
