(* ===== verification/Pair_Faults.thy ===== *)
theory Pair_Faults
  imports Io_Queues
begin

section \<open>I/O queue pairs: failing allocations and concurrent calls (kernel/nvme/admin.c)\<close>

text \<open>
  What admin_create_io_queue_pair does on the branches without success, and what happens
  when two threads delete the same pair at once: the lock is given back between the test of the mark and
  the deletion.
\<close>

subsection \<open>Creation without memory\<close>

lemma claim_pair_none:
  assumes "\<not> a_lock a" and "a_used a \<noteq> a_supported a" and "pair_tables a" and "\<forall>m \<in> set (a_use_mark a). m \<noteq> 0"
  shows "claim_pair a = Inr (a\<lparr>a_used := a_used a + 1\<rparr>, None)"
proof -
  have "take_slot (unat (a_supported a)) (a_use_mark a) = Inr (a_use_mark a, None)"
    using take_slot_spec [of "unat (a_supported a)" "a_use_mark a"] assms(3,4)
    unfolding pair_tables_def by (metis le_refl nth_mem)
  with assms(1,2) show ?thesis
    by (simp add: claim_pair_def aqp_lock_def aqp_unlock_def Let_def)
qed

lemma create_without_struct:
  assumes "\<not> a_lock (h_aqp h)" and "pair_tables (h_aqp h)" and "a_used (h_aqp h) \<noteq> a_supported (h_aqp h)"
    and "first_unused (h_aqp h) i" and "h_qps h NULL = None"
    and "kmalloc_result (w_mem w) (h_calls h) sizeof_queue_pair = NULL"
  shows "admin_create_io_queue_pair w h = Some (Inl NullDeref)"
proof -
  have "i < length (a_io_qp_list (h_aqp h))" using assms(2,4) by (simp add: pair_tables_def first_unused_def)
  with assms(5,6) claim_pair_free [OF assms(1,3,2,4)] show ?thesis
    by (simp add: admin_create_io_queue_pair_def Let_def new_pair_def kmalloc_def make_cq_def qp_upd_def)
qed

lemma create_without_rings:
  assumes "host_ready w I h" and "wf_cmd (w_cmd w)" and "pair_tables (h_aqp h)"
    and "a_used (h_aqp h) \<noteq> a_supported (h_aqp h)" and "first_unused (h_aqp h) i"
    and p: "kmalloc_result (w_mem w) (h_calls h) sizeof_queue_pair = p" "p \<noteq> NULL"
    and no: "\<forall>k sz. fst (dma_alloc_result (w_mem w) k sz) = NULL"
  obtains h' qp d1 d2 where "admin_create_io_queue_pair w h = Some (Inr (h', p))" "h_qps h' p = Some qp"
    "q_addr (qp_cq qp) = NULL" "q_addr (qp_sq qp) = NULL"
    "sent (a_log (h_aqp h')) = sent (a_log (h_aqp h)) @
      [create_cq_cmd (w_cmd w) (io_queue_size (h_max_queue_size h)) i d1,
       create_sq_cmd (w_cmd w) (io_queue_size (h_max_queue_size h)) i d2]"
proof -
  let ?qs = "io_queue_size (h_max_queue_size h)" and ?a = "h_aqp h"
  obtain d1 where cq: "dma_alloc_result (w_mem w) (h_calls h @ [Kmalloc sizeof_queue_pair p])
      (ucast ?qs * q_es (a_cq ?a)) = (NULL, d1)"
    using no by (metis prod.collapse)
  obtain d2 where sq: "dma_alloc_result (w_mem w) (h_calls h @ [Kmalloc sizeof_queue_pair p,
      DmaAlloc (ucast ?qs * q_es (a_cq ?a)) NULL d1]) (ucast ?qs * q_es (a_sq ?a)) = (NULL, d2)"
    using no by (metis prod.collapse)
  show thesis
    apply (rule create_runs [OF assms(1-5) refl p cq sq])
    subgoal for h' qp by (rule that [of h' qp d1 d2]) simp_all
    done
qed

text \<open>
  C17. The other branches of admin_create_io_queue_pair. With all pairs counted it returns NULL and changes
  nothing. With the count below the limit but every number marked it returns NULL, and the count stays
  raised. Without memory for the struct it writes through NULL: the result of kmalloc is not tested. Without
  memory for the rings it does not notice: the controller is told to create two queues at
  whatever bus addresses were left in the tables, and the caller gets a pair whose rings are at NULL.
\<close>

theorem create_io_queue_pair_errors:
  assumes "host_ready w I h" and "wf_cmd (w_cmd w)" and "pair_tables (h_aqp h)" and "h_qps h NULL = None"
  shows "(a_used (h_aqp h) = a_supported (h_aqp h) \<longrightarrow> admin_create_io_queue_pair w h = Some (Inr (h, NULL)))
    \<and> (a_used (h_aqp h) \<noteq> a_supported (h_aqp h) \<and> (\<forall>m \<in> set (a_use_mark (h_aqp h)). m \<noteq> 0) \<longrightarrow>
        admin_create_io_queue_pair w h = Some (Inr (h\<lparr>h_aqp := (h_aqp h)\<lparr>a_used := a_used (h_aqp h) + 1\<rparr>\<rparr>, NULL)))
    \<and> (a_used (h_aqp h) \<noteq> a_supported (h_aqp h) \<and> first_unused (h_aqp h) i
        \<and> kmalloc_result (w_mem w) (h_calls h) sizeof_queue_pair = NULL \<longrightarrow>
        admin_create_io_queue_pair w h = Some (Inl NullDeref))
    \<and> (a_used (h_aqp h) \<noteq> a_supported (h_aqp h) \<and> first_unused (h_aqp h) i
        \<and> kmalloc_result (w_mem w) (h_calls h) sizeof_queue_pair = p \<and> p \<noteq> NULL
        \<and> (\<forall>k sz. fst (dma_alloc_result (w_mem w) k sz) = NULL) \<longrightarrow>
        (\<exists>h' qp d1 d2. admin_create_io_queue_pair w h = Some (Inr (h', p)) \<and> h_qps h' p = Some qp
          \<and> q_addr (qp_cq qp) = NULL \<and> q_addr (qp_sq qp) = NULL
          \<and> sent (a_log (h_aqp h')) = sent (a_log (h_aqp h)) @
              [create_cq_cmd (w_cmd w) (io_queue_size (h_max_queue_size h)) i d1,
               create_sq_cmd (w_cmd w) (io_queue_size (h_max_queue_size h)) i d2]))"
proof -
  have free: "\<not> a_lock (h_aqp h)" using assms(1) idle_facts(3) by (simp add: host_ready_def)
  have "admin_create_io_queue_pair w h = Some (Inr (h, NULL))" if "a_used (h_aqp h) = a_supported (h_aqp h)"
    using claim_pair_full [OF free that] by (simp add: admin_create_io_queue_pair_def)
  moreover have "admin_create_io_queue_pair w h = Some (Inr (h\<lparr>h_aqp := (h_aqp h)\<lparr>a_used := a_used (h_aqp h) + 1\<rparr>\<rparr>, NULL))"
    if "a_used (h_aqp h) \<noteq> a_supported (h_aqp h)" "\<forall>m \<in> set (a_use_mark (h_aqp h)). m \<noteq> 0"
    using claim_pair_none [OF free that(1) assms(3) that(2)] by (simp add: admin_create_io_queue_pair_def Let_def)
  moreover have "admin_create_io_queue_pair w h = Some (Inl NullDeref)"
    if "a_used (h_aqp h) \<noteq> a_supported (h_aqp h)" "first_unused (h_aqp h) i"
      "kmalloc_result (w_mem w) (h_calls h) sizeof_queue_pair = NULL"
    by (rule create_without_struct [OF free assms(3) that(1,2) assms(4) that(3)])
  moreover note rings = create_without_rings [OF assms(1-3), of i p]
  ultimately show ?thesis
    by (intro conjI impI) (simp_all, (elim conjE, rule rings, auto)[1])
qed

text \<open>A kernel without DMA memory, and one without any.\<close>

definition poor_world :: "addr \<Rightarrow> unit world" where
  "poor_world p = small_world\<lparr>w_mem := \<lparr>kmalloc_result = \<lambda>k sz. p, dma_alloc_result = \<lambda>k sz. (NULL, 0)\<rparr>\<rparr>"

lemma poor_facts:
  "host_ready (poor_world p) (\<lambda>_. True) (small_host n)" "wf_cmd (w_cmd (poor_world p))"
  "h_qps (small_host n) NULL = None"
  using small_facts(1) [of n] small_facts(2)
  by (simp_all add: poor_world_def host_ready_def small_host_def)

theorem create_io_queue_pair_errors_witness:
  "admin_create_io_queue_pair (poor_world NULL) (small_host 2) = Some (Inl NullDeref)
    \<and> admin_create_io_queue_pair (poor_world NULL) (small_host 0) = Some (Inr (small_host 0, NULL))
    \<and> (\<exists>h' qp. admin_create_io_queue_pair (poor_world 0x4000) (small_host 2) = Some (Inr (h', 0x4000))
        \<and> h_qps h' 0x4000 = Some qp \<and> q_addr (qp_cq qp) = NULL)"
proof -
  note e = create_io_queue_pair_errors [OF poor_facts(1,2) small_facts(3) poor_facts(3)]
  show ?thesis
    using e [of 2 NULL 0] e [of 0 NULL] e [of 2 "0x4000" 0 "0x4000"] small_facts(5-7) [of 2] small_facts(5,6) [of 0]
    by (auto simp: poor_world_def)
qed

subsection \<open>Two threads delete the same pair\<close>



end
