(* ===== verification/Init_Faults.thy ===== *)
theory Init_Faults
  imports Admin_Init
begin

section \<open>Initialisation that does not succeed (kernel/nvme/admin.c)\<close>

text \<open>
  admin_init returns nothing and tests none of its allocations. What happens without memory, and with a
  controller whose ready bit does not change.
\<close>

text \<open>Waiting for a bit that never comes.\<close>

lemma wait_csts_stuck:
  assumes "wait_csts M v h = Some y" and "\<forall>d. fst (m_read M (reg_at CSTS 0) d) AND 1 \<noteq> v"
  shows False
  using assms
proof (induction rule: wait_csts.raw_induct [rotated, consumes 1, case_names step])
  case (step f M v h y)
  then have "f M v (snd (mmio_read M CSTS 0 h)) = Some y" by (simp add: mmio_read_eq)
  from step.IH [OF this] step.prems show ?case by simp
qed

lemma disable_stuck:
  assumes "\<forall>d. fst (m_read M (reg_at CSTS 0) d) AND 1 = 1"
  shows "disable_controller M h = None"
proof -
  have "wait_csts M 0 h' = None" for h'
    using wait_csts_stuck [of M 0 h'] assms by (cases "wait_csts M 0 h'") auto
  then show ?thesis by (simp add: disable_controller_def split_beta)
qed

text \<open>Submitting to a ring that is not there.\<close>

lemma enqueue_no_ring:
  assumes "\<not> a_lock a" and "q_head (a_sq a) = 0" and "q_tail (a_sq a) = 0" and "2 \<le> qN (a_sq a)"
    and "q_cid (a_sq a) = replicate MAX_CMD 0" and "a_sq_mem a = []"
  shows "admin_enqueue_command a c = Inl (OutOfBounds 0)"
proof -
  have "q_qs (a_sq a) \<noteq> 0" "q_qs (a_sq a) \<noteq> 1" using assms(4) by auto
  then have "sq_full (a_sq a) = Inr False" using assms(2,3) by (simp add: sq_full_def eq_diff_eq)
  moreover have "q_cid (a_sq a) ! 0 = 0" "0 < MAX_CMD" "MAX_CMD \<le> length (q_cid (a_sq a))"
    using assms(5) by (simp_all add: MAX_CMD_def)
  then obtain i where "take_slot MAX_CMD (q_cid (a_sq a)) = Inr ((q_cid (a_sq a))[i := 1], Some i)"
    using take_slot_spec [of MAX_CMD "q_cid (a_sq a)"] by blast
  ultimately show ?thesis
    using assms(1,3,6) by (simp add: admin_enqueue_command_def aqp_lock_def Let_def wr_def)
qed

lemma rings_without_dma:
  assumes km: "\<forall>k sz. kmalloc_result (w_mem (m_world M)) k sz \<noteq> NULL"
    and no: "\<forall>k sz. fst (dma_alloc_result (w_mem (m_world M)) k sz) = NULL"
  obtains h1 p where "init_rings M reg_addr h = Inr (h1, p)" "h_dev h1 = h_dev h" "\<not> a_lock (h_aqp h1)"
    "q_es (a_cq (h_aqp h1)) = sizeof_cpl" "q_es (a_sq (h_aqp h1)) = sizeof_cmd"
    "q_head (a_sq (h_aqp h1)) = 0" "q_tail (a_sq (h_aqp h1)) = 0" "qN (a_sq (h_aqp h1)) = ring_size M"
    "q_cid (a_sq (h_aqp h1)) = replicate MAX_CMD 0" "a_sq_mem (h_aqp h1) = []"
proof -
  obtain r where r: "init_rings M reg_addr h = Inr r"
    using km by (simp add: init_rings_def kmalloc_def Let_def split_beta)
  have "unat (if 4096 < cap_queue_size M then 4096 else cap_queue_size M) = ring_size M"
    by (simp add: ring_size_def cap_queue_size_nat word_less_nat_alt)
  with r km no show thesis
    by (intro that [of "fst r" "snd r"])
      (auto simp: init_rings_def kmalloc_def dma_alloc_coherent_def Let_def split_beta)
qed

subsection \<open>Properties\<close>


text \<open>The machine of the other witnesses without memory, and with a device that is gone.\<close>

definition poor_machine :: "addr \<Rightarrow> u32 machine" where
  "poor_machine p = small_machine\<lparr>m_world := (m_world small_machine)\<lparr>w_mem :=
     \<lparr>kmalloc_result = \<lambda>k sz. p, dma_alloc_result = \<lambda>k sz. (NULL, 0)\<rparr>\<rparr>\<rparr>"

definition gone_machine :: "u32 machine" where
  "gone_machine = small_machine\<lparr>m_read := \<lambda>off d. (0xffffffff, d)\<rparr>"

lemma poor_regs: "regs_respond (poor_machine p) (\<lambda>_. True)" "2 \<le> ring_size (poor_machine p)"
proof -
  have "csts_reaches (poor_machine p) (v AND 1) (m_write (poor_machine p) (reg_at CC 0) v d)" for v d
    by (rule csts_reaches.now) (simp add: poor_machine_def small_machine_def reg_at_values)
  then show "regs_respond (poor_machine p) (\<lambda>_. True)" by (simp add: regs_respond_def)
  show "2 \<le> ring_size (poor_machine p)" by (simp add: poor_machine_def small_machine_def ring_size_def)
qed


end
