(* ===== verification/Dma_Map.thy ===== *)
theory Dma_Map
  imports Kernel
begin

section \<open>Mapping user memory for DMA (kernel/nvme/map.c, map.h)\<close>

text \<open>
  \<open>map_userspace\<close> pins the pages of a range of the calling process, maps each for DMA and returns a
  descriptor with the bus addresses; \<open>unmap_and_release_map\<close> undoes it. Descriptors and page arrays
  live in kernel memory and are reached through addresses; the only release callback is
  \<open>release_user_pages\<close>, so the member \<open>release\<close> says whether it is set.

  What \<open>get_user_pages\<close>, \<open>dma_map_page\<close> and \<open>dma_mapping_error\<close> return is a parameter. The preprocessor
  branch is the last one, of kernels from 4.9 on.
\<close>

definition PAGE_SIZE :: u64 where
  "PAGE_SIZE = 4096"

definition PAGE_MASK :: u64 where
  "PAGE_MASK = NOT (PAGE_SIZE - 1)"

definition GPU_PAGE_SHIFT :: nat where
  "GPU_PAGE_SHIFT = 16"

definition GPU_PAGE_SIZE :: u64 where
  "GPU_PAGE_SIZE = push_bit GPU_PAGE_SHIFT 1"

definition GPU_PAGE_MASK :: u64 where
  "GPU_PAGE_MASK = NOT (GPU_PAGE_SIZE - 1)"

record map_desc =
  mp_owner :: addr
  mp_vaddr :: u64
  mp_pdev :: addr
  mp_page_size :: u64
  mp_release :: bool
  mp_n_addrs :: u64
  mp_data :: addr
  mp_addrs :: "u64 list"

record map_api =
  ma_mem :: mem_api
  ma_gup :: "calls \<Rightarrow> u64 \<Rightarrow> u64 \<Rightarrow> int \<times> addr list"
  ma_dma_map :: "calls \<Rightarrow> addr \<Rightarrow> u64"
  ma_dma_error :: "u64 \<Rightarrow> int"
  ma_current :: addr

record maps =
  ms_desc :: "addr \<rightharpoonup> map_desc"
  ms_pages :: "addr \<rightharpoonup> addr list"
  ms_calls :: calls

text \<open>A descriptor through a pointer.\<close>

definition desc_at :: "maps \<Rightarrow> addr \<Rightarrow> map_desc res" where
  "desc_at s m =
     (case ms_desc s m of
       None \<Rightarrow> Inl (if m = NULL then NullDeref else UseAfterFree m)
     | Some d \<Rightarrow> Inr d)"

definition desc_upd :: "addr \<Rightarrow> map_desc \<Rightarrow> maps \<Rightarrow> maps" where
  "desc_upd m d s = s\<lparr>ms_desc := (ms_desc s)(m \<mapsto> d)\<rparr>"

text \<open>
  The struct has 56 bytes before its array of one address. How many addresses fit in an
  allocation of \<open>sz\<close> bytes:
\<close>

definition sizeof_map :: u64 where
  "sizeof_map = 64"

definition addrs_room :: "u64 \<Rightarrow> nat" where
  "addrs_room sz = (unat sz - 56) div 8"

definition create_descriptor ::
  "map_api \<Rightarrow> addr \<Rightarrow> u64 \<Rightarrow> u64 \<Rightarrow> maps \<Rightarrow> (maps \<times> addr) res" where
  "create_descriptor api pdev vaddr n_pages s =
     (let sz = sizeof_map + (n_pages - 1) * 8;
          (m, k) = kmalloc (ma_mem api) sz (ms_calls s);
          s1 = s\<lparr>ms_calls := k\<rparr>
      in if m = NULL then Inr (s1, ERR_PTR (- ENOMEM))
         else if addrs_room sz < unat n_pages then Inl (OutOfBounds (addrs_room sz))
         else Inr (desc_upd m
           \<lparr>mp_owner = ma_current api, mp_vaddr = vaddr, mp_pdev = pdev, mp_page_size = 0,
            mp_release = False, mp_n_addrs = n_pages, mp_data = NULL,
            mp_addrs = replicate (unat n_pages) 0\<rparr> s1, m))"

text \<open>The callback: unmap every address, put every page, free the page array.\<close>

definition release_user_pages :: "addr \<Rightarrow> maps \<Rightarrow> maps res" where
  "release_user_pages m s =
     bindE (desc_at s m) (\<lambda>d.
     let n = unat (mp_n_addrs d) in
     if length (mp_addrs d) < n then Inl (OutOfBounds (length (mp_addrs d)))
     else
       let k1 = ms_calls s @ map DmaUnmapPage (take n (mp_addrs d)) in
       case ms_pages s (mp_data d) of
         None \<Rightarrow> Inl (if mp_data d = NULL then NullDeref else UseAfterFree (mp_data d))
       | Some ps \<Rightarrow>
           if length ps < n then Inl (OutOfBounds (length ps))
           else Inr (desc_upd m (d\<lparr>mp_data := NULL\<rparr>)
             (s\<lparr>ms_pages := (ms_pages s)(mp_data d := None),
                ms_calls := kfree (mp_data d) (k1 @ map PutPage (take n ps))\<rparr>)))"

definition unmap_and_release_map :: "addr \<Rightarrow> maps \<Rightarrow> maps res" where
  "unmap_and_release_map m s =
     bindE (desc_at s m) (\<lambda>d.
     bindE (if mp_release d \<and> mp_data d \<noteq> NULL then release_user_pages m s else Inr s) (\<lambda>s1.
     Inr (s1\<lparr>ms_desc := (ms_desc s1)(m := None), ms_calls := kfree m (ms_calls s1)\<rparr>)))"

text \<open>
  The mapping loop from page \<open>i\<close> to \<open>n\<close>: the addresses, the value the loop leaves the function
  with (0 when every page was mapped), and the calls.
\<close>

function map_loop ::
  "map_api \<Rightarrow> addr list \<Rightarrow> nat \<Rightarrow> nat \<Rightarrow> u64 list \<Rightarrow> calls \<Rightarrow> (u64 list \<times> int \<times> calls) res" where
  "map_loop api ps n i addrs k =
     (if n \<le> i then Inr (addrs, 0, k)
      else
        bindE (rd ps i) (\<lambda>pg.
        let b = ma_dma_map api k pg; e = ma_dma_error api b; k1 = k @ [DmaMapPage pg b e] in
        bindE (wr addrs i b) (\<lambda>addrs1.
        if e \<noteq> 0 then Inr (addrs1[i := 0], e, k1)
        else map_loop api ps n (Suc i) addrs1 k1)))"
  by pat_completeness auto

termination map_loop
  by (relation "measure (\<lambda>(api, ps, n, i, addrs, k). n - i)") auto

declare map_loop.simps [simp del]

definition map_user_pages :: "map_api \<Rightarrow> addr \<Rightarrow> maps \<Rightarrow> (maps \<times> int) res" where
  "map_user_pages api m s =
     bindE (desc_at s m) (\<lambda>d.
     let (ps, k1) = kcalloc (ma_mem api) (mp_n_addrs d) 8 (ms_calls s) in
     if ps = NULL then Inr (s\<lparr>ms_calls := k1\<rparr>, - ENOMEM)
     else
       let n = unat (mp_n_addrs d);
           (retv, got) = ma_gup api k1 (mp_vaddr d) (mp_n_addrs d);
           k2 = k1 @ [GetUserPages (mp_vaddr d) (mp_n_addrs d) retv got];
           pages = take n (got @ replicate n NULL)
       in if retv \<le> 0 then Inr (s\<lparr>ms_calls := kfree ps k2\<rparr>, retv)
          else
            let d1 = d\<lparr>mp_n_addrs := word_of_int retv, mp_page_size := PAGE_SIZE, mp_data := ps,
                       mp_release := True\<rparr> in
            bindE (map_loop api pages (unat (mp_n_addrs d1)) 0 (mp_addrs d1) k2)
              (\<lambda>(addrs, err, k3).
            Inr (desc_upd m (d1\<lparr>mp_addrs := addrs\<rparr>)
                  (s\<lparr>ms_pages := (ms_pages s)(ps \<mapsto> pages), ms_calls := k3\<rparr>), err)))"

definition map_userspace ::
  "map_api \<Rightarrow> addr \<Rightarrow> u64 \<Rightarrow> u64 \<Rightarrow> maps \<Rightarrow> (maps \<times> addr) res" where
  "map_userspace api pdev vaddr n_pages s =
     (if n_pages < 1 then Inr (s, ERR_PTR (- EINVAL))
      else
        bindE (create_descriptor api pdev (vaddr AND PAGE_MASK) n_pages s) (\<lambda>(s1, m).
        if IS_ERR m then Inr (s1, m)
        else
          bindE (desc_at s1 m) (\<lambda>d.
          bindE (map_user_pages api m (desc_upd m (d\<lparr>mp_page_size := PAGE_SIZE\<rparr>) s1)) (\<lambda>(s2, err).
          if err \<noteq> 0 then
            bindE (unmap_and_release_map m s2) (\<lambda>s3. Inr (s3, ERR_PTR err))
          else Inr (s2, m)))))"

subsection \<open>The pieces\<close>

lemma addrs_room_exact:
  assumes "1 \<le> unat n" and "unat n \<le> 2 ^ 60"
  shows "addrs_room (sizeof_map + (n - 1) * 8) = unat n"
proof -
  have "unat (n - 1) = unat n - 1"
    using assms(1) by (simp add: unat_sub word_le_nat_alt)
  then have "unat (sizeof_map + (n - 1) * 8) = 64 + (unat n - 1) * 8"
    using assms by (simp add: sizeof_map_def unat_word_ariths)
  then show ?thesis using assms(1) by (simp add: addrs_room_def)
qed

text \<open>A page mapped without an error.\<close>

abbreviation mapped :: "addr \<Rightarrow> u64 \<Rightarrow> kcall" where
  "mapped pg b \<equiv> DmaMapPage pg b 0"

text \<open>The loop maps a run of pages; it goes through or stops at the first error.\<close>

lemma map_loop_runs:
  assumes "n \<le> length ps" and "n \<le> length addrs" and "i \<le> n"
  shows "\<exists>bs. (\<forall>b \<in> set bs. ma_dma_error api b = 0) \<and> (length bs = n - i
      \<and> map_loop api ps n i addrs k = Inr (take i addrs @ bs @ drop n addrs, 0,
          k @ map2 mapped (take (n - i) (drop i ps)) bs)
    \<or> (\<exists>b e. length bs < n - i \<and> e = ma_dma_error api b \<and> e \<noteq> 0
      \<and> map_loop api ps n i addrs k = Inr (take i addrs @ bs @ 0 # drop (Suc (i + length bs)) addrs, e,
          k @ map2 mapped (take (length bs) (drop i ps)) bs @ [DmaMapPage (ps ! (i + length bs)) b e])))"
  using assms
proof (induction api ps n i addrs k rule: map_loop.induct)
  case (1 api ps n i addrs k)
  show ?case
  proof (cases "n \<le> i")
    case True
    with "1.prems" show ?thesis by (subst map_loop.simps) simp
  next
    case False
    define b where "b = ma_dma_map api k (ps ! i)"
    define e where "e = ma_dma_error api b"
    let ?k = "k @ [DmaMapPage (ps ! i) b e]" and ?as = "addrs[i := b]"
    have step: "map_loop api ps n i addrs k =
        (if e \<noteq> 0 then Inr (addrs[i := 0], e, ?k) else map_loop api ps n (Suc i) ?as ?k)"
      using False "1.prems" by (subst map_loop.simps) (simp add: b_def e_def Let_def)
    have ps: "drop i ps = ps ! i # drop (Suc i) ps"
      using False "1.prems" by (simp add: Cons_nth_drop_Suc)
    have as: "addrs[i := x] = take i addrs @ x # drop (Suc i) addrs" for x
      using False "1.prems" by (simp add: upd_conv_take_nth_drop)
    show ?thesis
    proof (cases "e = 0")
      case e: False
      with step False show ?thesis by (intro exI [of _ "[]"]) (auto simp: as e_def)
    next
      case True
      have pre: "n \<le> length ps" "n \<le> length ?as" "Suc i \<le> n" using False "1.prems" by simp_all
      obtain bs where bs: "(\<forall>b \<in> set bs. ma_dma_error api b = 0) \<and> (length bs = n - Suc i
          \<and> map_loop api ps n (Suc i) ?as ?k = Inr (take (Suc i) ?as @ bs @ drop n ?as, 0,
              ?k @ map2 mapped (take (n - Suc i) (drop (Suc i) ps)) bs)
        \<or> (\<exists>b e. length bs < n - Suc i \<and> e = ma_dma_error api b \<and> e \<noteq> 0
          \<and> map_loop api ps n (Suc i) ?as ?k =
              Inr (take (Suc i) ?as @ bs @ 0 # drop (Suc (Suc i + length bs)) ?as, e,
              ?k @ map2 mapped (take (length bs) (drop (Suc i) ps)) bs @
                [DmaMapPage (ps ! (Suc i + length bs)) b e])))"
        using "1.IH" [OF False b_def e_def refl _ pre] True by blast
      have as': "take (Suc i) ?as = take i addrs @ [b]"
        using False "1.prems" by (simp add: take_Suc_conv_app_nth)
      have n: "n - i = Suc (n - Suc i)" using False by simp
      show ?thesis
        using bs False True e_def by (intro exI [of _ "b # bs"]) (auto simp: step ps as' n)
    qed
  qed
qed

subsection \<open>The stages of a mapping\<close>

text \<open>
  \<open>kmalloc\<close> never returns an address in the range of error pointers, and \<open>get_user_pages\<close> returns as
  many pages as it says, no more than it was asked for.
\<close>

definition map_api_ok :: "map_api \<Rightarrow> bool" where
  "map_api_ok api \<longleftrightarrow> (\<forall>k sz. \<not> IS_ERR (kmalloc_result (ma_mem api) k sz))
     \<and> (\<forall>k v n. 0 < fst (ma_gup api k v n) \<longrightarrow>
          int (length (snd (ma_gup api k v n))) = fst (ma_gup api k v n)
          \<and> fst (ma_gup api k v n) \<le> int (unat n))"

definition fresh_desc :: "map_api \<Rightarrow> addr \<Rightarrow> u64 \<Rightarrow> u64 \<Rightarrow> map_desc" where
  "fresh_desc api pdev v n =
     \<lparr>mp_owner = ma_current api, mp_vaddr = v, mp_pdev = pdev, mp_page_size = PAGE_SIZE,
      mp_release = False, mp_n_addrs = n, mp_data = NULL, mp_addrs = replicate (unat n) 0\<rparr>"

text \<open>The descriptor's and the page array's allocation, and the log after each.\<close>

definition desc_alloc :: "map_api \<Rightarrow> u64 \<Rightarrow> maps \<Rightarrow> addr" where
  "desc_alloc api n s = kmalloc_result (ma_mem api) (ms_calls s) (sizeof_map + (n - 1) * 8)"

definition desc_log :: "map_api \<Rightarrow> u64 \<Rightarrow> maps \<Rightarrow> calls" where
  "desc_log api n s = ms_calls s @ [Kmalloc (sizeof_map + (n - 1) * 8) (desc_alloc api n s)]"

definition page_alloc :: "map_api \<Rightarrow> u64 \<Rightarrow> maps \<Rightarrow> addr" where
  "page_alloc api n s = kmalloc_result (ma_mem api) (desc_log api n s) (n * 8)"

definition page_log :: "map_api \<Rightarrow> u64 \<Rightarrow> maps \<Rightarrow> calls" where
  "page_log api n s = desc_log api n s @ [Kmalloc (n * 8) (page_alloc api n s)]"

definition pinned :: "map_api \<Rightarrow> u64 \<Rightarrow> u64 \<Rightarrow> maps \<Rightarrow> int \<times> addr list" where
  "pinned api v n s = ma_gup api (page_log api n s) (v AND PAGE_MASK) n"

definition pin_log :: "map_api \<Rightarrow> u64 \<Rightarrow> u64 \<Rightarrow> maps \<Rightarrow> calls" where
  "pin_log api v n s = page_log api n s @
     [GetUserPages (v AND PAGE_MASK) n (fst (pinned api v n s)) (snd (pinned api v n s))]"

definition good_count :: "u64 \<Rightarrow> bool" where
  "good_count n \<longleftrightarrow> 1 \<le> unat n \<and> unat n \<le> 2 ^ 60"

lemma no_desc:
  assumes "good_count n" and "desc_alloc api n s = NULL"
  shows "map_userspace api pdev v n s = Inr (s\<lparr>ms_calls := desc_log api n s\<rparr>, ERR_PTR (- ENOMEM))"
  using assms IS_ERR_ERR_PTR(1) [of "- 12"]
  by (simp add: map_userspace_def create_descriptor_def kmalloc_def Let_def desc_alloc_def
      desc_log_def good_count_def word_less_nat_alt)

lemma map_userspace_start:
  assumes "good_count n" and "map_api_ok api" and m: "m = desc_alloc api n s" "m \<noteq> NULL"
  shows "map_userspace api pdev v n s =
    bindE (map_user_pages api m (s\<lparr>ms_calls := desc_log api n s,
        ms_desc := (ms_desc s)(m \<mapsto> fresh_desc api pdev (v AND PAGE_MASK) n)\<rparr>)) (\<lambda>(s2, err).
      if err \<noteq> 0 then bindE (unmap_and_release_map m s2) (\<lambda>s3. Inr (s3, ERR_PTR err))
      else Inr (s2, m))"
proof -
  have "\<not> IS_ERR m" using assms(2) by (simp add: map_api_ok_def m desc_alloc_def)
  moreover have "\<not> n < 1" using assms(1) by (simp add: good_count_def word_less_nat_alt)
  moreover have "addrs_room (sizeof_map + (n - 1) * 8) = unat n"
    using assms(1) by (intro addrs_room_exact) (simp_all add: good_count_def)
  moreover have "kmalloc (ma_mem api) (sizeof_map + (n - 1) * 8) (ms_calls s) = (m, desc_log api n s)"
    by (simp add: kmalloc_def Let_def m desc_log_def desc_alloc_def)
  ultimately show ?thesis
    using m(2) unfolding map_userspace_def create_descriptor_def
    by (simp add: desc_at_def desc_upd_def fresh_desc_def)
qed

lemma kcalloc_pages:
  assumes "good_count n"
  shows "kcalloc (ma_mem api) n 8 (desc_log api n s) = (page_alloc api n s, page_log api n s)"
  using assms by (simp add: kcalloc_def good_count_def kmalloc_def page_alloc_def page_log_def Let_def)

text \<open>Nothing was pinned: the descriptor, and the page array if there is one, is freed again.\<close>

lemma no_pages:
  assumes g: "good_count n" and ok: "map_api_ok api" and m: "m = desc_alloc api n s" "m \<noteq> NULL"
  shows "page_alloc api n s = NULL \<Longrightarrow> map_userspace api pdev v n s =
      Inr (s\<lparr>ms_desc := (ms_desc s)(m := None), ms_calls := page_log api n s @ [Kfree m]\<rparr>,
        ERR_PTR (- ENOMEM))"
    and "page_alloc api n s \<noteq> NULL \<Longrightarrow> fst (pinned api v n s) < 0 \<Longrightarrow> map_userspace api pdev v n s =
      Inr (s\<lparr>ms_desc := (ms_desc s)(m := None),
             ms_calls := pin_log api v n s @ [Kfree (page_alloc api n s), Kfree m]\<rparr>,
        ERR_PTR (fst (pinned api v n s)))"
    and "page_alloc api n s \<noteq> NULL \<Longrightarrow> fst (pinned api v n s) = 0 \<Longrightarrow> map_userspace api pdev v n s =
      Inr (s\<lparr>ms_desc := (ms_desc s)(m \<mapsto> fresh_desc api pdev (v AND PAGE_MASK) n),
             ms_calls := pin_log api v n s @ [Kfree (page_alloc api n s)]\<rparr>, m)"
  unfolding map_userspace_start [OF g ok m]
  by (simp_all add: map_user_pages_def desc_at_def kcalloc_pages [OF g] fresh_desc_def
      unmap_and_release_map_def kfree_def pinned_def pin_log_def split_beta)

text \<open>Pages were pinned: all of them are mapped, or the first failure releases everything.\<close>

definition mapped_desc :: "map_api \<Rightarrow> addr \<Rightarrow> u64 \<Rightarrow> u64 \<Rightarrow> maps \<Rightarrow> u64 list \<Rightarrow> map_desc" where
  "mapped_desc api pdev v n s bs =
     (fresh_desc api pdev (v AND PAGE_MASK) n)\<lparr>mp_n_addrs := of_nat (length (snd (pinned api v n s))),
       mp_data := page_alloc api n s, mp_release := True,
       mp_addrs := bs @ replicate (unat n - length bs) 0\<rparr>"

text \<open>
  The state of the mapping loop once pages are pinned: the page array with what was pinned, the descriptor with the bus
  addresses so far.
\<close>

definition pinned_pages :: "map_api \<Rightarrow> u64 \<Rightarrow> u64 \<Rightarrow> maps \<Rightarrow> addr list" where
  "pinned_pages api v n s =
     snd (pinned api v n s) @ replicate (unat n - length (snd (pinned api v n s))) NULL"

definition pinned_state :: "map_api \<Rightarrow> addr \<Rightarrow> u64 \<Rightarrow> u64 \<Rightarrow> maps \<Rightarrow> addr \<Rightarrow> u64 list \<Rightarrow> calls \<Rightarrow> maps" where
  "pinned_state api pdev v n s m as k =
     s\<lparr>ms_pages := (ms_pages s)(page_alloc api n s \<mapsto> pinned_pages api v n s), ms_calls := k,
       ms_desc := (ms_desc s)(m \<mapsto> (fresh_desc api pdev (v AND PAGE_MASK) n)\<lparr>mp_n_addrs := of_nat (length (snd (pinned api v n s))),
         mp_data := page_alloc api n s, mp_release := True, mp_addrs := as\<rparr>)\<rparr>"

lemma pinned_length:
  assumes "map_api_ok api" and "0 < fst (pinned api v n s)" and "good_count n"
  shows "int (length (snd (pinned api v n s))) = fst (pinned api v n s)"
    and "length (snd (pinned api v n s)) \<le> unat n"
    and "unat (of_nat (length (snd (pinned api v n s))) :: u64) = length (snd (pinned api v n s))"
    and "length (pinned_pages api v n s) = unat n"
proof -
  show "int (length (snd (pinned api v n s))) = fst (pinned api v n s)" "length (snd (pinned api v n s)) \<le> unat n"
    using assms(1,2) unfolding map_api_ok_def pinned_def by (metis, metis nat_int_comparison(3))
  moreover from this(2) have "length (snd (pinned api v n s)) < 2 ^ 64" using assms(3) by (simp add: good_count_def)
  ultimately show "unat (of_nat (length (snd (pinned api v n s))) :: u64) = length (snd (pinned api v n s))"
    "length (pinned_pages api v n s) = unat n"
    by (simp_all add: unat_of_nat pinned_pages_def)
qed

text \<open>map\_user\_pages is its loop from that state on.\<close>

lemma pinned_runs:
  assumes g: "good_count n" and ok: "map_api_ok api"
    and ps: "page_alloc api n s \<noteq> NULL" and got: "0 < fst (pinned api v n s)"
  shows "map_user_pages api m (s\<lparr>ms_calls := desc_log api n s,
        ms_desc := (ms_desc s)(m \<mapsto> fresh_desc api pdev (v AND PAGE_MASK) n)\<rparr>) =
      bindE (map_loop api (pinned_pages api v n s) (length (snd (pinned api v n s))) 0 (replicate (unat n) 0) (pin_log api v n s))
        (\<lambda>(as, err, k). Inr (pinned_state api pdev v n s m as k, err))"
proof -
  note r = pinned_length [OF ok got g]
  have cnt: "word_of_int (fst (pinned api v n s)) = (of_nat (length (snd (pinned api v n s))) :: u64)"
    by (simp flip: r(1))
  have pages: "take (unat n) (snd (pinned api v n s) @ replicate (unat n) NULL) = pinned_pages api v n s"
    using r(2) by (simp add: pinned_pages_def take_replicate min_def)
  show ?thesis
    using ps got
    by (simp add: map_user_pages_def desc_at_def desc_upd_def kcalloc_pages [OF g] fresh_desc_def
        split_beta pin_log_def cnt r(2,3) Let_def pages [unfolded pinned_pages_def] pinned_pages_def pinned_state_def
        flip: pinned_def)
qed

text \<open>Releasing after the loop stopped at a failed mapping.\<close>

lemma pinned_release:
  assumes g: "good_count n" and ok: "map_api_ok api"
    and ps: "page_alloc api n s \<noteq> NULL" and got: "0 < fst (pinned api v n s)"
    and bs: "length bs < length (snd (pinned api v n s))"
  shows "unmap_and_release_map m (pinned_state api pdev v n s m (bs @ 0 # replicate (unat n - Suc (length bs)) 0) k) =
    Inr (s\<lparr>ms_calls := k @ map DmaUnmapPage (bs @ replicate (length (snd (pinned api v n s)) - length bs) 0)
          @ map PutPage (snd (pinned api v n s)) @ [Kfree (page_alloc api n s), Kfree m],
        ms_desc := (ms_desc s)(m := None), ms_pages := (ms_pages s)(page_alloc api n s := None)\<rparr>)"
proof -
  note r = pinned_length [OF ok got g]
  have "0 # replicate (unat n - Suc (length bs)) 0 = replicate (unat n - length bs) (0 :: u64)"
    using bs r(2) by (simp add: Suc_diff_Suc flip: replicate_Suc)
  with bs r(2) show ?thesis
    using ps
    by (simp add: unmap_and_release_map_def release_user_pages_def desc_at_def desc_upd_def kfree_def
        Let_def r(3,4) pinned_state_def) (simp add: pinned_pages_def)
qed

lemma pages_pinned:
  assumes g: "good_count n" and ok: "map_api_ok api" and m: "m = desc_alloc api n s" "m \<noteq> NULL"
    and ps: "page_alloc api n s \<noteq> NULL" and got: "0 < fst (pinned api v n s)"
  obtains bs s' where "\<forall>b \<in> set bs. ma_dma_error api b = 0"
      "length bs = length (snd (pinned api v n s))"
      "map_userspace api pdev v n s = Inr (s', m)"
      "ms_calls s' = pin_log api v n s @ map2 mapped (snd (pinned api v n s)) bs"
      "ms_desc s' = (ms_desc s)(m \<mapsto> mapped_desc api pdev v n s bs)"
      "\<exists>rest. ms_pages s' (page_alloc api n s) = Some (snd (pinned api v n s) @ rest)"
    | bs b e s' where "\<forall>b \<in> set bs. ma_dma_error api b = 0"
      "length bs < length (snd (pinned api v n s))" "e = ma_dma_error api b" "e \<noteq> 0"
      "map_userspace api pdev v n s = Inr (s', ERR_PTR e)"
      "ms_calls s' = pin_log api v n s @ map2 mapped (take (length bs) (snd (pinned api v n s))) bs
         @ DmaMapPage (snd (pinned api v n s) ! length bs) b e
         # map DmaUnmapPage (bs @ replicate (length (snd (pinned api v n s)) - length bs) 0)
         @ map PutPage (snd (pinned api v n s)) @ [Kfree (page_alloc api n s), Kfree m]"
      "ms_desc s' = (ms_desc s)(m := None)"
proof -
  let ?got = "snd (pinned api v n s)" and ?r = "length (snd (pinned api v n s))" and ?N = "unat n"
    and ?k = "pin_log api v n s" and ?pages = "pinned_pages api v n s"
  note r = pinned_length [OF ok got g]
  note loop = map_userspace_start [OF g ok m, of pdev v, unfolded pinned_runs [OF g ok ps got]]
  obtain bs where z: "\<forall>b \<in> set bs. ma_dma_error api b = 0" and bs: "length bs = ?r \<and> map_loop api ?pages ?r 0 (replicate ?N 0) ?k =
        Inr (bs @ replicate (?N - ?r) 0, 0, ?k @ map2 mapped ?got bs)
    \<or> (\<exists>b e. length bs < ?r \<and> e = ma_dma_error api b \<and> e \<noteq> 0 \<and> map_loop api ?pages ?r 0 (replicate ?N 0) ?k =
        Inr (bs @ 0 # replicate (?N - Suc (length bs)) 0, e,
          ?k @ map2 mapped (take (length bs) ?pages) bs @ [DmaMapPage (?pages ! length bs) b e]))"
    using map_loop_runs [of ?r ?pages "replicate ?N 0" 0 api ?k] r(2,4) by (auto simp: pinned_pages_def)
  from bs consider (all) "length bs = ?r" "map_loop api ?pages ?r 0 (replicate ?N 0) ?k =
        Inr (bs @ replicate (?N - ?r) 0, 0, ?k @ map2 mapped ?got bs)"
    | (fail) b e where "length bs < ?r" "e \<noteq> 0" "e = ma_dma_error api b" "map_loop api ?pages ?r 0 (replicate ?N 0) ?k =
        Inr (bs @ 0 # replicate (?N - Suc (length bs)) 0, e,
          ?k @ map2 mapped (take (length bs) ?pages) bs @ [DmaMapPage (?pages ! length bs) b e])"
    by blast
  then show thesis
  proof cases
    case all
    then show thesis
      using z by (intro that(1) [of bs "pinned_state api pdev v n s m (bs @ replicate (?N - ?r) 0) (?k @ map2 mapped ?got bs)"])
        (simp_all add: loop mapped_desc_def pinned_state_def pinned_pages_def)
  next
    case fail
    have pg: "take (length bs) ?pages = take (length bs) ?got" "?pages ! length bs = ?got ! length bs"
      using fail(1) by (simp_all add: pinned_pages_def nth_append)
    note rel = pinned_release [OF g ok ps got fail(1)]
    let ?s' = "s\<lparr>ms_calls := ?k @ map2 mapped (take (length bs) ?got) bs @ DmaMapPage (?got ! length bs) b e
          # map DmaUnmapPage (bs @ replicate (?r - length bs) 0) @ map PutPage ?got @ [Kfree (page_alloc api n s), Kfree m],
        ms_desc := (ms_desc s)(m := None), ms_pages := (ms_pages s)(page_alloc api n s := None)\<rparr>"
    show thesis
      using z fail(1-3) by (intro that(2) [of bs e b ?s']) (simp_all add: loop fail(4) rel pg)
  qed
qed

subsection \<open>What is held\<close>

lemma holds_page_log:
  assumes "holds (ms_calls s) = Some R" and "desc_alloc api n s \<noteq> NULL" and "page_alloc api n s \<noteq> NULL"
  shows "holds (page_log api n s) = Some (R + {#Kfree (desc_alloc api n s), Kfree (page_alloc api n s)#})"
  using assms by (simp add: page_log_def desc_log_def holds_append)

lemma sum_list_singles: "(\<Sum>x \<leftarrow> xs. {#f x#}) = mset (map f xs)"
  by (induction xs) simp_all

lemma holds_mapped:
  assumes "holds log = Some R" and "length bs = length pgs"
  shows "holds (log @ map2 mapped pgs bs) = Some (R + mset (map DmaUnmapPage bs))"
proof -
  have "(\<Sum>c \<leftarrow> map2 mapped pgs bs. owes c) = mset (map DmaUnmapPage bs)"
    using assms(2) by (induction bs pgs rule: list_induct2) simp_all
  moreover have "\<forall>c \<in> set (map2 mapped pgs bs). \<not> releases c" by auto
  ultimately show ?thesis
    using assms(1) holds_acquire [of "map2 mapped pgs bs" R] by (simp add: holds_append)
qed

lemma holds_pin_log:
  assumes "holds (ms_calls s) = Some R" and "desc_alloc api n s \<noteq> NULL" and "page_alloc api n s \<noteq> NULL"
    and "0 < fst (pinned api v n s)"
  shows "holds (pin_log api v n s) = Some (R + {#Kfree (desc_alloc api n s), Kfree (page_alloc api n s)#}
    + mset (map PutPage (snd (pinned api v n s))))"
  using assms holds_page_log [OF assms(1-3)] by (simp add: pin_log_def holds_append)

lemma unat_le_64:
  fixes n :: u64
  assumes "l \<le> unat n"
  shows "l < 18446744073709551616"
proof -
  have "unat n < 2 ^ LENGTH(64)" by (rule unsigned_less)
  with assms show ?thesis by simp
qed

text \<open>As many addresses as pages pinned fit in the descriptor's count.\<close>

lemma pinned_count:
  assumes "map_api_ok api" and "0 < fst (pinned api v n s)" and "length bs = length (snd (pinned api v n s))"
  shows "unat (of_nat (length bs) :: u64) = length bs"
    and "int (length (snd (pinned api v n s))) = fst (pinned api v n s)"
proof -
  show r: "int (length (snd (pinned api v n s))) = fst (pinned api v n s)"
    using assms(1,2) unfolding map_api_ok_def pinned_def by metis
  moreover have "fst (pinned api v n s) \<le> int (unat n)"
    using assms(1,2) unfolding map_api_ok_def pinned_def by metis
  ultimately have "length bs \<le> unat n" unfolding assms(3) by (metis of_nat_le_iff)
  then show "unat (of_nat (length bs) :: u64) = length bs"
    using unat_le_64 [of "length bs" n] by (simp add: unat_of_nat)
qed

text \<open>A kernel for the witnesses: what pinning, mapping and allocating return is given.\<close>

definition sample_api :: "int \<times> addr list \<Rightarrow> int \<Rightarrow> addr \<Rightarrow> map_api" where
  "sample_api got err p =
     \<lparr>ma_mem = \<lparr>kmalloc_result = (\<lambda>k sz. if k = [] then p else 0x2000),
                dma_alloc_result = (\<lambda>k sz. (0xa000, 0xb000))\<rparr>,
      ma_gup = (\<lambda>k v n. if fst got \<le> int (unat n) then got else (- 14, [])),
      ma_dma_map = (\<lambda>k pg. pg + 0x10000), ma_dma_error = (\<lambda>b. err), ma_current = 0x7000\<rparr>"

definition no_maps :: maps where
  "no_maps = \<lparr>ms_desc = Map.empty, ms_pages = Map.empty, ms_calls = []\<rparr>"

lemma sample_api_ok:
  assumes "0 < fst got \<longrightarrow> int (length (snd got)) = fst got" and "\<not> IS_ERR p"
  shows "map_api_ok (sample_api got err p)"
  using assms by (simp add: map_api_ok_def sample_api_def IS_ERR_def)

lemma sample_runs:
  "desc_alloc (sample_api got err p) n no_maps = p"
  "page_alloc (sample_api got err p) n no_maps = 0x2000"
  "fst got \<le> int (unat n) \<Longrightarrow> pinned (sample_api got err p) v n no_maps = got"
  "holds (ms_calls no_maps) = Some {#}"
  "ma_dma_error (sample_api got err p) b = err"
  by (simp_all add: desc_alloc_def page_alloc_def desc_log_def pinned_def sample_api_def no_maps_def holds_def)

lemmas sample_simps = sample_runs sample_api_ok good_count_def IS_ERR_def

subsection \<open>Properties\<close>

text \<open>
  C19. Mapping user memory. When both allocations succeed, get_user_pages pins at least one page
  and every page can be mapped for DMA, map_userspace returns the descriptor: it belongs to the calling task, starts
  at the page of the address given, has one bus address per page pinned, in order, and the driver then
  holds exactly the descriptor, the page array, a reference to every page and a mapping of every page.
\<close>

theorem map_userspace_maps:
  assumes "good_count n" and "map_api_ok api" and "desc_alloc api n s \<noteq> NULL"
    and "page_alloc api n s \<noteq> NULL" and "0 < fst (pinned api v n s)"
    and "\<forall>b. ma_dma_error api b = 0" and "holds (ms_calls s) = Some R"
  shows "\<exists>s' d bs. map_userspace api pdev v n s = Inr (s', desc_alloc api n s)
    \<and> ms_desc s' (desc_alloc api n s) = Some d \<and> mp_owner d = ma_current api
    \<and> mp_vaddr d = (v AND PAGE_MASK) \<and> mp_pdev d = pdev \<and> mp_release d
    \<and> int (unat (mp_n_addrs d)) = fst (pinned api v n s)
    \<and> take (unat (mp_n_addrs d)) (mp_addrs d) = bs
    \<and> ms_calls s' = pin_log api v n s @ map2 mapped (snd (pinned api v n s)) bs
    \<and> holds (ms_calls s') = Some (R + {#Kfree (desc_alloc api n s), Kfree (page_alloc api n s)#}
        + mset (map PutPage (snd (pinned api v n s))) + mset (map DmaUnmapPage bs))"
  using assms(1,2) refl assms(3-5)
proof (rule pages_pinned [of _ _ _ _ _ pdev])
  fix bs s'
  assume bs: "length bs = length (snd (pinned api v n s))"
    and run: "map_userspace api pdev v n s = Inr (s', desc_alloc api n s)"
    and log: "ms_calls s' = pin_log api v n s @ map2 mapped (snd (pinned api v n s)) bs"
    and desc: "ms_desc s' = (ms_desc s)(desc_alloc api n s \<mapsto> mapped_desc api pdev v n s bs)"
  note u = pinned_count [OF assms(2,5) bs]
  show ?thesis
    using run desc u holds_mapped [OF holds_pin_log [OF assms(7,3-5)] bs]
    by (intro exI [of _ s'] exI [of _ "mapped_desc api pdev v n s bs"] exI [of _ bs])
      (simp add: log mapped_desc_def fresh_desc_def flip: bs)
qed (use assms(6) in simp)

theorem map_userspace_maps_witness:
  "\<exists>s' d bs. map_userspace (sample_api (2, [0x5000, 0x6000]) 0 0x1000) 9 0x1234 2 no_maps = Inr (s', 0x1000)
    \<and> ms_desc s' 0x1000 = Some d \<and> take (unat (mp_n_addrs d)) (mp_addrs d) = bs"
  using map_userspace_maps [of 2 "sample_api (2, [0x5000, 0x6000]) 0 0x1000" no_maps "0x1234" "{#}" 9]
  by (auto simp: sample_simps)

text \<open>
  C20. unmap_and_release_map undoes map_userspace: every page is unmapped and put, both allocations are
  freed, nothing is released that is not held, and the descriptor is gone.
\<close>

theorem map_unmap_balanced:
  assumes "good_count n" and "map_api_ok api" and "desc_alloc api n s \<noteq> NULL"
    and "page_alloc api n s \<noteq> NULL" and "0 < fst (pinned api v n s)"
    and "\<forall>b. ma_dma_error api b = 0" and "holds (ms_calls s) = Some R"
  shows "\<exists>s1 s2. map_userspace api pdev v n s = Inr (s1, desc_alloc api n s)
    \<and> unmap_and_release_map (desc_alloc api n s) s1 = Inr s2
    \<and> holds (ms_calls s2) = Some R \<and> ms_desc s2 = (ms_desc s)(desc_alloc api n s := None)"
  using assms(1,2) refl assms(3-5)
proof (rule pages_pinned [of _ _ _ _ _ pdev])
  let ?m = "desc_alloc api n s" and ?p = "page_alloc api n s" and ?got = "snd (pinned api v n s)"
  fix bs s1
  assume bs: "length bs = length ?got"
    and run: "map_userspace api pdev v n s = Inr (s1, ?m)"
    and log: "ms_calls s1 = pin_log api v n s @ map2 mapped ?got bs"
    and desc: "ms_desc s1 = (ms_desc s)(?m \<mapsto> mapped_desc api pdev v n s bs)"
    and "\<exists>rest. ms_pages s1 ?p = Some (?got @ rest)"
  then obtain rest where pg: "ms_pages s1 ?p = Some (?got @ rest)" by blast
  note u = pinned_count(1) [OF assms(2,5) bs]
  let ?rel = "map DmaUnmapPage bs @ map PutPage ?got @ [Kfree ?p, Kfree ?m]"
  let ?s2 = "s1\<lparr>ms_pages := (ms_pages s1)(?p := None), ms_desc := (ms_desc s)(?m := None),
    ms_calls := ms_calls s1 @ ?rel\<rparr>"
  have "unmap_and_release_map ?m s1 = Inr ?s2"
    using desc pg assms(4) u
    by (simp add: unmap_and_release_map_def release_user_pages_def desc_at_def desc_upd_def
        mapped_desc_def kfree_def Let_def flip: bs)
  moreover have "holds (ms_calls s1 @ ?rel) = Some R"
    using holds_mapped [OF holds_pin_log [OF assms(7,3-5)] bs] assms(3,4)
    by (intro holds_released) (auto simp: log ac_simps)
  ultimately show ?thesis using run by auto
qed (use assms(6) in simp)

theorem map_unmap_balanced_witness:
  "\<exists>s1 s2. map_userspace (sample_api (2, [0x5000, 0x6000]) 0 0x1000) 9 0x1234 2 no_maps = Inr (s1, 0x1000)
    \<and> unmap_and_release_map 0x1000 s1 = Inr s2 \<and> holds (ms_calls s2) = Some {#}"
  using map_unmap_balanced [of 2 "sample_api (2, [0x5000, 0x6000]) 0 0x1000" no_maps "0x1234" "{#}" 9]
  by (auto simp: sample_simps)

text \<open>
  C21. The errors before any page is mapped, each with everything released: no page is EINVAL and touches nothing; a
  failed allocation of the descriptor or of the page array is ENOMEM; a negative result of get_user_pages is returned
  as it is.
\<close>

theorem map_userspace_errors:
  assumes "map_api_ok api" and "holds (ms_calls s) = Some R"
  shows "map_userspace api pdev v 0 s = Inr (s, ERR_PTR (- 22))
    \<and> (good_count n \<and> (desc_alloc api n s = NULL \<or> page_alloc api n s = NULL) \<longrightarrow>
        (\<exists>s'. map_userspace api pdev v n s = Inr (s', ERR_PTR (- 12)) \<and> holds (ms_calls s') = Some R))
    \<and> (good_count n \<and> desc_alloc api n s \<noteq> NULL \<and> page_alloc api n s \<noteq> NULL
        \<and> fst (pinned api v n s) < 0 \<longrightarrow>
        (\<exists>s'. map_userspace api pdev v n s = Inr (s', ERR_PTR (fst (pinned api v n s)))
          \<and> holds (ms_calls s') = Some R \<and> ms_desc s' = (ms_desc s)(desc_alloc api n s := None)))"
proof (intro conjI impI)
  show "map_userspace api pdev v 0 s = Inr (s, ERR_PTR (- 22))" by (simp add: map_userspace_def)
next
  assume a: "good_count n \<and> (desc_alloc api n s = NULL \<or> page_alloc api n s = NULL)"
  show "\<exists>s'. map_userspace api pdev v n s = Inr (s', ERR_PTR (- 12)) \<and> holds (ms_calls s') = Some R"
  proof (cases "desc_alloc api n s = NULL")
    case True
    with a no_desc [of n api s pdev v] assms(2) show ?thesis
      by (auto simp: desc_log_def holds_append)
  next
    case False
    with a no_pages(1) [OF _ assms(1) refl False, of pdev v] assms(2) show ?thesis
      by (auto simp: page_log_def desc_log_def holds_append)
  qed
next
  assume a: "good_count n \<and> desc_alloc api n s \<noteq> NULL \<and> page_alloc api n s \<noteq> NULL
    \<and> fst (pinned api v n s) < 0"
  then have "holds (pin_log api v n s @ [Kfree (page_alloc api n s), Kfree (desc_alloc api n s)]) = Some R"
    using holds_page_log [OF assms(2), of api n] by (simp add: pin_log_def holds_append)
  with a no_pages(2) [OF _ assms(1) refl, of n s v pdev]
  show "\<exists>s'. map_userspace api pdev v n s = Inr (s', ERR_PTR (fst (pinned api v n s)))
      \<and> holds (ms_calls s') = Some R \<and> ms_desc s' = (ms_desc s)(desc_alloc api n s := None)"
    by auto
qed

theorem map_userspace_errors_witness:
  "map_userspace (sample_api (- 14, []) 0 0x1000) 9 0x1234 0 no_maps = Inr (no_maps, ERR_PTR (- 22))
    \<and> (\<exists>s'. map_userspace (sample_api (- 14, []) 0 0x1000) 9 0x1234 2 no_maps = Inr (s', ERR_PTR (- 14)))
    \<and> (\<exists>s'. map_userspace (sample_api (- 14, []) 0 NULL) 9 0x1234 2 no_maps = Inr (s', ERR_PTR (- 12)))"
  using map_userspace_errors [of "sample_api (- 14, []) 0 0x1000" no_maps "{#}" 9 "0x1234" 2]
    map_userspace_errors [of "sample_api (- 14, []) 0 NULL" no_maps "{#}" 9 "0x1234" 2]
  by (auto simp: sample_simps)

text \<open>
  When get_user_pages pins no page at all and returns 0, map_userspace reports success: it returns a descriptor
  that claims all the pages asked for, with bus address 0 for every one of them, and no release
  callback. The value 0 of map_user_pages means success to its caller.
\<close>

theorem map_zero_pages_succeeds:
  assumes "good_count n" and "map_api_ok api" and "desc_alloc api n s \<noteq> NULL"
    and "page_alloc api n s \<noteq> NULL" and "fst (pinned api v n s) = 0"
  shows "\<exists>s' d. map_userspace api pdev v n s = Inr (s', desc_alloc api n s)
    \<and> \<not> IS_ERR (desc_alloc api n s) \<and> ms_desc s' (desc_alloc api n s) = Some d
    \<and> mp_n_addrs d = n \<and> mp_addrs d = replicate (unat n) 0 \<and> \<not> mp_release d"
  using no_pages(3) [OF assms(1,2) refl assms(3-5)] assms(2)
  by (auto simp: fresh_desc_def map_api_ok_def desc_alloc_def)

theorem map_zero_pages_succeeds_witness:
  "\<exists>s' d. map_userspace (sample_api (0, []) 0 0x1000) 9 0x1234 2 no_maps = Inr (s', 0x1000) \<and> ms_desc s' 0x1000 = Some d
    \<and> mp_n_addrs d = 2 \<and> mp_addrs d = replicate (unat (2 :: u64)) 0"
  using map_zero_pages_succeeds [of 2 "sample_api (0, []) 0 0x1000" no_maps "0x1234" 9]
  by (auto simp: sample_simps)

text \<open>
  C34. When no page can be mapped for DMA the function returns the error, and on the way unmaps bus address 0, which
  was never mapped, once for every page: release_user_pages walks all addresses of the descriptor and not only those
  that were mapped.
\<close>

theorem dma_failure_unmaps_unmapped:
  assumes "good_count n" and "map_api_ok api" and "desc_alloc api n s \<noteq> NULL"
    and "page_alloc api n s \<noteq> NULL" and "0 < fst (pinned api v n s)"
    and "\<forall>b. ma_dma_error api b \<noteq> 0" and "holds (ms_calls s) = Some R" and "DmaUnmapPage 0 \<notin># R"
  shows "\<exists>s' b. map_userspace api pdev v n s = Inr (s', ERR_PTR (ma_dma_error api b))
    \<and> int (count (mset (drop (length (pin_log api v n s)) (ms_calls s'))) (DmaUnmapPage 0)) =
        fst (pinned api v n s)
    \<and> holds (ms_calls s') = None"
  using assms(1,2) refl assms(3-5)
proof (rule pages_pinned [of _ _ _ _ _ pdev])
  let ?m = "desc_alloc api n s" and ?p = "page_alloc api n s" and ?got = "snd (pinned api v n s)"
  fix bs b e s'
  assume bs: "\<forall>b \<in> set bs. ma_dma_error api b = 0" and e: "e = ma_dma_error api b" "e \<noteq> 0"
    and run: "map_userspace api pdev v n s = Inr (s', ERR_PTR e)"
    and log: "ms_calls s' = pin_log api v n s @ map2 mapped (take (length bs) ?got) bs
      @ DmaMapPage (?got ! length bs) b e
      # map DmaUnmapPage (bs @ replicate (length ?got - length bs) 0)
      @ map PutPage ?got @ [Kfree ?p, Kfree ?m]"
  have none: "bs = []" using bs assms(6) by (cases bs) auto
  have r: "int (length ?got) = fst (pinned api v n s)"
    using assms(2,5) unfolding map_api_ok_def pinned_def by metis
  then obtain k where k: "length ?got = Suc k" using assms(5) by (cases "length ?got") auto
  have notin: "DmaUnmapPage 0 \<notin> PutPage ` set ?got" by auto
  then have "holds (ms_calls s') = None"
    using holds_pin_log [OF assms(7,3-5)] assms(8) e(2) by (simp add: log none holds_append k)
  moreover have "count (mset (drop (length (pin_log api v n s)) (ms_calls s'))) (DmaUnmapPage 0) = length ?got"
    using notin by (simp add: log none flip: mset_map)
  ultimately show ?thesis using run r e(1) by auto
next
  fix bs s'
  assume "\<forall>b \<in> set bs. ma_dma_error api b = 0" "length bs = length (snd (pinned api v n s))"
  moreover have "0 < length (snd (pinned api v n s))"
    using assms(2,5) unfolding map_api_ok_def pinned_def by (metis of_nat_0_less_iff)
  ultimately show ?thesis using assms(6) by (cases bs) auto
qed

theorem dma_failure_unmaps_unmapped_witness:
  "\<exists>s'. map_userspace (sample_api (2, [0x5000, 0x6000]) (- 5) 0x1000) 9 0x1234 2 no_maps = Inr (s', ERR_PTR (- 5))
    \<and> holds (ms_calls s') = None"
  using dma_failure_unmaps_unmapped [of 2 "sample_api (2, [0x5000, 0x6000]) (- 5) 0x1000" no_maps "0x1234" "{#}" 9]
  by (auto simp: sample_simps)

text \<open>
  The descriptor's allocation has room for exactly the addresses it is to hold, for up to 2^60 pages; the sizes
  are computed modulo 2^64, and for 2^61 + 1 pages the allocation is as large as for one page, so that the loop that
  clears the addresses runs past its end.
\<close>

lemma descriptor_room:
  assumes "good_count n" and "kmalloc_result (ma_mem api) (ms_calls s) 64 \<noteq> NULL"
  shows "addrs_room (sizeof_map + (n - 1) * 8) = unat n
    \<and> create_descriptor api pdev v 0x2000000000000001 s = Inl (OutOfBounds 1)"
proof
  show "addrs_room (sizeof_map + (n - 1) * 8) = unat n"
    using assms(1) by (intro addrs_room_exact) (simp_all add: good_count_def)
  show "create_descriptor api pdev v 0x2000000000000001 s = Inl (OutOfBounds 1)"
  proof -
    have "sizeof_map + (0x2000000000000001 - 1) * 8 = 64"
      by (simp add: sizeof_map_def)
    with assms(2) show ?thesis
      by (simp only: create_descriptor_def kmalloc_def addrs_room_def Let_def prod.case if_False) simp
  qed
qed

end
