(* ===== verification/Iobuf.thy ===== *)
theory Iobuf
  imports Dma_Map Intrusive_List
begin

section \<open>Host I/O buffers (common/iobuf.h, kernel/nvme/admin.c)\<close>

text \<open>
  An I/O buffer is a range of user memory mapped for DMA with a PRP list in coherent memory: per
  entry a page of 512 addresses, the first address of the entry in the last slot and the others from
  the first slot on. Buffers are on the admin queue's list \<open>host_io_list\<close> through their member \<open>list\<close>, 56
  bytes into the struct.

  \<open>create_host_io_buf\<close> asks \<open>kcalloc\<close> for the size of a pointer and then uses a whole struct. How many
  bytes of an allocation can be used is a parameter, at least the size asked for; so is what the struct holds
  beyond the bytes that were cleared. The object \<open>prp_list_dma_addr\<close> points to is a cell of \<open>b_cells\<close>.
\<close>

record iobuf =
  io_virt_addr :: u64
  io_page_size :: u64
  io_pages_per_entry :: u64
  io_num_entries :: u64
  io_prp_list_phys :: addr
  io_prp_list_dma_addr :: addr
  io_map :: addr

record buf_api =
  ba_map :: map_api
  ba_usable :: "u64 \<Rightarrow> u64"
  ba_stale :: addr
  ba_node :: list_node
  ba_fill :: "nat \<Rightarrow> u64"

record bufs =
  b_maps :: maps
  b_lists :: lheap
  b_bufs :: "addr \<rightharpoonup> iobuf"
  b_cells :: "addr \<rightharpoonup> u64"
  b_prp :: "addr \<rightharpoonup> u64 list"

definition sizeof_iobuf :: u64 where
  "sizeof_iobuf = 88"

definition io_node :: "addr \<Rightarrow> addr" where
  "io_node io = io + 56"

definition io_of :: "addr \<Rightarrow> addr" where
  "io_of e = e - 56"

definition io_at :: "bufs \<Rightarrow> addr \<Rightarrow> iobuf res" where
  "io_at s io =
     (case b_bufs s io of
       None \<Rightarrow> Inl (if io = NULL then NullDeref else UseAfterFree io)
     | Some b \<Rightarrow> Inr b)"

definition cell_at :: "bufs \<Rightarrow> addr \<Rightarrow> u64 res" where
  "cell_at s p =
     (case b_cells s p of None \<Rightarrow> Inl (if p = NULL then NullDeref else BadAccess p) | Some v \<Rightarrow> Inr v)"

definition iobuf_find :: "buf_api \<Rightarrow> addr \<Rightarrow> u64 \<Rightarrow> bufs \<Rightarrow> addr res option" where
  "iobuf_find api l vaddr s =
     bindO (list_find (list_next (b_lists s)) (\<lambda>e.
       bindE (io_at s (io_of e)) (\<lambda>b.
       bindE (desc_at (b_maps s) (io_map b)) (\<lambda>d.
       Inr (mp_owner d = ma_current (ba_map api)
         \<and> (io_virt_addr b = vaddr AND PAGE_MASK \<or> io_virt_addr b = vaddr AND GPU_PAGE_MASK))))) l) (\<lambda>e.
     Some (Inr (if e = NULL then NULL else io_of e)))"

text \<open>What deleting and clearing do to a buffer: the PRP list, the mapping, the struct.\<close>

definition free_iobuf :: "addr \<Rightarrow> bufs \<Rightarrow> bufs res" where
  "free_iobuf io s =
     bindE (io_at s io) (\<lambda>b.
     bindE (cell_at s (io_prp_list_dma_addr b)) (\<lambda>bus.
     let va = io_prp_list_phys b;
         k = dma_free_coherent (io_num_entries b * io_pages_per_entry b * io_page_size b) va bus (ms_calls (b_maps s))
     in bindE (unmap_and_release_map (io_map b) ((b_maps s)\<lparr>ms_calls := k\<rparr>)) (\<lambda>M.
     Inr (s\<lparr>b_maps := M\<lparr>ms_calls := kfree io (ms_calls M)\<rparr>,
            b_lists := (b_lists s)\<lparr>nodes := (nodes (b_lists s))(io_node io := None)\<rparr>,
            b_bufs := (b_bufs s)(io := None), b_prp := (b_prp s)(va := None)\<rparr>))))"

definition delete_host_io_buf :: "buf_api \<Rightarrow> addr \<Rightarrow> u64 \<Rightarrow> bufs \<Rightarrow> bufs res option" where
  "delete_host_io_buf api l vaddr s =
     bindO (iobuf_find api l vaddr s) (\<lambda>io.
     bindO (Some (list_remove (b_lists s) (io_node io))) (\<lambda>L.
     Some (free_iobuf io (s\<lparr>b_lists := L\<rparr>))))"

partial_function (option) clear_loop :: "addr \<Rightarrow> addr \<Rightarrow> u64 \<Rightarrow> bufs \<Rightarrow> (bufs \<times> u64) res option" where
  "clear_loop l p i s =
     (if p = NULL then Some (Inr (s, i))
      else
        bindO (Some (free_iobuf (io_of p) s)) (\<lambda>s1.
        bindO (Some (list_next (b_lists s1) l)) (\<lambda>p1.
        clear_loop l p1 (i + 1) s1)))"

definition clear_host_io_list :: "addr \<Rightarrow> bufs \<Rightarrow> (bufs \<times> u64) res option" where
  "clear_host_io_list l s =
     bindO (Some (list_next (b_lists s) l)) (\<lambda>p. clear_loop l p 0 s)"

text \<open>
  The loops that fill the PRP list, over the words of the list and the addresses of the mapping. The
  counters have 32 bits, the bounds 64.
\<close>

partial_function (option) prp_inner ::
  "u64 list \<Rightarrow> u64 \<Rightarrow> u32 \<Rightarrow> u32 \<Rightarrow> u64 list \<Rightarrow> u64 list res option" where
  "prp_inner addrs ppe i j ws =
     (if ucast j < ppe then
        bindO (Some (rd addrs (unat (ucast i * ppe + ucast j)))) (\<lambda>b.
        bindO (Some (wr ws (unat (ucast i * 512 + ucast (j - 1) :: u64)) b)) (\<lambda>ws1.
        prp_inner addrs ppe i (j + 1) ws1))
      else Some (Inr ws))"

partial_function (option) prp_outer ::
  "u64 list \<Rightarrow> u64 \<Rightarrow> u64 \<Rightarrow> u32 \<Rightarrow> u64 list \<Rightarrow> u64 list res option" where
  "prp_outer addrs ppe ne i ws =
     (if ucast i < ne then
        bindO (Some (rd addrs (unat (ucast i * ppe)))) (\<lambda>b.
        bindO (Some (wr ws (unat (ucast i * 512 + 511 :: u64)) b)) (\<lambda>ws1.
        bindO (prp_inner addrs ppe i 1 ws1) (\<lambda>ws2.
        prp_outer addrs ppe ne (i + 1) ws2)))
      else Some (Inr ws))"

text \<open>The struct and the memory of its PRP list.\<close>

definition new_iobuf ::
  "buf_api \<Rightarrow> addr \<Rightarrow> u64 \<Rightarrow> u64 \<Rightarrow> u64 \<Rightarrow> bufs \<Rightarrow> (bufs \<times> addr) res" where
  "new_iobuf api m page_size ppe ne s =
     (let mem = ma_mem (ba_map api);
          (io, k) = kcalloc mem 1 8 (ms_calls (b_maps s))
      in if io = NULL then Inl NullDeref
      else if ba_usable api 8 < sizeof_iobuf then Inl (OutOfBounds 8)
      else
        bindE (desc_at (b_maps s) m) (\<lambda>d.
        let (va, bus, k1) = dma_alloc_coherent mem (ne * PAGE_SIZE) k;
            b = \<lparr>io_virt_addr = mp_vaddr d, io_page_size = page_size, io_pages_per_entry = ppe,
                 io_num_entries = ne, io_prp_list_phys = va, io_prp_list_dma_addr = ba_stale api, io_map = m\<rparr>;
            s1 = s\<lparr>b_maps := (b_maps s)\<lparr>ms_calls := k1\<rparr>, b_lists := put_node (b_lists s) (io_node io) (ba_node api),
                   b_bufs := (b_bufs s)(io \<mapsto> b)\<rparr>
        in if va = NULL then Inr (s1, io)
           else bindE (cell_at s1 (ba_stale api)) (\<lambda>_.
             Inr (s1\<lparr>b_cells := (b_cells s)(ba_stale api \<mapsto> bus),
                      b_prp := (b_prp s)(va \<mapsto> map (ba_fill api) [0..<unat ne * 512])\<rparr>, io))))"

definition create_host_io_buf ::
  "buf_api \<Rightarrow> addr \<Rightarrow> addr \<Rightarrow> u64 \<Rightarrow> u64 \<Rightarrow> u64 \<Rightarrow> u64 \<Rightarrow> bufs \<Rightarrow> (bufs \<times> addr) res option" where
  "create_host_io_buf api l pdev page_size ppe ne vaddr s =
     bindO (Some (map_userspace (ba_map api) pdev vaddr ((page_size * ppe * ne) div PAGE_SIZE) (b_maps s)))
       (\<lambda>(M, m).
     let s1 = s\<lparr>b_maps := M\<rparr> in
     if IS_ERR m \<or> m = NULL then Some (Inr (s1, word_of_int (PTR_ERR m)))
     else
       bindO (Some (new_iobuf api m page_size ppe ne s1)) (\<lambda>(s2, io).
       bindO (Some (io_at s2 io)) (\<lambda>b.
       bindO (Some (desc_at (b_maps s2) m)) (\<lambda>d.
       let va = io_prp_list_phys b in
       bindO (prp_outer (mp_addrs d) ppe ne 0 (case b_prp s2 va of None \<Rightarrow> [] | Some ws \<Rightarrow> ws)) (\<lambda>ws.
       let s3 = (if va = NULL then s2 else s2\<lparr>b_prp := (b_prp s2)(va \<mapsto> ws)\<rparr>) in
       bindO (Some (list_insert (b_lists s3) l (io_node io))) (\<lambda>L.
       Some (Inr (s3\<lparr>b_lists := L\<rparr>, io))))))))"

subsection \<open>Filling the PRP list\<close>

text \<open>
  The list after \<open>n\<close> entries of \<open>ppe\<close> pages, word by word: slot 511 of an entry has its first
  address, the slots before \<open>ppe - 1\<close> the others; the rest is as it was.
\<close>

definition prp_word :: "u64 list \<Rightarrow> nat \<Rightarrow> nat \<Rightarrow> u64 list \<Rightarrow> nat \<Rightarrow> u64" where
  "prp_word addrs ppe n ws w =
     (let i = w div 512; r = w mod 512 in
      if n \<le> i then ws ! w
      else if r = 511 then addrs ! (i * ppe)
      else if Suc r < ppe then addrs ! (i * ppe + Suc r) else ws ! w)"

text \<open>The index computations, in 64 bits and without wrap-around for lists that fit in memory.\<close>

lemma prp_slot_index: "unat (ucast (i :: u32) * 512 + ucast (j :: u32) :: u64) = unat i * 512 + unat j"
proof -
  have "unat i < 2 ^ LENGTH(32)" "unat j < 2 ^ LENGTH(32)" by (rule unsigned_less)+
  then show ?thesis by (simp add: unat_word_ariths unat_ucast_mod)
qed

lemma addr_index:
  assumes "unat (i :: u32) * unat (ppe :: u64) + unat (j :: u32) < 2 ^ 60"
  shows "unat (ucast i * ppe + ucast j) = unat i * unat ppe + unat j"
proof -
  have "unat i < 2 ^ LENGTH(32)" "unat j < 2 ^ LENGTH(32)" by (rule unsigned_less)+
  then show ?thesis using assms by (simp add: unat_word_ariths unat_ucast_mod)
qed

lemma prp_inner_runs:
  assumes "1 \<le> unat j" and "unat j \<le> unat ppe" and "unat ppe \<le> 512" and "unat i * unat ppe + unat ppe \<le> length addrs"
    and "unat i * 512 + 512 \<le> length ws" and "length addrs < 2 ^ 60"
  shows "\<exists>ws'. prp_inner addrs ppe i j ws = Some (Inr ws') \<and> length ws' = length ws
    \<and> (\<forall>w < length ws. ws' ! w =
        (if unat i * 512 + unat j \<le> Suc w \<and> Suc w < unat i * 512 + unat ppe
         then addrs ! (unat i * unat ppe + (Suc w - unat i * 512)) else ws ! w))"
  using assms
proof (induction "unat ppe - unat j" arbitrary: j ws)
  case 0
  then have "\<not> (ucast j :: u64) < ppe" by (simp add: word_less_nat_alt unat_ucast_mod)
  with 0 show ?case by (subst prp_inner.simps) auto
next
  case (Suc n)
  have jl: "unat j < 2 ^ LENGTH(32)" by (rule unsigned_less)
  have lt: "(ucast j :: u64) < ppe" "unat j < unat ppe"
    using Suc.hyps(2) jl by (simp_all add: word_less_nat_alt unat_ucast_mod)
  have j1: "unat (j - 1) = unat j - 1" "unat (j + 1) = unat j + 1"
    using Suc.prems(1,3) lt(2) by (simp_all add: unat_sub word_le_nat_alt unat_word_ariths)
  have ix: "unat (ucast i * ppe + ucast j) = unat i * unat ppe + unat j"
    "unat (ucast i * 512 + ucast (j - 1) :: u64) = unat i * 512 + unat (j - 1)"
    using Suc.prems lt(2) by (auto intro: addr_index prp_slot_index)
  have n: "n = unat ppe - unat (j + 1)" using Suc.hyps(2) j1 by simp
  let ?ws = "ws[unat i * 512 + unat (j - 1) := addrs ! (unat i * unat ppe + unat j)]"
  have step: "prp_inner addrs ppe i j ws = prp_inner addrs ppe i (j + 1) ?ws"
    using lt Suc.prems j1 by (subst prp_inner.simps) (simp add: ix)
  obtain ws' where ws': "prp_inner addrs ppe i (j + 1) ?ws = Some (Inr ws')" "length ws' = length ?ws"
    "\<forall>w < length ?ws. ws' ! w =
        (if unat i * 512 + unat (j + 1) \<le> Suc w \<and> Suc w < unat i * 512 + unat ppe
         then addrs ! (unat i * unat ppe + (Suc w - unat i * 512)) else ?ws ! w)"
    using Suc.hyps(1) [OF n, of ?ws] Suc.prems lt j1 by auto
  show ?case
    using ws' step j1 Suc.prems(1) lt(2) by (intro exI [of _ ws']) (auto simp: nth_list_update)
qed

lemma prp_outer_runs:
  assumes "unat i \<le> unat ne" and "unat ne < 2 ^ 32" and "1 \<le> unat ppe" and "unat ppe \<le> 512"
    and "unat ne * unat ppe \<le> length addrs" and "length ws = unat ne * 512" and "length addrs < 2 ^ 60"
  shows "\<exists>ws'. prp_outer addrs ppe ne i ws = Some (Inr ws') \<and> length ws' = length ws
    \<and> (\<forall>w < length ws. ws' ! w = (if w div 512 < unat i then ws ! w else prp_word addrs (unat ppe) (unat ne) ws w))"
  using assms
proof (induction "unat ne - unat i" arbitrary: i ws)
  case 0
  then have "\<not> (ucast i :: u64) < ne" by (simp add: word_less_nat_alt unat_ucast_mod)
  with 0 show ?case
    by (subst prp_outer.simps) (auto simp: prp_word_def Let_def)
next
  case (Suc n)
  have lt: "(ucast i :: u64) < ne" "unat i < unat ne"
    using Suc.hyps(2) unsigned_less [of i] by (simp_all add: word_less_nat_alt unat_ucast_mod)
  have i1: "unat (i + 1) = unat i + 1"
    using Suc.prems(2) lt(2) by (simp add: unat_word_ariths)
  have n: "n = unat ne - unat (i + 1)" using Suc.hyps(2) i1 by simp
  have "(unat i + 1) * unat ppe \<le> unat ne * unat ppe" using lt(2) by (intro mult_right_mono) simp_all
  then have room: "unat i * unat ppe + unat ppe \<le> length addrs" using Suc.prems(5) by (simp add: algebra_simps)
  have slot: "unat i * 512 + 512 \<le> length ws" using lt(2) Suc.prems(6) by simp
  have ix: "unat (ucast i * ppe) = unat i * unat ppe" "unat (ucast i * 512 + 511 :: u64) = unat i * 512 + 511"
    using addr_index [of i ppe 0] prp_slot_index [of i 511] room Suc.prems(3,7) by simp_all
  let ?ws = "ws[unat i * 512 + 511 := addrs ! (unat i * unat ppe)]"
  obtain w1 where w1: "prp_inner addrs ppe i 1 ?ws = Some (Inr w1)" "length w1 = length ws"
    "\<And>w. w < length ws \<Longrightarrow> w1 ! w = (if unat i * 512 \<le> w \<and> Suc w < unat i * 512 + unat ppe
         then addrs ! (unat i * unat ppe + (Suc w - unat i * 512)) else ?ws ! w)"
    using prp_inner_runs [of 1 ppe i addrs ?ws] Suc.prems(3,4,7) room slot by auto
  have step: "prp_outer addrs ppe ne i ws = prp_outer addrs ppe ne (i + 1) w1"
    using lt room slot Suc.prems(3) w1(1) by (subst prp_outer.simps) (simp add: ix)
  obtain ws' where ws': "prp_outer addrs ppe ne (i + 1) w1 = Some (Inr ws')" "length ws' = length w1"
    "\<And>w. w < length w1 \<Longrightarrow> ws' ! w = (if w div 512 < unat (i + 1) then w1 ! w
        else prp_word addrs (unat ppe) (unat ne) w1 w)"
    using Suc.hyps(1) [OF n, of w1] Suc.prems lt w1(2) i1 by auto
  have w1_other: "w1 ! w = ws ! w" if "w < length ws" "w div 512 \<noteq> unat i" for w
  proof -
    have e: "w \<noteq> unat i * 512 + 511" "\<not> (unat i * 512 \<le> w \<and> Suc w < unat i * 512 + unat ppe)"
      using that(2) Suc.prems(4) by auto
    show ?thesis using w1(3) [OF that(1)] e(1) unfolding if_not_P [OF e(2)] by simp
  qed
  have w1_this: "w1 ! w = prp_word addrs (unat ppe) (unat ne) ws w" if "w < length ws" "w div 512 = unat i" for w
  proof -
    define r where "r = w mod 512"
    have w: "w = unat i * 512 + r" "r < 512"
      using div_mult_mod_eq [of w 512] that(2) unfolding r_def by simp_all
    show ?thesis
      using w1(3) [OF that(1)] w that lt(2) Suc.prems(4)
      by (auto simp: prp_word_def Let_def nth_list_update)
  qed
  have "ws' ! w = (if w div 512 < unat i then ws ! w else prp_word addrs (unat ppe) (unat ne) ws w)"
    if w: "w < length ws" for w
  proof -
    consider "w div 512 < unat i" | "w div 512 = unat i" | "unat i < w div 512" by linarith
    then show ?thesis
      using ws'(3) [of w] w w1(2) w1_other [OF w] w1_this [OF w] i1
      by cases (auto simp: prp_word_def Let_def)
  qed
  then show ?case using step ws'(1,2) w1(2) by auto
qed

subsection \<open>The pieces of the operations\<close>

lemma word_of_PTR_ERR: "word_of_int (PTR_ERR m) = m"
  by (simp add: PTR_ERR_def)

lemma entries_in_pages:
  assumes "unat ppe \<le> 512" and "unat ne < 2 ^ 32"
  shows "(PAGE_SIZE * ppe * ne) div PAGE_SIZE = ppe * ne" and "unat (ppe * ne) = unat ppe * unat ne"
proof -
  have b: "unat ppe * unat ne \<le> 512 * 2 ^ 32" using assms by (intro mult_mono) simp_all
  then show n: "unat (ppe * ne) = unat ppe * unat ne" by (simp add: unat_word_ariths)
  have "PAGE_SIZE * ppe * ne = PAGE_SIZE * (ppe * ne)" by (simp add: mult.assoc)
  moreover have "unat (PAGE_SIZE * (ppe * ne)) = 4096 * (unat ppe * unat ne)"
  proof -
    have "4096 * (unat ppe * unat ne) \<le> 4096 * (512 * 2 ^ 32)" using b by (rule mult_le_mono2)
    then have "4096 * (unat ppe * unat ne) < 18446744073709551616" by (rule le_less_trans) simp
    then show ?thesis using n by (simp add: PAGE_SIZE_def unat_word_ariths(2))
  qed
  ultimately have "unat ((PAGE_SIZE * ppe * ne) div PAGE_SIZE) = unat (ppe * ne)"
    using n by (simp add: unat_div PAGE_SIZE_def mult.assoc)
  then show "(PAGE_SIZE * ppe * ne) div PAGE_SIZE = ppe * ne" by (rule unsigned_word_eqI)
qed

text \<open>The struct's allocation, and that of the PRP list after it, in a state with calls \<open>k\<close>.\<close>

definition io_alloc :: "buf_api \<Rightarrow> calls \<Rightarrow> addr" where
  "io_alloc api k = kmalloc_result (ma_mem (ba_map api)) k 8"

definition prp_alloc :: "buf_api \<Rightarrow> u64 \<Rightarrow> calls \<Rightarrow> addr \<times> u64" where
  "prp_alloc api ne k = dma_alloc_result (ma_mem (ba_map api)) (k @ [Kmalloc 8 (io_alloc api k)]) (ne * PAGE_SIZE)"

lemma new_iobuf_runs:
  assumes "io_alloc api (ms_calls (b_maps s)) \<noteq> NULL" and "sizeof_iobuf \<le> ba_usable api 8"
    and "ms_desc (b_maps s) m = Some d" and "prp_alloc api ne (ms_calls (b_maps s)) = (va, bus)" and "va \<noteq> NULL"
    and "b_cells s (ba_stale api) = Some old"
  shows "new_iobuf api m ps ppe ne s = Inr (s\<lparr>
      b_maps := (b_maps s)\<lparr>ms_calls := ms_calls (b_maps s) @ [Kmalloc 8 (io_alloc api (ms_calls (b_maps s))),
        DmaAlloc (ne * PAGE_SIZE) va bus]\<rparr>,
      b_lists := put_node (b_lists s) (io_node (io_alloc api (ms_calls (b_maps s)))) (ba_node api),
      b_bufs := (b_bufs s)(io_alloc api (ms_calls (b_maps s)) \<mapsto> \<lparr>io_virt_addr = mp_vaddr d, io_page_size = ps,
        io_pages_per_entry = ppe, io_num_entries = ne, io_prp_list_phys = va,
        io_prp_list_dma_addr = ba_stale api, io_map = m\<rparr>),
      b_cells := (b_cells s)(ba_stale api \<mapsto> bus),
      b_prp := (b_prp s)(va \<mapsto> map (ba_fill api) [0..<unat ne * 512])\<rparr>, io_alloc api (ms_calls (b_maps s)))"
  using assms
  by (simp add: new_iobuf_def kcalloc_def kmalloc_def io_alloc_def prp_alloc_def desc_at_def cell_at_def
      dma_alloc_coherent_def Let_def not_less [symmetric] split: prod.splits)

lemma unmap_extends_log:
  assumes "unmap_and_release_map m s = Inr s'"
  shows "\<exists>cs. ms_calls s' = ms_calls s @ cs"
  using assms by (auto simp: unmap_and_release_map_def release_user_pages_def desc_upd_def kfree_def Let_def
      split: if_splits option.splits)

text \<open>The search, on a well-formed list of live buffers with live mappings.\<close>

definition io_fits :: "buf_api \<Rightarrow> u64 \<Rightarrow> iobuf \<Rightarrow> map_desc \<Rightarrow> bool" where
  "io_fits api vaddr b d \<longleftrightarrow> mp_owner d = ma_current (ba_map api)
     \<and> (io_virt_addr b = vaddr AND PAGE_MASK \<or> io_virt_addr b = vaddr AND GPU_PAGE_MASK)"

definition live_bufs :: "bufs \<Rightarrow> addr \<Rightarrow> addr list \<Rightarrow> (addr \<Rightarrow> iobuf) \<Rightarrow> (addr \<Rightarrow> map_desc) \<Rightarrow> bool" where
  "live_bufs s l ios B D \<longleftrightarrow> dll (b_lists s) l (map io_node ios)
     \<and> (\<forall>io \<in> set ios. io \<noteq> NULL \<and> b_bufs s io = Some (B io) \<and> ms_desc (b_maps s) (io_map (B io)) = Some (D io))"

lemma io_of_node [simp]: "io_of (io_node io) = io"
  by (simp add: io_of_def io_node_def)

lemma find_map_node: "List.find P (map io_node ios) = map_option io_node (List.find (P \<circ> io_node) ios)"
  by (induction ios) simp_all

lemma iobuf_find_live:
  assumes "live_bufs s l ios B D"
  shows "iobuf_find api l vaddr s = Some (Inr
    (case List.find (\<lambda>io. io_fits api vaddr (B io) (D io)) ios of None \<Rightarrow> NULL | Some io \<Rightarrow> io))"
proof -
  have l: "dll (b_lists s) l (map io_node ios)" using assms by (simp add: live_bufs_def)
  let ?P = "\<lambda>e. io_fits api vaddr (B (io_of e)) (D (io_of e))"
  have "list_find (list_next (b_lists s)) (\<lambda>e.
       bindE (io_at s (io_of e)) (\<lambda>b.
       bindE (desc_at (b_maps s) (io_map b)) (\<lambda>d.
       Inr (mp_owner d = ma_current (ba_map api)
         \<and> (io_virt_addr b = vaddr AND PAGE_MASK \<or> io_virt_addr b = vaddr AND GPU_PAGE_MASK))))) l =
      Some (Inr (case List.find ?P (map io_node ios) of None \<Rightarrow> NULL | Some x \<Rightarrow> x))"
    using assms by (intro kl.find_finds [OF l]) (auto simp: live_bufs_def io_at_def desc_at_def io_fits_def)
  moreover have "io_node io \<noteq> NULL" if "io \<in> set ios" for io using l that by (auto simp: dll_def)
  moreover have "io \<in> set ios" if "List.find (?P \<circ> io_node) ios = Some io" for io
    using that by (auto simp: find_Some_iff)
  ultimately show ?thesis
    by (auto simp: iobuf_find_def find_map_node comp_def split: option.splits)
qed

text \<open>Clearing: the first buffer is freed and stays on the list.\<close>

lemma clear_list_outcome:
  assumes "dll (b_lists s) l xs"
  shows "if xs = [] then clear_host_io_list l s = Some (Inr (s, 0))
    else \<exists>f. clear_host_io_list l s = Some (Inl f)"
proof (cases xs)
  case Nil
  with assms show ?thesis
    by (simp add: clear_host_io_list_def list_next_head_dll clear_loop.simps)
next
  case (Cons x ys)
  have x: "x \<noteq> NULL" "x \<noteq> l" "l \<noteq> NULL" using assms Cons by (auto simp: dll_def)
  obtain n where n: "nodes (b_lists s) l = Some n" "ln_list n = l" "ln_next n = x"
    using assms Cons by (auto simp: dll_def owned_by_def nx_def)
  have start: "clear_host_io_list l s = clear_loop l x 0 s"
    using assms Cons by (simp add: clear_host_io_list_def list_next_head_dll)
  show ?thesis
  proof (cases "free_iobuf (io_of x) s")
    case (Inl f)
    then show ?thesis
      using Cons x(1) start by (subst (asm) clear_loop.simps) simp
  next
    case (Inr s1)
    then have s1: "b_lists s1 = (b_lists s)\<lparr>nodes := (nodes (b_lists s))(x := None)\<rparr>" "b_bufs s1 (io_of x) = None"
      by (auto simp: free_iobuf_def io_of_def io_node_def Let_def)
    have nxt: "list_next (b_lists s1) l = Inr x"
      using n x by (simp add: list_next_def node_at_def s1(1))
    have "free_iobuf (io_of x) s1 = Inl (if io_of x = NULL then NullDeref else UseAfterFree (io_of x))"
      using s1(2) by (simp add: free_iobuf_def io_at_def)
    then have "clear_loop l x 1 s1 = Some (Inl (if io_of x = NULL then NullDeref else UseAfterFree (io_of x)))"
      using x(1) by (subst clear_loop.simps) simp
    then have "clear_loop l x 0 s = Some (Inl (if io_of x = NULL then NullDeref else UseAfterFree (io_of x)))"
      using Inr nxt x(1) by (subst clear_loop.simps) simp
    then show ?thesis using Cons start by simp
  qed
qed

subsection \<open>Buffers for the witnesses\<close>

text \<open>
  A task that pins two pages, an allocator that gives \<open>room\<close> bytes, an empty list at 0x100, and a
  cell for the DMA address at 0x900.
\<close>

definition small_buf_api :: "u64 \<Rightarrow> buf_api" where
  "small_buf_api room =
     \<lparr>ba_map = sample_api (2, [0x5000, 0x6000]) 0 0x1000, ba_usable = (\<lambda>n. room), ba_stale = 0x900,
      ba_node = \<lparr>ln_list = 1, ln_next = 2, ln_prev = 3\<rparr>, ba_fill = (\<lambda>w. 0)\<rparr>"

definition no_bufs :: bufs where
  "no_bufs =
     \<lparr>b_maps = no_maps,
      b_lists = \<lparr>nodes = [0x100 \<mapsto> \<lparr>ln_list = 0x100, ln_next = 0x100, ln_prev = 0x100\<rparr>], locks = (\<lambda>_. False)\<rparr>,
      b_bufs = Map.empty, b_cells = [0x900 \<mapsto> 0], b_prp = Map.empty\<rparr>"

lemma small_map:
  obtains M d where "map_userspace (ba_map (small_buf_api room)) 9 0x1234 2 (b_maps no_bufs) = Inr (M, 0x1000)"
    "ms_desc M 0x1000 = Some d" "length (mp_addrs d) = 2" "ms_calls M \<noteq> []"
proof -
  let ?api = "sample_api (2, [0x5000, 0x6000]) 0 0x1000"
  have ok: "good_count 2" "map_api_ok ?api" "0x1000 = desc_alloc ?api 2 no_maps" "(0x1000 :: addr) \<noteq> NULL"
    "page_alloc ?api 2 no_maps \<noteq> NULL" "0 < fst (pinned ?api 0x1234 2 no_maps)"
    by (simp_all add: sample_simps)
  show thesis
  proof (rule pages_pinned [OF ok, of 9])
    fix bs s' assume "length bs = length (snd (pinned ?api 0x1234 2 no_maps))"
      "map_userspace ?api 9 0x1234 2 no_maps = Inr (s', 0x1000)"
      "ms_desc s' = (ms_desc no_maps)(0x1000 \<mapsto> mapped_desc ?api 9 0x1234 2 no_maps bs)"
      "ms_calls s' = pin_log ?api 0x1234 2 no_maps @ map2 mapped (snd (pinned ?api 0x1234 2 no_maps)) bs"
    then show thesis
      using that [of s' "mapped_desc ?api 9 0x1234 2 no_maps bs"]
      by (simp add: small_buf_api_def no_bufs_def mapped_desc_def sample_runs pin_log_def)
  qed (simp add: sample_runs)
qed

text \<open>Two buffers of one page, on the list at 0x100.\<close>

definition a_buf :: "addr \<Rightarrow> iobuf" where
  "a_buf io = \<lparr>io_virt_addr = (if io = 0x1c8 then 0x4000 else 0x20000), io_page_size = 0x1000, io_pages_per_entry = 1,
     io_num_entries = 1, io_prp_list_phys = io + 0x10000, io_prp_list_dma_addr = 0x900, io_map = io + 0x20000\<rparr>"

definition a_desc :: "addr \<Rightarrow> map_desc" where
  "a_desc io = \<lparr>mp_owner = 0x7000, mp_vaddr = 0x4000, mp_pdev = 9, mp_page_size = PAGE_SIZE, mp_release = False,
     mp_n_addrs = 1, mp_data = NULL, mp_addrs = [0x5000]\<rparr>"

definition two_bufs :: bufs where
  "two_bufs = no_bufs\<lparr>b_lists := two_on_list, b_bufs := [0x1c8 \<mapsto> a_buf 0x1c8, 0x2c8 \<mapsto> a_buf 0x2c8],
     b_maps := no_maps\<lparr>ms_desc := [0x201c8 \<mapsto> a_desc 0x1c8, 0x202c8 \<mapsto> a_desc 0x2c8]\<rparr>\<rparr>"

lemma two_bufs_live: "live_bufs two_bufs 0x100 [0x1c8, 0x2c8] a_buf a_desc" "nodes (b_lists two_bufs) 56 = None"
  using two_on_list_dll(1) by (simp_all add: live_bufs_def two_bufs_def a_buf_def io_node_def)
    (simp add: two_on_list_def)

subsection \<open>Properties\<close>

text \<open>
  C28. create_host_io_buf overruns its allocation. It asks kcalloc for eight bytes, the size of a pointer: if no more
  than that can be used, a successful mapping is always followed by a write outside the allocation (or through
  NULL, since the result of kcalloc is not tested), and the function never returns a buffer. A failed mapping
  is handed on as the error pointer it is.
\<close>

theorem create_host_io_buf_overruns:
  assumes "ba_usable api 8 < sizeof_iobuf"
    and "map_userspace (ba_map api) pdev vaddr ((page_size * ppe * ne) div PAGE_SIZE) (b_maps s) = Inr (M, m)"
  shows "create_host_io_buf api l pdev page_size ppe ne vaddr s =
    (if IS_ERR m \<or> m = NULL then Some (Inr (s\<lparr>b_maps := M\<rparr>, m))
     else if io_alloc api (ms_calls M) = NULL then Some (Inl NullDeref) else Some (Inl (OutOfBounds 8)))"
  using assms
  by (simp add: create_host_io_buf_def new_iobuf_def kcalloc_def kmalloc_def io_alloc_def word_of_PTR_ERR Let_def)

theorem create_host_io_buf_overruns_witness:
  "create_host_io_buf (small_buf_api 8) 0x100 9 PAGE_SIZE 2 1 0x1234 no_bufs = Some (Inl (OutOfBounds 8))"
proof -
  obtain M d where M: "map_userspace (ba_map (small_buf_api 8)) 9 0x1234 2 (b_maps no_bufs) = Inr (M, 0x1000)"
    "ms_desc M 0x1000 = Some d" by (rule small_map)
  have "io_alloc (small_buf_api 8) (ms_calls M) \<noteq> NULL"
    by (simp add: io_alloc_def small_buf_api_def sample_api_def)
  with M(1) create_host_io_buf_overruns [of "small_buf_api 8" 9 "0x1234" PAGE_SIZE 2 1 no_bufs M "0x1000" "0x100"]
  show ?thesis by (simp add: small_buf_api_def sizeof_iobuf_def IS_ERR_def PAGE_SIZE_def)
qed



text \<open>
  The number of pages mapped is computed from \<open>page_size\<close>, the addresses are taken one per page of
  4096 bytes. Two entries of two pages of 2048 bytes are mapped as two pages, and the loop reads a third address.
\<close>

lemma small_pages_overrun:
  "create_host_io_buf (small_buf_api 96) 0x100 9 2048 2 2 0x1234 no_bufs = Some (Inl (OutOfBounds 2))"
proof -
  obtain M d where M: "map_userspace (ba_map (small_buf_api 96)) 9 0x1234 2 (b_maps no_bufs) = Inr (M, 0x1000)"
    "ms_desc M 0x1000 = Some d" "length (mp_addrs d) = 2" and k: "ms_calls M \<noteq> []" by (rule small_map)
  let ?s = "no_bufs\<lparr>b_maps := M\<rparr>" and ?api = "small_buf_api 96"
  have a: "io_alloc ?api (ms_calls M) = 0x2000" "prp_alloc ?api 2 (ms_calls M) = (0xa000, 0xb000)"
    using k by (simp_all add: io_alloc_def prp_alloc_def small_buf_api_def sample_api_def)
  have fit: "sizeof_iobuf \<le> ba_usable ?api 8" "b_cells ?s (ba_stale ?api) = Some 0"
    by (simp_all add: small_buf_api_def sizeof_iobuf_def no_bufs_def)
  have new: "new_iobuf ?api 0x1000 2048 2 2 ?s = Inr x \<Longrightarrow> io_at (fst x) (snd x) = Inr b \<Longrightarrow>
      desc_at (b_maps (fst x)) 0x1000 = Inr d \<and> io_prp_list_phys b = 0xa000
      \<and> b_prp (fst x) 0xa000 = Some (map (ba_fill ?api) [0..<1024])" for x b
    using new_iobuf_runs [of ?api ?s "0x1000" d 2 "0xa000" "0xb000" 0 2048 2] a fit M(2)
    by (auto simp: io_at_def desc_at_def)
  have one: "prp_inner as 2 0 1 ws = Some (Inr (ws[0 := as ! 1]))" if "length as = 2" "length ws = 1024" for as ws
    using that by (simp add: prp_inner.simps rd_def wr_def)
  have "prp_outer (mp_addrs d) 2 2 0 ws = Some (Inl (OutOfBounds 2))" if "length ws = 1024" for ws
    using that M(3) by (simp add: prp_outer.simps [of _ _ _ 0] prp_outer.simps [of _ _ _ 1] one rd_def wr_def)
  moreover obtain x b where "new_iobuf ?api 0x1000 2048 2 2 ?s = Inr x" "io_at (fst x) (snd x) = Inr b"
    using new_iobuf_runs [of ?api ?s "0x1000" d 2 "0xa000" "0xb000" 0 2048 2] a fit M(2)
    by (auto simp: io_at_def)
  moreover have "(2048 * 2 * 2) div PAGE_SIZE = (2 :: u64)" by (simp add: PAGE_SIZE_def)
  ultimately show ?thesis
    using M(1) new [of x b] by (cases x) (simp add: create_host_io_buf_def IS_ERR_def Let_def)
qed

text \<open>
  clear_host_io_list only works on an empty list. It frees the first buffer without taking it off the list, so
  the head still refers to it and the next round reads the freed struct: with any buffer left the
  function does not return normally.
\<close>

theorem clear_host_io_list_fails:
  assumes "dll (b_lists s) l xs"
  shows "if xs = [] then clear_host_io_list l s = Some (Inr (s, 0))
    else \<exists>f. clear_host_io_list l s = Some (Inl f)"
  by (rule clear_list_outcome [OF assms])

theorem clear_host_io_list_fails_witness: "\<exists>f. clear_host_io_list 0x100 two_bufs = Some (Inl f)"
  using clear_host_io_list_fails [of two_bufs "0x100" "[0x200, 0x300]"] two_on_list_dll(1) by (simp add: two_bufs_def)

text \<open>
  C29. delete_host_io_buf finds the first buffer of the calling task that starts at the address's page (of 4 KiB or
  64 KiB) and takes exactly this buffer off the list; without one it dereferences an address near NULL. When it returns, the
  PRP list has been freed with the number of pages of the whole buffer as its size; when that is not the size it was
  allocated with, the free is not one the driver owes.
\<close>

theorem delete_host_io_buf_spec:
  assumes "live_bufs s l ios B D" and "nodes (b_lists s) 56 = None"
  shows "(case List.find (\<lambda>io. io_fits api vaddr (B io) (D io)) ios of
      None \<Rightarrow> delete_host_io_buf api l vaddr s = Some (Inl (BadAccess 56))
    | Some io \<Rightarrow> \<exists>as bs L. ios = as @ io # bs \<and> dll L l (map io_node (as @ bs))
        \<and> delete_host_io_buf api l vaddr s = Some (free_iobuf io (s\<lparr>b_lists := L\<rparr>))
        \<and> (\<forall>s' H bus. delete_host_io_buf api l vaddr s = Some (Inr s') \<and> holds (ms_calls (b_maps s)) = Some H
            \<and> b_cells s (io_prp_list_dma_addr (B io)) = Some bus
            \<and> DmaFree (io_num_entries (B io) * io_pages_per_entry (B io) * io_page_size (B io))
                (io_prp_list_phys (B io)) bus \<notin># H \<longrightarrow> holds (ms_calls (b_maps s')) = None))"
proof (cases "List.find (\<lambda>io. io_fits api vaddr (B io) (D io)) ios")
  case None
  then show ?thesis
    using assms iobuf_find_live [OF assms(1), of api vaddr]
    by (simp add: delete_host_io_buf_def list_remove_def node_at_def io_node_def)
next
  case (Some io)
  then have io: "io \<in> set ios" by (auto simp: find_Some_iff)
  then obtain as bs where ios: "ios = as @ io # bs" by (auto simp: in_set_conv_decomp)
  have l: "dll (b_lists s) l (map io_node as @ io_node io # map io_node bs)"
    and at: "b_bufs s io = Some (B io)" using assms(1) io by (auto simp: live_bufs_def ios)
  obtain L where L: "list_remove (b_lists s) (io_node io) = Inr L" "dll L l (map io_node as @ map io_node bs)"
    using list_remove_dll [OF l] by blast
  have run: "delete_host_io_buf api l vaddr s = Some (free_iobuf io (s\<lparr>b_lists := L\<rparr>))"
    using iobuf_find_live [OF assms(1), of api vaddr] Some L(1) by (simp add: delete_host_io_buf_def)
  have "holds (ms_calls (b_maps s')) = None"
    if r: "free_iobuf io (s\<lparr>b_lists := L\<rparr>) = Inr s'" and H: "holds (ms_calls (b_maps s)) = Some H"
      and bus: "b_cells s (io_prp_list_dma_addr (B io)) = Some bus"
      and F: "DmaFree (io_num_entries (B io) * io_pages_per_entry (B io) * io_page_size (B io))
        (io_prp_list_phys (B io)) bus \<notin># H" for s' H bus
  proof -
    let ?k = "ms_calls (b_maps s) @ [DmaFree (io_num_entries (B io) * io_pages_per_entry (B io) * io_page_size (B io))
        (io_prp_list_phys (B io)) bus]"
    obtain M where M: "unmap_and_release_map (io_map (B io)) ((b_maps s)\<lparr>ms_calls := ?k\<rparr>) = Inr M"
      "ms_calls (b_maps s') = ms_calls M @ [Kfree io]"
      using r at bus by (auto simp: free_iobuf_def io_at_def cell_at_def dma_free_coherent_def kfree_def Let_def)
    obtain cs where "ms_calls M = ?k @ cs" using unmap_extends_log [OF M(1)] by auto
    then show ?thesis using M(2) H F by (simp add: holds_append)
  qed
  then show ?thesis using Some ios L(2) run by auto
qed

theorem delete_host_io_buf_spec_witness:
  "delete_host_io_buf (small_buf_api 96) 0x100 0x9999999 two_bufs = Some (Inl (BadAccess 56))
    \<and> (\<exists>L. dll L 0x100 [io_node 0x1c8]
        \<and> delete_host_io_buf (small_buf_api 96) 0x100 0x2abcd two_bufs = Some (free_iobuf 0x2c8 (two_bufs\<lparr>b_lists := L\<rparr>)))"
  using delete_host_io_buf_spec [OF two_bufs_live, of "small_buf_api 96" "0x9999999"]
    delete_host_io_buf_spec [OF two_bufs_live, of "small_buf_api 96" "0x2abcd"]
  by (auto simp: io_fits_def a_buf_def a_desc_def small_buf_api_def sample_api_def PAGE_MASK_def PAGE_SIZE_def
      GPU_PAGE_MASK_def GPU_PAGE_SIZE_def GPU_PAGE_SHIFT_def Cons_eq_append_conv)

end
