(* ===== verification/Admin_Clean.thy ===== *)
theory Admin_Clean
  imports Admin_Init Iobuf
begin

section \<open>Taking the admin queue down (kernel/nvme/admin.c)\<close>

text \<open>
  \<open>admin_clean\<close> deletes the I/O queue pairs, frees the rings and tables of the admin queue and clears the list of
  host buffers. The life of the admin queue as a whole: what \<open>admin_init\<close> and the creations of pairs take, it gives back.
\<close>

fun delete_pairs :: "'d world \<Rightarrow> nat list \<Rightarrow> 'd host \<Rightarrow> 'd host res option" where
  "delete_pairs w [] h = Some (Inr h)"
| "delete_pairs w (i # is) h = bindO (admin_delete_io_queue_pair w i h) (delete_pairs w is)"

definition free_admin_queue :: "ptrs \<Rightarrow> 'd host \<Rightarrow> calls" where
  "free_admin_queue p h =
     (let a = h_aqp h;
          k1 = dma_free_coherent (q_es (a_sq a) * ucast (q_qs (a_sq a))) (q_addr (a_sq a)) (a_sq_dma a) (h_calls h);
          k2 = dma_free_coherent (q_es (a_cq a) * ucast (q_qs (a_cq a))) (q_addr (a_cq a)) (a_cq_dma a) k1;
          k3 = kfree (p_cq_dmas p) (kfree (p_sq_dmas p) (kfree (p_qp_list p) (kfree (p_use_mark p) k2)))
      in kfree (p_cid p) (kfree (p_sq_mark p) (kfree (p_cq_mark p) k3)))"

text \<open>
  \<open>l\<close> is the address of the list of host buffers; the last component is the number of buffers
  that were left.
\<close>

definition admin_clean ::
  "'d world \<Rightarrow> addr \<Rightarrow> 'd adm \<Rightarrow> bufs \<Rightarrow> ('d adm \<times> bufs \<times> u64) res option" where
  "admin_clean w l r s =
     bindO (delete_pairs w [0..<unat (a_supported (h_aqp (d_host r)))] (d_host r)) (\<lambda>h.
     bindO (clear_host_io_list l
       (s\<lparr>b_maps := (b_maps s)\<lparr>ms_calls := free_admin_queue (d_ptrs r) h\<rparr>, b_lists := d_lists r\<rparr>)) (\<lambda>(s1, remaining).
     Some (Inr (r\<lparr>d_host := h\<lparr>h_calls := ms_calls (b_maps s1)\<rparr>, d_lists := b_lists s1\<rparr>, s1, remaining))))"

lemma delete_pairs_runs:
  assumes "host_ready w I h" and "wf_cmd (w_cmd w)" and "admin_owned R p h"
    and "\<forall>i \<in> set is. i < unat (a_supported (h_aqp h))"
  obtains h' where "delete_pairs w is h = Some (Inr h')" "host_ready w I h'" "admin_owned R p h'"
    "marked (h_aqp h') = marked (h_aqp h) - set is"
proof -
  have "\<exists>h'. delete_pairs w is h = Some (Inr h') \<and> host_ready w I h' \<and> admin_owned R p h'
      \<and> marked (h_aqp h') = marked (h_aqp h) - set is"
    using assms
  proof (induction "is" arbitrary: h)
    case (Cons i "is")
    obtain h1 where h1: "admin_delete_io_queue_pair w i h = Some (Inr h1)" "host_ready w I h1" "admin_owned R p h1"
      "a_supported (h_aqp h1) = a_supported (h_aqp h)" "marked (h_aqp h1) = marked (h_aqp h) - {i}"
      by (rule own_delete [OF Cons.prems(1-3), of i]) (use Cons.prems(4) in auto)
    obtain h2 where "delete_pairs w is h1 = Some (Inr h2)" "host_ready w I h2" "admin_owned R p h2"
      "marked (h_aqp h2) = marked (h_aqp h1) - set is"
      using Cons.IH [OF h1(2) Cons.prems(2) h1(3)] Cons.prems(4) h1(4) by auto
    with h1 show ?case by auto
  qed simp
  with that show thesis by blast
qed

lemma free_admin_queue_frees:
  assumes "admin_owned R p h" and "marked (h_aqp h) = {}"
  shows "holds (free_admin_queue p h) = Some R"
proof -
  let ?a = "h_aqp h"
  let ?f = "take 2 (ring_frees ?a p) @ table_frees p @ drop 2 (ring_frees ?a p)"
  have "free_admin_queue p h = h_calls h @ ?f"
    by (simp add: free_admin_queue_def dma_free_coherent_def kfree_def ring_frees_def table_frees_def Let_def)
  moreover have "mset ?f = mset (ring_frees ?a p) + mset (table_frees p)"
    by (simp add: ring_frees_def table_frees_def)
  moreover have "\<forall>c \<in> set ?f. releases c"
    using assms(1) by (auto simp: admin_owned_def ptrs_ok_def ring_frees_def table_frees_def)
  ultimately show ?thesis
    using assms by (auto simp: admin_owned_def ac_simps intro!: holds_released)
qed

subsection \<open>Properties\<close>

text \<open>
  C9. The life of the admin queue. Initialise it, create and delete I/O queue pairs in any order, then
  call admin_clean: with no host buffer left it returns, deletes every pair that was left on the controller
  and releases every allocation made since before admin_init, once and with the right sizes and addresses. With a
  host buffer left it does not return.
\<close>

theorem admin_lifecycle:
  assumes "init_ok M I" and "I (h_dev h)" and "valid L host_list" and "holds (h_calls h) = Some R"
    and "admin_init M reg_addr host_list h L = Some (Inr r)" and "pair_steps (m_world M) (d_host r) h1"
    and "dll L1 host_list xs"
  shows "if xs = [] then \<exists>r' s'. admin_clean (m_world M) host_list (r\<lparr>d_host := h1, d_lists := L1\<rparr>) s = Some (Inr (r', s', 0))
      \<and> holds (h_calls (d_host r')) = Some R \<and> (\<forall>i < unat (a_supported (h_aqp (d_host r'))). a_use_mark (h_aqp (d_host r')) ! i = 0)
    else \<exists>f. admin_clean (m_world M) host_list (r\<lparr>d_host := h1, d_lists := L1\<rparr>) s = Some (Inl f)"
proof -
  let ?w = "m_world M"
  have mem: "mem_plenty (w_mem ?w)" and g: "wf_cmd (w_cmd ?w)" using assms(1) by (simp_all add: init_ok_def)
  obtain r0 where "admin_init M reg_addr host_list h L = Some (Inr r0)" "host_ready ?w I (d_host r0)"
    "admin_owned R (d_ptrs r0) (d_host r0)"
  proof (rule admin_init_runs [OF assms(1-3)])
    fix r0 assume a: "admin_init M reg_addr host_list h L = Some (Inr r0)" "host_ready ?w I (d_host r0)"
      "\<forall>R. holds (h_calls h) = Some R \<longrightarrow> admin_owned R (d_ptrs r0) (d_host r0)"
    show thesis by (rule that [OF a(1,2)]) (use a(3) assms(4) in blast)
  qed
  with assms(5) have "host_ready ?w I (d_host r)" "admin_owned R (d_ptrs r) (d_host r)" by simp_all
  then have own: "host_ready ?w I h1" "admin_owned R (d_ptrs r) h1"
    using own.run_keeps [OF assms(6)] g mem by blast+
  obtain h2 where h2: "delete_pairs ?w [0..<unat (a_supported (h_aqp h1))] h1 = Some (Inr h2)"
    "admin_owned R (d_ptrs r) h2" "marked (h_aqp h2) = {}"
  proof (rule delete_pairs_runs [OF own(1) g own(2)])
    let ?is = "[0..<unat (a_supported (h_aqp h1))]"
    show "\<forall>i \<in> set ?is. i < unat (a_supported (h_aqp h1))" by simp
    have all: "marked (h_aqp h1) - set ?is = {}" by (auto simp: marked_def)
    fix h2 assume a: "delete_pairs ?w ?is h1 = Some (Inr h2)" "admin_owned R (d_ptrs r) h2"
      "marked (h_aqp h2) = marked (h_aqp h1) - set ?is"
    show thesis by (rule that [OF a(1,2)]) (simp only: a(3) all)
  qed
  note free = free_admin_queue_frees [OF h2(2,3)]
  let ?s = "s\<lparr>b_maps := (b_maps s)\<lparr>ms_calls := free_admin_queue (d_ptrs r) h2\<rparr>, b_lists := L1\<rparr>"
  have clear: "if xs = [] then clear_host_io_list host_list ?s = Some (Inr (?s, 0))
      else \<exists>f. clear_host_io_list host_list ?s = Some (Inl f)"
    by (rule clear_list_outcome) (simp add: assms(7))
  show ?thesis
    using clear h2(1,3) free by (auto simp: admin_clean_def marked_def)
qed

theorem admin_lifecycle_witness:
  "\<exists>r r' s'. admin_init small_machine 0xF0000000 0x100 raw_host three_nodes = Some (Inr r)
    \<and> admin_clean (m_world small_machine) 0x100 r no_bufs = Some (Inr (r', s', 0))
    \<and> holds (h_calls (d_host r')) = Some {#}"
proof -
  have v: "valid three_nodes 0x100" by (simp add: valid_def three_nodes_def)
  have h: "holds (h_calls raw_host) = Some {#}" by (simp add: raw_host_def holds_def)
  obtain r where r: "admin_init small_machine 0xF0000000 0x100 raw_host three_nodes = Some (Inr r)"
    "dll (d_lists r) 0x100 []"
  proof (rule admin_init_runs [OF small_machine_ok _ v])
    fix r assume a: "admin_init small_machine 0xF0000000 0x100 raw_host three_nodes = Some (Inr r)" "dll (d_lists r) 0x100 []"
    show thesis by (rule that [OF a])
  qed simp
  show ?thesis
    using admin_lifecycle [OF small_machine_ok _ v h r(1) rtranclp.rtrancl_refl r(2), of no_bufs] r(1) by auto
qed

end
