(* ===== verification/Ctrl.thy ===== *)
theory Ctrl
  imports Kernel Intrusive_List
begin

section \<open>Controllers and their character devices (kernel/nvme/ctrl.c, ctrl.h)\<close>

text \<open>
  A \<open>struct ctrl\<close> is allocated by \<open>ctrl_get\<close> and put on the driver's list through its member \<open>list\<close>,
  at offset 0: the address of the node is the address of the controller. The members of the struct
  that admin.c sets are in the state of its own theory. The log of kernel calls also has the one
  write to the device that \<open>ctrl_get\<close> makes.

  The record \<open>drv\<close> is the state of the driver: controllers and list nodes in kernel memory, the log,
  and the static variables of bafs_nvme_mod.c.
\<close>

record ctrl =
  c_pdev :: addr
  c_name :: string
  c_number :: s32
  c_rdev :: u32
  c_cls :: addr
  c_chrdev :: addr
  c_reg_addr :: addr
  c_reg_len :: u64
  c_aqp :: addr

record drv =
  v_lists :: lheap
  v_ctrls :: "addr \<rightharpoonup> ctrl"
  v_calls :: calls
  v_curr :: s32
  v_first :: u32
  v_class :: addr

text \<open>
  What the kernel answers; the addresses of the static \<open>ctrl_list\<close> and the sizes of the two structs
  with kernel types in them; what freshly allocated memory holds; the name the build gives the
  module; the module parameter.
\<close>

record drv_api =
  da_mem :: mem_api
  da_iomap :: "calls \<Rightarrow> addr \<Rightarrow> addr"
  da_resource :: "addr \<Rightarrow> u64 \<times> u64"
  da_request :: "calls \<Rightarrow> addr \<Rightarrow> int"
  da_enable :: "calls \<Rightarrow> addr \<Rightarrow> int"
  da_cdev_add :: "calls \<Rightarrow> u32 \<Rightarrow> int"
  da_device :: "calls \<Rightarrow> u32 \<Rightarrow> addr"
  da_chrdev :: "calls \<Rightarrow> u32 \<Rightarrow> int \<times> u32"
  da_class :: "calls \<Rightarrow> addr"
  da_register :: "calls \<Rightarrow> int"
  da_list :: addr
  da_sizeof_ctrl :: u64
  da_sizeof_aqp :: u64
  da_fill :: list_node
  da_modname :: string
  da_num_ctrls :: s32

definition pci_resource_start :: "drv_api \<Rightarrow> addr \<Rightarrow> u64" where
  "pci_resource_start api d = fst (da_resource api d)"

definition pci_resource_len :: "drv_api \<Rightarrow> addr \<Rightarrow> u64" where
  "pci_resource_len api d = snd (da_resource api d)"

text \<open>\<open>linux/kdev_t.h\<close>.\<close>

definition MAJOR :: "u32 \<Rightarrow> u32" where
  "MAJOR dev = drop_bit 20 dev"

definition MINOR :: "u32 \<Rightarrow> u32" where
  "MINOR dev = dev AND 0xfffff"

definition MKDEV :: "u32 \<Rightarrow> u32 \<Rightarrow> u32" where
  "MKDEV ma mi = push_bit 20 ma OR mi"

text \<open>The conversion \<open>%d\<close>.\<close>

fun digits :: "nat \<Rightarrow> string" where
  "digits n = (if n < 10 then [char_of (48 + n)] else digits (n div 10) @ [char_of (48 + n mod 10)])"

declare digits.simps [simp del]

definition decimal :: "s32 \<Rightarrow> string" where
  "decimal n = (if sint n < 0 then ''-'' @ digits (nat (- sint n)) else digits (nat (sint n)))"

text \<open>\<open>snprintf\<close> into the 64 bytes of \<open>name\<close>, the last one the terminator.\<close>

definition ctrl_name :: "string \<Rightarrow> s32 \<Rightarrow> string" where
  "ctrl_name modname number = take 63 (modname @ decimal number)"

text \<open>A controller through a pointer, and the address of its member \<open>cdev\<close>.\<close>

definition ctrl_at :: "drv \<Rightarrow> addr \<Rightarrow> ctrl res" where
  "ctrl_at s c =
     (case v_ctrls s c of
       None \<Rightarrow> Inl (if c = NULL then NullDeref else UseAfterFree c)
     | Some C \<Rightarrow> Inr C)"

definition cdev_of :: "addr \<Rightarrow> addr" where
  "cdev_of c = c + 112"

definition kfree_ctrl :: "addr \<Rightarrow> drv \<Rightarrow> drv" where
  "kfree_ctrl c s =
     s\<lparr>v_lists := (v_lists s)\<lparr>nodes := (nodes (v_lists s))(c := None)\<rparr>,
       v_ctrls := (v_ctrls s)(c := None), v_calls := kfree c (v_calls s)\<rparr>"

definition ctrl_get ::
  "drv_api \<Rightarrow> addr \<Rightarrow> addr \<Rightarrow> addr \<Rightarrow> s32 \<Rightarrow> drv \<Rightarrow> (drv \<times> addr) res" where
  "ctrl_get api l cls pdev number s =
     (let (c, k) = kmalloc (da_mem api) (da_sizeof_ctrl api) (v_calls s) in
      if c = NULL then Inr (s\<lparr>v_calls := k\<rparr>, ERR_PTR (- ENOMEM))
      else
        bindE (list_node_init (put_node (v_lists s) c (da_fill api)) c) (\<lambda>L.
        let reg = da_iomap api k pdev;
            k1 = k @ [PciIomap pdev reg] in
        if reg = NULL then Inl (BadAccess 0x30)
        else
          let k2 = k1 @ [IoStore64 (reg + 0x30) 0x1234567890abcdef];
              (q, k3) = kmalloc (da_mem api) (da_sizeof_aqp api) k2;
              C = \<lparr>c_pdev = pdev, c_name = ctrl_name (da_modname api) number, c_number = number,
                   c_rdev = 0, c_cls = cls, c_chrdev = NULL, c_reg_addr = reg,
                   c_reg_len = pci_resource_len api pdev, c_aqp = q\<rparr>;
              s1 = s\<lparr>v_lists := L, v_ctrls := (v_ctrls s)(c \<mapsto> C), v_calls := k3\<rparr>
          in if q = NULL then Inr (s1, ERR_PTR (- ENOMEM))
             else bindE (list_insert (v_lists s1) l c) (\<lambda>L1. Inr (s1\<lparr>v_lists := L1\<rparr>, c))))"

definition ctrl_chrdev_remove :: "addr \<Rightarrow> drv \<Rightarrow> drv res" where
  "ctrl_chrdev_remove c s =
     bindE (ctrl_at s c) (\<lambda>C.
     if c_chrdev C \<noteq> NULL then
       Inr (s\<lparr>v_ctrls := (v_ctrls s)(c \<mapsto> C\<lparr>c_chrdev := NULL\<rparr>),
              v_calls := v_calls s @ [DeviceDestroy (c_rdev C), CdevDel (cdev_of c)]\<rparr>)
     else Inr s)"

definition ctrl_put :: "addr \<Rightarrow> drv \<Rightarrow> drv res" where
  "ctrl_put c s =
     (if c \<noteq> NULL then
        bindE (list_remove (v_lists s) c) (\<lambda>L.
        bindE (ctrl_chrdev_remove c (s\<lparr>v_lists := L\<rparr>)) (\<lambda>s1.
        bindE (ctrl_at s1 c) (\<lambda>C.
        Inr (kfree_ctrl c (s1\<lparr>v_calls := kfree (c_aqp C) (v_calls s1)\<rparr>)))))
      else Inr s)"

text \<open>The two searches; \<open>icdev\<close> is the inode's \<open>i_cdev\<close>.\<close>

definition ctrl_find_by_pci_dev :: "addr \<Rightarrow> addr \<Rightarrow> drv \<Rightarrow> addr res option" where
  "ctrl_find_by_pci_dev l pdev s =
     list_find (list_next (v_lists s)) (\<lambda>e. bindE (ctrl_at s e) (\<lambda>C. Inr (c_pdev C = pdev))) l"

definition ctrl_find_by_inode :: "addr \<Rightarrow> addr \<Rightarrow> drv \<Rightarrow> addr res option" where
  "ctrl_find_by_inode l icdev s =
     list_find (list_next (v_lists s)) (\<lambda>e. Inr (cdev_of e = icdev)) l"

definition ctrl_chrdev_create :: "drv_api \<Rightarrow> addr \<Rightarrow> u32 \<Rightarrow> drv \<Rightarrow> (drv \<times> int) res" where
  "ctrl_chrdev_create api c first s =
     bindE (ctrl_at s c) (\<lambda>C.
     if c_chrdev C \<noteq> NULL then Inr (s, 0)
     else
       let rdev = MKDEV (MAJOR first) (MINOR first + c_number C);
           C1 = C\<lparr>c_rdev := rdev\<rparr>;
           err = da_cdev_add api (v_calls s) rdev;
           k = v_calls s @ [CdevAdd (cdev_of c) rdev err];
           s1 = s\<lparr>v_ctrls := (v_ctrls s)(c \<mapsto> C1), v_calls := k\<rparr>
       in if err \<noteq> 0 then Inr (s1, err)
          else
            let chrdev = da_device api k rdev;
                k1 = k @ [DeviceCreate rdev chrdev]
            in if IS_ERR chrdev then
                 Inr (s1\<lparr>v_calls := k1 @ [CdevDel (cdev_of c)]\<rparr>, PTR_ERR chrdev)
               else Inr (s1\<lparr>v_ctrls := (v_ctrls s)(c \<mapsto> C1\<lparr>c_chrdev := chrdev\<rparr>), v_calls := k1\<rparr>, 0))"

subsection \<open>What the operations do\<close>

text \<open>
  \<open>kmalloc\<close> never returns memory that is in use: not what it returned before and was not freed since,
  not a static variable, not an error pointer.
\<close>

definition mem_fresh :: "mem_api \<Rightarrow> addr set \<Rightarrow> bool" where
  "mem_fresh api S \<longleftrightarrow>
     (\<forall>k sz H. holds k = Some H \<and> kmalloc_result api k sz \<noteq> NULL \<longrightarrow>
        \<not> IS_ERR (kmalloc_result api k sz) \<and> kmalloc_result api k sz \<notin> S
        \<and> Kfree (kmalloc_result api k sz) \<notin># H)"

definition new_ctrl :: "drv_api \<Rightarrow> addr \<Rightarrow> addr \<Rightarrow> s32 \<Rightarrow> addr \<Rightarrow> addr \<Rightarrow> ctrl" where
  "new_ctrl api cls pdev number reg q =
     \<lparr>c_pdev = pdev, c_name = ctrl_name (da_modname api) number, c_number = number,
      c_rdev = 0, c_cls = cls, c_chrdev = NULL, c_reg_addr = reg,
      c_reg_len = pci_resource_len api pdev, c_aqp = q\<rparr>"

lemma node_init_dll:
  assumes "dll L l xs" and "c \<notin> set (l # xs)" and "c \<noteq> NULL"
  obtains L1 where "list_node_init (put_node L c n) c = Inr L1" "dll L1 l xs" "valid L1 c"
proof -
  let ?L = "put_node L c n"
  have v: "valid ?L c" using assms(3) by (simp add: valid_def put_node_def)
  let ?L1 = "upd_prev (upd_next (upd_list ?L c NULL) c NULL) c NULL"
  have "list_node_init ?L c = Inr ?L1" "valid ?L1 c"
    using v by (simp_all add: list_node_init_def node_simps)
  moreover have "same_list L ?L1 (l # xs)"
    unfolding same_list_def
  proof
    fix p assume "p \<in> set (l # xs)"
    then have "p \<noteq> c" using assms(2) by auto
    then show "nodes ?L1 p = nodes L p \<and> locks ?L1 p = locks L p"
      by (simp add: node_simps put_node_def)
  qed
  with assms(1) have "dll ?L1 l xs" by (rule dll_frame)
  ultimately show thesis using that by blast
qed

lemma ctrl_get_runs:
  assumes l: "dll (v_lists s) l xs" and mem: "mem_fresh (da_mem api) {l}"
    and io: "\<forall>k d. da_iomap api k d \<noteq> NULL"
    and R: "holds (v_calls s) = Some R" "\<forall>x \<in> set xs. Kfree x \<in># R"
  obtains
    (no_ctrl) k where "ctrl_get api l cls pdev number s = Inr (s\<lparr>v_calls := k\<rparr>, ERR_PTR (- 12))"
      "holds k = Some R"
  | (no_aqp) c reg L k where "ctrl_get api l cls pdev number s =
        Inr (s\<lparr>v_lists := L, v_ctrls := (v_ctrls s)(c \<mapsto> new_ctrl api cls pdev number reg NULL), v_calls := k\<rparr>,
          ERR_PTR (- 12))"
      "dll L l xs" "c \<notin> set xs" "holds k = Some (R + {#Kfree c, PciIounmap reg#})"
  | (made) c reg q L k where "ctrl_get api l cls pdev number s =
        Inr (s\<lparr>v_lists := L, v_ctrls := (v_ctrls s)(c \<mapsto> new_ctrl api cls pdev number reg q), v_calls := k\<rparr>, c)"
      "dll L l (xs @ [c])" "c \<noteq> NULL" "q \<noteq> NULL" "\<not> IS_ERR c"
      "holds k = Some (R + {#Kfree c, PciIounmap reg, Kfree q#})"
proof -
  let ?c = "kmalloc_result (da_mem api) (v_calls s) (da_sizeof_ctrl api)"
  let ?k = "v_calls s @ [Kmalloc (da_sizeof_ctrl api) ?c]"
  let ?reg = "da_iomap api ?k pdev"
  let ?k2 = "?k @ [PciIomap pdev ?reg, IoStore64 (?reg + 0x30) 0x1234567890abcdef]"
  let ?q = "kmalloc_result (da_mem api) ?k2 (da_sizeof_aqp api)"
  let ?k3 = "?k2 @ [Kmalloc (da_sizeof_aqp api) ?q]"
  show thesis
  proof (cases "?c = NULL")
    case True
    then show thesis
      using R by (intro no_ctrl [of ?k]) (simp_all add: ctrl_get_def kmalloc_def holds_append)
  next
    case False
    with mem R(1) have c: "\<not> IS_ERR ?c" "?c \<noteq> l" "Kfree ?c \<notin># R"
      unfolding mem_fresh_def by blast+
    with R(2) have cxs: "?c \<notin> set (l # xs)" by auto
    obtain L1 where L1: "list_node_init (put_node (v_lists s) ?c (da_fill api)) ?c = Inr L1"
        "dll L1 l xs" "valid L1 ?c"
      using node_init_dll [OF l cxs False] by blast
    obtain L2 where L2: "list_insert L1 l ?c = Inr L2" "dll L2 l (xs @ [?c])"
      using list_insert_dll [OF L1(2,3) cxs] by blast
    have reg: "?reg \<noteq> NULL" using io by blast
    have k2: "holds ?k2 = Some (R + {#Kfree ?c, PciIounmap ?reg#})"
      using R(1) False reg by (simp add: holds_append)
    show thesis
    proof (cases "?q = NULL")
      case True
      show thesis
      proof (rule no_aqp)
        show "ctrl_get api l cls pdev number s = Inr (s\<lparr>v_lists := L1,
            v_ctrls := (v_ctrls s)(?c \<mapsto> new_ctrl api cls pdev number ?reg NULL), v_calls := ?k3\<rparr>, ERR_PTR (- 12))"
          using False reg L1(1) True by (simp add: ctrl_get_def kmalloc_def new_ctrl_def Let_def)
        show "holds ?k3 = Some (R + {#Kfree ?c, PciIounmap ?reg#})"
          unfolding holds_append [of ?k2] k2 using True by simp
      qed (use L1(2) cxs in auto)
    next
      case q: False
      show thesis
      proof (rule made)
        show "ctrl_get api l cls pdev number s = Inr (s\<lparr>v_lists := L2,
            v_ctrls := (v_ctrls s)(?c \<mapsto> new_ctrl api cls pdev number ?reg ?q), v_calls := ?k3\<rparr>, ?c)"
          using False reg L1(1) L2(1) q by (simp add: ctrl_get_def kmalloc_def new_ctrl_def Let_def)
        show "holds ?k3 = Some (R + {#Kfree ?c, PciIounmap ?reg, Kfree ?q#})"
          unfolding holds_append [of ?k2] k2 using q by simp
      qed (use L2(2) False q c in auto)
    qed
  qed
qed

text \<open>The calls that take a controller's character device away, and then the controller.\<close>

definition chrdev_gone :: "addr \<Rightarrow> ctrl \<Rightarrow> calls" where
  "chrdev_gone c C = (if c_chrdev C \<noteq> NULL then [DeviceDestroy (c_rdev C), CdevDel (cdev_of c)] else [])"

lemma ctrl_put_runs:
  assumes "dll (v_lists s) l (as @ c # bs)" and "v_ctrls s c = Some C"
  obtains L where "ctrl_put c s = Inr (s\<lparr>v_lists := L, v_ctrls := (v_ctrls s)(c := None),
      v_calls := v_calls s @ chrdev_gone c C @ [Kfree (c_aqp C), Kfree c]\<rparr>)" "dll L l (as @ bs)"
proof -
  obtain L where L: "list_remove (v_lists s) c = Inr L" "dll L l (as @ bs)"
    using list_remove_dll [OF assms(1)] by blast
  have c: "c \<noteq> NULL" "c \<notin> set (l # as @ bs)" using assms(1) by (auto simp: dll_def)
  let ?L = "L\<lparr>nodes := (nodes L)(c := None)\<rparr>"
  have "same_list L ?L (l # as @ bs)" using c(2) by (auto simp: same_list_def)
  with L(2) have "dll ?L l (as @ bs)" by (rule dll_frame)
  moreover have "ctrl_put c s = Inr (s\<lparr>v_lists := ?L, v_ctrls := (v_ctrls s)(c := None),
      v_calls := v_calls s @ chrdev_gone c C @ [Kfree (c_aqp C), Kfree c]\<rparr>)"
    using L(1) c(1) assms(2)
    by (simp add: ctrl_put_def ctrl_chrdev_remove_def ctrl_at_def kfree_ctrl_def kfree_def chrdev_gone_def)
  ultimately show thesis by (rule that [rotated])
qed

text \<open>The searches on a well-formed list.\<close>

lemma find_by_pci_dev:
  assumes "dll (v_lists s) l xs" and "\<forall>x \<in> set xs. v_ctrls s x = Some (C x)"
  shows "ctrl_find_by_pci_dev l pdev s =
    Some (Inr (case List.find (\<lambda>x. c_pdev (C x) = pdev) xs of None \<Rightarrow> NULL | Some x \<Rightarrow> x))"
  using assms by (simp add: ctrl_find_by_pci_dev_def ctrl_at_def kl.find_finds [of "v_lists s" l xs])

lemma find_by_inode:
  assumes "dll (v_lists s) l xs"
  shows "ctrl_find_by_inode l icdev s = Some (Inr (if icdev - 112 \<in> set xs then icdev - 112 else NULL))"
proof -
  have "List.find (\<lambda>x. cdev_of x = icdev) xs = (if icdev - 112 \<in> set xs then Some (icdev - 112) else None)"
    by (induction xs) (auto simp: cdev_of_def)
  then show ?thesis
    by (simp add: ctrl_find_by_inode_def kl.find_finds [OF assms, where P = "\<lambda>x. cdev_of x = icdev"])
qed

end
