(* ===== verification/Module.thy ===== *)
theory Module
  imports Ctrl
begin

section \<open>The PCI driver (kernel/nvme/bafs_nvme_mod.c)\<close>

text \<open>
  Loading and unloading the module, the probe and remove callbacks of the PCI driver, the file
  operations of a controller's character device. Neither TEST2 nor INTERNAL_TESTING is defined by
  the build: the calls of \<open>test_uvm\<close> (see \<open>Test_Code\<close>) and the extra device entry are not compiled in. \<open>printk\<close> has no counterpart.
\<close>

subsection \<open>The devices the driver claims\<close>

text \<open>The entries by the macros that make them, and the terminator of the table.\<close>

datatype pci_device_id =
    PCI_DEVICE_CLASS u32 u32
  | PCI_DEVICE u32 u32
  | PCI_ID_END

definition PCI_CLASS_NVME :: u32 where
  "PCI_CLASS_NVME = 0x010802"

definition PCI_CLASS_NVME_MASK :: u32 where
  "PCI_CLASS_NVME_MASK = 0xffffff"

definition id_table :: "pci_device_id list" where
  "id_table =
     [PCI_DEVICE_CLASS PCI_CLASS_NVME PCI_CLASS_NVME_MASK,
      PCI_DEVICE 0x10ee 0x903f, PCI_DEVICE 0x10ee 0x9038, PCI_DEVICE 0x10ee 0x9028, PCI_DEVICE 0x10ee 0x9018,
      PCI_DEVICE 0x10ee 0x9034, PCI_DEVICE 0x10ee 0x9024, PCI_DEVICE 0x10ee 0x9014, PCI_DEVICE 0x10ee 0x9032,
      PCI_DEVICE 0x10ee 0x9022, PCI_DEVICE 0x10ee 0x9012, PCI_DEVICE 0x10ee 0x9031, PCI_DEVICE 0x10ee 0x9021,
      PCI_DEVICE 0x10ee 0x9011, PCI_DEVICE 0x10ee 0x8011, PCI_DEVICE 0x10ee 0x8012, PCI_DEVICE 0x10ee 0x8014,
      PCI_DEVICE 0x10ee 0x8018, PCI_DEVICE 0x10ee 0x8021, PCI_DEVICE 0x10ee 0x8022, PCI_DEVICE 0x10ee 0x8024,
      PCI_DEVICE 0x10ee 0x8028, PCI_DEVICE 0x10ee 0x8031, PCI_DEVICE 0x10ee 0x8032, PCI_DEVICE 0x10ee 0x8034,
      PCI_DEVICE 0x10ee 0x8038, PCI_DEVICE 0x10ee 0x7011, PCI_DEVICE 0x10ee 0x7012, PCI_DEVICE 0x10ee 0x7014,
      PCI_DEVICE 0x10ee 0x7018, PCI_DEVICE 0x10ee 0x7021, PCI_DEVICE 0x10ee 0x7022, PCI_DEVICE 0x10ee 0x7024,
      PCI_DEVICE 0x10ee 0x7028, PCI_DEVICE 0x10ee 0x7031, PCI_DEVICE 0x10ee 0x7032, PCI_DEVICE 0x10ee 0x7034,
      PCI_DEVICE 0x10ee 0x7038, PCI_DEVICE 0x10ee 0x6828, PCI_DEVICE 0x10ee 0x6830, PCI_DEVICE 0x10ee 0x6928,
      PCI_DEVICE 0x10ee 0x6930, PCI_DEVICE 0x10ee 0x6A28, PCI_DEVICE 0x10ee 0x6A30, PCI_DEVICE 0x10ee 0x6D30,
      PCI_DEVICE 0x10ee 0x4808, PCI_DEVICE 0x10ee 0x4828, PCI_DEVICE 0x10ee 0x4908, PCI_DEVICE 0x10ee 0x4A28,
      PCI_DEVICE 0x10ee 0x4B28, PCI_DEVICE 0x10ee 0x2808,
      PCI_ID_END]"

text \<open>
  Which devices an entry describes, as the macros are documented: any device of the class under
  the mask, or the device of the vendor.
\<close>

record pci_ident =
  pi_vendor :: u32
  pi_device :: u32
  pi_class :: u32

fun id_matches :: "pci_ident \<Rightarrow> pci_device_id \<Rightarrow> bool" where
  "id_matches d (PCI_DEVICE_CLASS c m) = ((pi_class d XOR c) AND m = 0)"
| "id_matches d (PCI_DEVICE v i) = (pi_vendor d = v \<and> pi_device d = i)"
| "id_matches d PCI_ID_END = False"

subsection \<open>The file operations\<close>

record vma =
  vm_start :: u64
  vm_end :: u64
  vm_prot :: u64

record mm_api =
  mm_noncached :: "u64 \<Rightarrow> u64"
  mm_iomap :: "vma \<Rightarrow> u64 \<Rightarrow> u64 \<Rightarrow> vma \<times> int"

definition mmap_regs :: "drv_api \<Rightarrow> mm_api \<Rightarrow> addr \<Rightarrow> vma \<Rightarrow> drv \<Rightarrow> (vma \<times> int) res option" where
  "mmap_regs api mm icdev v s =
     bindO (ctrl_find_by_inode (da_list api) icdev s) (\<lambda>c.
     if c = NULL then Some (Inr (v, - EBADF))
     else
       bindO (Some (ctrl_at s c)) (\<lambda>C.
       if pci_resource_len api (c_pdev C) < vm_end v - vm_start v then Some (Inr (v, - EINVAL))
       else Some (Inr (mm_iomap mm (v\<lparr>vm_prot := mm_noncached mm (vm_prot v)\<rparr>)
              (pci_resource_start api (c_pdev C)) (vm_end v - vm_start v)))))"

definition custom_ioctl :: "drv_api \<Rightarrow> addr \<Rightarrow> u32 \<Rightarrow> u64 \<Rightarrow> drv \<Rightarrow> int res option" where
  "custom_ioctl api icdev cmd arg s =
     bindO (ctrl_find_by_inode (da_list api) icdev s) (\<lambda>c.
     if c = NULL then Some (Inr (- EBADF)) else Some (Inr 0))"

record file_ops =
  fo_ioctl :: "addr \<Rightarrow> u32 \<Rightarrow> u64 \<Rightarrow> drv \<Rightarrow> int res option"
  fo_mmap :: "addr \<Rightarrow> vma \<Rightarrow> drv \<Rightarrow> (vma \<times> int) res option"

definition dev_fops :: "drv_api \<Rightarrow> mm_api \<Rightarrow> file_ops" where
  "dev_fops api mm = \<lparr>fo_ioctl = custom_ioctl api, fo_mmap = mmap_regs api mm\<rparr>"

text \<open>The mode of the device file, through a pointer that may be NULL; the name is never given.\<close>

definition custom_devnode :: "u16 option \<Rightarrow> u16 option \<times> addr" where
  "custom_devnode mode = (case mode of None \<Rightarrow> (None, NULL) | Some _ \<Rightarrow> (Some 0x1b6, NULL))"

subsection \<open>Adding and removing a device\<close>

definition log_call :: "calls \<Rightarrow> drv \<Rightarrow> drv" where
  "log_call cs s = s\<lparr>v_calls := v_calls s @ cs\<rparr>"

text \<open>The part of the probe after \<open>ctrl_get\<close>: each failure undoes the steps before it, the last first.\<close>

definition bind_ctrl :: "drv_api \<Rightarrow> addr \<Rightarrow> addr \<Rightarrow> drv \<Rightarrow> (drv \<times> int) res" where
  "bind_ctrl api pdev c s1 =
     (let err = da_request api (v_calls s1) pdev;
          s2 = log_call [PciRequestRegion pdev err] s1
      in if err \<noteq> 0 then bindE (ctrl_put c s2) (\<lambda>s3. Inr (s3, err))
      else
        let err = da_enable api (v_calls s2) pdev;
            s3 = log_call [PciEnableDevice pdev err] s2
        in if err < 0 then
             bindE (ctrl_put c (log_call [PciReleaseRegion pdev] s3)) (\<lambda>s4. Inr (s4, err))
        else
          bindE (ctrl_chrdev_create api c (v_first s3) s3) (\<lambda>(s4, err).
          if err \<noteq> 0 then
            bindE (ctrl_put c (log_call [PciDisableDevice pdev, PciReleaseRegion pdev] s4)) (\<lambda>s5.
            Inr (s5, err))
          else Inr (s4\<lparr>v_curr := v_curr s4 + 1\<rparr>, 0)))"

definition add_pci_dev :: "drv_api \<Rightarrow> addr \<Rightarrow> drv \<Rightarrow> (drv \<times> int) res" where
  "add_pci_dev api pdev s =
     (if da_num_ctrls api \<le>s v_curr s then Inr (s, 0)
      else
        bindE (ctrl_get api (da_list api) (v_class s) pdev (v_curr s)
          (log_call [PciSetMaster pdev, DmaSetMask pdev (- 1)] s)) (\<lambda>(s1, c).
        if IS_ERR c then Inr (s1, PTR_ERR c) else bind_ctrl api pdev c s1))"

definition remove_pci_dev :: "drv_api \<Rightarrow> addr \<Rightarrow> drv \<Rightarrow> drv res option" where
  "remove_pci_dev api pdev s =
     (if pdev = NULL then Some (Inr s)
      else
        let s1 = s\<lparr>v_curr := v_curr s - 1\<rparr> in
        bindO (ctrl_find_by_pci_dev (da_list api) pdev s1) (\<lambda>c.
        bindO (Some (ctrl_put c s1)) (\<lambda>s2.
        Some (Inr (log_call [PciReleaseRegion pdev, PciClearMaster pdev, PciDisableDevice pdev] s2)))))"

record pci_driver =
  pd_ids :: "pci_device_id list"
  pd_probe :: "addr \<Rightarrow> drv \<Rightarrow> (drv \<times> int) res"
  pd_remove :: "addr \<Rightarrow> drv \<Rightarrow> drv res option"

definition driver :: "drv_api \<Rightarrow> pci_driver" where
  "driver api = \<lparr>pd_ids = id_table, pd_probe = add_pci_dev api, pd_remove = remove_pci_dev api\<rparr>"

subsection \<open>Loading and unloading the module\<close>

definition bafs_nvme_init :: "drv_api \<Rightarrow> drv \<Rightarrow> (drv \<times> int) res" where
  "bafs_nvme_init api s =
     bindE (list_init (v_lists s) (da_list api)) (\<lambda>L.
     let n = da_num_ctrls api;
         (err, first) = da_chrdev api (v_calls s) n;
         k = v_calls s @ [AllocChrdevRegion first n err]
     in if err < 0 then Inr (s\<lparr>v_lists := L, v_calls := k\<rparr>, err)
     else
       let cls = da_class api k;
           k1 = k @ [ClassCreate cls];
           s1 = s\<lparr>v_lists := L, v_first := first, v_class := cls\<rparr>
       in if IS_ERR cls then
            Inr (s1\<lparr>v_calls := k1 @ [UnregisterChrdevRegion first n]\<rparr>, PTR_ERR cls)
       else
         let err = da_register api k1;
             k2 = k1 @ [PciRegisterDriver err]
         in if err \<noteq> 0 then
              Inr (s1\<lparr>v_calls := k2 @ [ClassDestroy cls, UnregisterChrdevRegion first n]\<rparr>, err)
            else Inr (s1\<lparr>v_calls := k2\<rparr>, 0))"

definition bafs_nvme_exit :: "drv_api \<Rightarrow> drv \<Rightarrow> drv" where
  "bafs_nvme_exit api s =
     log_call [PciUnregisterDriver, ClassDestroy (v_class s),
       UnregisterChrdevRegion (v_first s) (da_num_ctrls api)] s"

subsection \<open>What a probe does\<close>

lemma log_call_simps [simp]:
  "v_lists (log_call cs s) = v_lists s" "v_ctrls (log_call cs s) = v_ctrls s"
  "v_calls (log_call cs s) = v_calls s @ cs" "v_curr (log_call cs s) = v_curr s"
  "v_first (log_call cs s) = v_first s" "v_class (log_call cs s) = v_class s"
  by (simp_all add: log_call_def)

text \<open>
  What the driver relies on: memory that is not in use, registers that can be mapped, error codes
  that are negative, and no more controllers than minor numbers.
\<close>

definition kernel_ok :: "drv_api \<Rightarrow> bool" where
  "kernel_ok api \<longleftrightarrow> mem_fresh (da_mem api) {da_list api}
     \<and> (\<forall>k d. da_iomap api k d \<noteq> NULL \<and> da_request api k d \<le> 0 \<and> da_enable api k d \<le> 0)
     \<and> (\<forall>k n. da_cdev_add api k n \<le> 0 \<and> da_device api k n \<noteq> NULL)
     \<and> (\<forall>k n. fst (da_chrdev api k n) \<le> 0) \<and> (\<forall>k. da_register api k \<le> 0)"

text \<open>The controller of a device once it is bound, and what is owed for it when it goes.\<close>

definition bound_rdev :: "drv \<Rightarrow> u32" where
  "bound_rdev s = MKDEV (MAJOR (v_first s)) (MINOR (v_first s) + v_curr s)"

definition bound_ctrl :: "drv_api \<Rightarrow> drv \<Rightarrow> addr \<Rightarrow> addr \<Rightarrow> addr \<Rightarrow> addr \<Rightarrow> ctrl" where
  "bound_ctrl api s pdev reg q chrdev =
     (new_ctrl api (v_class s) pdev (v_curr s) reg q)\<lparr>c_rdev := bound_rdev s, c_chrdev := chrdev\<rparr>"

definition ctrl_owes :: "addr \<Rightarrow> ctrl \<Rightarrow> kcall multiset" where
  "ctrl_owes c C = {#Kfree c, Kfree (c_aqp C), PciClearMaster (c_pdev C), PciReleaseRegion (c_pdev C),
     PciDisableDevice (c_pdev C), CdevDel (cdev_of c), DeviceDestroy (c_rdev C)#}"

lemma IS_ERR_negative: "IS_ERR p \<Longrightarrow> PTR_ERR p < 0"
proof -
  assume "IS_ERR p"
  then have "uint (- 4095 :: addr) \<le> uint p" by (simp only: IS_ERR_def word_le_def)
  then have lo: "18446744073709547521 \<le> uint p" by simp
  have "uint p < 2 ^ LENGTH(64)" by (rule unsigned_less)
  with lo have "uint p div 2 ^ 63 = 1" by simp
  then have "bit (uint p) 63" by (simp add: bit_iff_odd)
  then show ?thesis by (simp add: PTR_ERR_def sint_uint)
qed

lemma chrdev_create_runs:
  assumes "kernel_ok api" and "v_ctrls s c = Some C" and "c_chrdev C = NULL"
    and "rdev = MKDEV (MAJOR first) (MINOR first + c_number C)" and "holds (v_calls s) = Some R"
  obtains (created) chrdev k where "ctrl_chrdev_create api c first s =
        Inr (s\<lparr>v_ctrls := (v_ctrls s)(c \<mapsto> C\<lparr>c_rdev := rdev, c_chrdev := chrdev\<rparr>), v_calls := k\<rparr>, 0)"
      "chrdev \<noteq> NULL" "holds k = Some (R + {#CdevDel (cdev_of c), DeviceDestroy rdev#})"
  | (refused) e k where "ctrl_chrdev_create api c first s =
        Inr (s\<lparr>v_ctrls := (v_ctrls s)(c \<mapsto> C\<lparr>c_rdev := rdev\<rparr>), v_calls := k\<rparr>, e)"
      "e < 0" "holds k = Some R"
proof -
  let ?e = "da_cdev_add api (v_calls s) rdev"
  let ?k = "v_calls s @ [CdevAdd (cdev_of c) rdev ?e]"
  let ?d = "da_device api ?k rdev"
  have e: "?e \<le> 0" "?d \<noteq> NULL" using assms(1) by (simp_all add: kernel_ok_def)
  consider "?e \<noteq> 0" | "?e = 0" "IS_ERR ?d" | "?e = 0" "\<not> IS_ERR ?d" by blast
  then show thesis
  proof cases
    case 1
    then show thesis
      using assms e by (intro refused [of ?k ?e]) (simp_all add: ctrl_chrdev_create_def ctrl_at_def holds_append Let_def)
  next
    case 2
    then show thesis
      using assms by (intro refused [of "?k @ [DeviceCreate rdev ?d, CdevDel (cdev_of c)]" "PTR_ERR ?d"])
        (simp_all add: ctrl_chrdev_create_def ctrl_at_def holds_append Let_def IS_ERR_negative)
  next
    case 3
    then show thesis
      using assms e by (intro created [of "?k @ [DeviceCreate rdev ?d]" ?d])
        (simp_all add: ctrl_chrdev_create_def ctrl_at_def holds_append Let_def)
  qed
qed

lemma put_new:
  assumes "dll (v_lists s) l (xs @ [c])" and "v_ctrls s c = Some C" and "c_chrdev C = NULL"
    and "c_aqp C \<noteq> NULL" and "holds (v_calls s) = Some (R + {#Kfree c, Kfree (c_aqp C)#})"
  obtains s' where "ctrl_put c s = Inr s'" "dll (v_lists s') l xs" "v_ctrls s' = (v_ctrls s)(c := None)"
    "v_curr s' = v_curr s" "v_first s' = v_first s" "v_class s' = v_class s" "holds (v_calls s') = Some R"
proof -
  have "c \<noteq> NULL" using assms(1) by (auto simp: dll_def)
  moreover obtain L where L: "ctrl_put c s = Inr (s\<lparr>v_lists := L, v_ctrls := (v_ctrls s)(c := None),
      v_calls := v_calls s @ chrdev_gone c C @ [Kfree (c_aqp C), Kfree c]\<rparr>)" "dll L l (xs @ [])"
    using ctrl_put_runs [OF assms(1,2)] by blast
  ultimately show thesis
    using assms(3-5) by (intro that [OF L(1)]) (simp_all add: chrdev_gone_def holds_append)
qed

text \<open>Binding a controller just made: it fails and takes the controller back, or succeeds.\<close>

lemma bind_runs:
  assumes api: "kernel_ok api" and l: "dll (v_lists s) l (xs @ [c])" and at: "v_ctrls s c = Some C"
    and C: "c_chrdev C = NULL" "c_aqp C = q" "q \<noteq> NULL" and rdev: "rdev = MKDEV (MAJOR (v_first s)) (MINOR (v_first s) + c_number C)"
    and H: "holds (v_calls s) = Some (H + {#Kfree c, Kfree q#})"
  obtains
    (failed) e s' where "bind_ctrl api pdev c s = Inr (s', e)" "e < 0" "dll (v_lists s') l xs"
      "v_ctrls s' = (v_ctrls s)(c := None)" "v_curr s' = v_curr s" "v_first s' = v_first s" "v_class s' = v_class s"
      "holds (v_calls s') = Some H"
  | (bound) chrdev k where "bind_ctrl api pdev c s =
        Inr (s\<lparr>v_ctrls := (v_ctrls s)(c \<mapsto> C\<lparr>c_rdev := rdev, c_chrdev := chrdev\<rparr>), v_calls := k, v_curr := v_curr s + 1\<rparr>, 0)"
      "chrdev \<noteq> NULL" "holds k = Some (H + {#Kfree c, Kfree q, PciReleaseRegion pdev, PciDisableDevice pdev,
        CdevDel (cdev_of c), DeviceDestroy rdev#})"
proof -
  let ?e1 = "da_request api (v_calls s) pdev"
  let ?s2 = "log_call [PciRequestRegion pdev ?e1] s"
  let ?e2 = "da_enable api (v_calls ?s2) pdev"
  let ?s3 = "log_call [PciEnableDevice pdev ?e2] ?s2"
  note put = put_new [where l = l and xs = xs and c = c and R = H]
  consider (region) "?e1 \<noteq> 0" "?e1 < 0" | (enable) "?e1 = 0" "?e2 < 0" | (chrdev) "?e1 = 0" "?e2 = 0"
    using api unfolding kernel_ok_def by (metis order_le_less)
  then show thesis
  proof cases
    case region
    then have h: "holds (v_calls ?s2) = Some (H + {#Kfree c, Kfree q#})" using H by (simp add: holds_append)
    show thesis
      by (rule put [of ?s2 C]) (use l at C h region in \<open>auto intro: failed [of _ ?e1] simp: bind_ctrl_def\<close>)
  next
    case enable
    let ?u = "log_call [PciReleaseRegion pdev] ?s3"
    have h: "holds (v_calls ?u) = Some (H + {#Kfree c, Kfree q#})" using H enable by (simp add: holds_append)
    show thesis
      by (rule put [of ?u C]) (use l at C h enable in \<open>auto intro: failed [of _ ?e2] simp: bind_ctrl_def Let_def\<close>)
  next
    case chrdev
    have h: "holds (v_calls ?s3) = Some (H + {#Kfree c, Kfree q, PciReleaseRegion pdev, PciDisableDevice pdev#})"
      using H chrdev by (simp add: holds_append)
    have run: "bind_ctrl api pdev c s = bindE (ctrl_chrdev_create api c (v_first s) ?s3) (\<lambda>(s4, err).
        if err \<noteq> 0 then
          bindE (ctrl_put c (log_call [PciDisableDevice pdev, PciReleaseRegion pdev] s4)) (\<lambda>s5. Inr (s5, err))
        else Inr (s4\<lparr>v_curr := v_curr s4 + 1\<rparr>, 0))"
      using chrdev by (simp add: bind_ctrl_def Let_def)
    have "v_ctrls ?s3 c = Some C" by (simp add: at)
    show thesis
      using api \<open>v_ctrls ?s3 c = Some C\<close> C(1) rdev h
    proof (cases rule: chrdev_create_runs)
      case (created d k)
      then show thesis using run by (intro bound [of k d]) simp_all
    next
      case (refused e k)
      let ?u = "log_call [PciDisableDevice pdev, PciReleaseRegion pdev]
        (?s3\<lparr>v_ctrls := (v_ctrls ?s3)(c \<mapsto> C\<lparr>c_rdev := rdev\<rparr>), v_calls := k\<rparr>)"
      have h: "holds (v_calls ?u) = Some (H + {#Kfree c, Kfree q#})" using refused(3) by (simp add: holds_append)
      show thesis
        by (rule put [of ?u "C\<lparr>c_rdev := rdev\<rparr>"])
          (use l C h refused(1,2) run in \<open>auto intro: failed [of _ e]\<close>)
    qed
  qed
qed

text \<open>
  What a failed probe leaves behind, beside the device's bus mastering: nothing, the mapping of the
  registers, or that and the controller itself.
\<close>

definition left_behind :: "int \<Rightarrow> kcall multiset \<Rightarrow> bool" where
  "left_behind e X \<longleftrightarrow> X = {#} \<or> (\<exists>reg. X = {#PciIounmap reg#})
     \<or> e = - 12 \<and> (\<exists>c reg. X = {#Kfree c, PciIounmap reg#})"

lemma left_behind_cases: "left_behind e {#}" "left_behind e {#PciIounmap reg#}"
  "left_behind (- 12) {#Kfree c, PciIounmap reg#}"
  by (auto simp: left_behind_def)

lemma add_runs:
  assumes api: "kernel_ok api" and l: "dll (v_lists s) (da_list api) xs"
    and R: "holds (v_calls s) = Some R" "\<forall>x \<in> set xs. Kfree x \<in># R"
    and room: "v_curr s <s da_num_ctrls api"
  obtains
    (failed) e s' X where "add_pci_dev api pdev s = Inr (s', e)" "e < 0" "dll (v_lists s') (da_list api) xs"
      "\<forall>x \<in> set xs. v_ctrls s' x = v_ctrls s x" "v_curr s' = v_curr s" "v_first s' = v_first s"
      "v_class s' = v_class s"
      "holds (v_calls s') = Some (R + {#PciClearMaster pdev#} + X)" "left_behind e X"
  | (bound) c reg q chrdev s' where "add_pci_dev api pdev s = Inr (s', 0)"
      "dll (v_lists s') (da_list api) (xs @ [c])" "c \<notin> set xs" "chrdev \<noteq> NULL" "q \<noteq> NULL"
      "v_ctrls s' = (v_ctrls s)(c \<mapsto> bound_ctrl api s pdev reg q chrdev)"
      "v_curr s' = v_curr s + 1" "v_first s' = v_first s" "v_class s' = v_class s"
      "holds (v_calls s') = Some (R + ctrl_owes c (bound_ctrl api s pdev reg q chrdev) + {#PciIounmap reg#})"
proof -
  let ?l = "da_list api" and ?s0 = "log_call [PciSetMaster pdev, DmaSetMask pdev (- 1)] s"
  let ?R = "R + {#PciClearMaster pdev#}"
  have guard: "\<not> da_num_ctrls api \<le>s v_curr s" using room by (simp add: word_sle_eq word_sless_alt)
  have s0: "dll (v_lists ?s0) ?l xs" "holds (v_calls ?s0) = Some ?R" "\<forall>x \<in> set xs. Kfree x \<in># ?R"
    using l R by (simp_all add: holds_append)
  have mem: "mem_fresh (da_mem api) {?l}" and io: "\<forall>k d. da_iomap api k d \<noteq> NULL"
    using api by (simp_all add: kernel_ok_def)
  note neg = IS_ERR_ERR_PTR [of "- 12", simplified]
  show thesis
    using s0(1) mem io s0(2,3)
  proof (cases rule: ctrl_get_runs [where cls = "v_class s" and pdev = pdev and number = "v_curr s"])
    case (no_ctrl k)
    then show thesis
      using guard neg l by (intro failed [of "?s0\<lparr>v_calls := k\<rparr>" "- 12" "{#}"])
        (simp_all add: add_pci_dev_def left_behind_cases)
  next
    case (no_aqp c reg L k)
    then show thesis
      using guard neg
      by (intro failed [of "?s0\<lparr>v_lists := L,
            v_ctrls := (v_ctrls s)(c \<mapsto> new_ctrl api (v_class s) pdev (v_curr s) reg NULL), v_calls := k\<rparr>" "- 12" "{#Kfree c, PciIounmap reg#}"])
        (auto simp: add_pci_dev_def left_behind_cases)
  next
    case (made c reg q L k)
    let ?C = "new_ctrl api (v_class s) pdev (v_curr s) reg q"
    let ?s1 = "?s0\<lparr>v_lists := L, v_ctrls := (v_ctrls s)(c \<mapsto> ?C), v_calls := k\<rparr>"
    let ?H = "R + {#PciClearMaster pdev, PciIounmap reg#}"
    have C: "v_ctrls ?s1 c = Some ?C" "c_chrdev ?C = NULL" "c_aqp ?C = q"
      "bound_rdev s = MKDEV (MAJOR (v_first ?s1)) (MINOR (v_first ?s1) + c_number ?C)"
      by (simp_all add: new_ctrl_def bound_rdev_def)
    have c: "c \<notin> set xs" "\<forall>x \<in> set xs. ((v_ctrls s)(c := None)) x = v_ctrls s x"
      using made(2) by (auto simp: dll_def)
    have k: "holds (v_calls ?s1) = Some (?H + {#Kfree c, Kfree q#})" using made(6) by (simp add: ac_simps)
    have run: "add_pci_dev api pdev s = bind_ctrl api pdev c ?s1"
      using guard made(1,5) by (simp add: add_pci_dev_def)
    have l1: "dll (v_lists ?s1) ?l (xs @ [c])" using made(2) by simp
    show thesis
      using api l1 C(1-3) made(4) C(4) k
    proof (cases rule: bind_runs [where pdev = pdev])
      case (failed e s')
      then show thesis using c run by (intro that(1) [of s' e "{#PciIounmap reg#}"]) (auto simp: left_behind_cases)
    next
      case (bound d k')
      then show thesis
        using made(4) l1 c(1) run
        by (intro that(2) [of "?s1\<lparr>v_ctrls := (v_ctrls ?s1)(c \<mapsto> ?C\<lparr>c_rdev := bound_rdev s, c_chrdev := d\<rparr>),
            v_calls := k', v_curr := v_curr s + 1\<rparr>" c d q reg])
          (simp_all add: bound_ctrl_def ctrl_owes_def new_ctrl_def)
    qed
  qed
qed

lemma remove_runs:
  assumes l: "dll (v_lists s) (da_list api) (as @ c # bs)"
    and at: "\<forall>x \<in> set (as @ c # bs). v_ctrls s x = Some (C x)"
    and d: "c_pdev (C c) = d" "d \<noteq> NULL" "\<forall>x \<in> set as. c_pdev (C x) \<noteq> d"
    and C: "c_chrdev (C c) \<noteq> NULL" "c_aqp (C c) \<noteq> NULL"
    and R: "holds (v_calls s) = Some (R + ctrl_owes c (C c))"
  obtains s' where "remove_pci_dev api d s = Some (Inr s')" "dll (v_lists s') (da_list api) (as @ bs)"
    "v_ctrls s' = (v_ctrls s)(c := None)" "v_curr s' = v_curr s - 1" "v_first s' = v_first s"
    "v_class s' = v_class s" "holds (v_calls s') = Some R"
proof -
  let ?s1 = "s\<lparr>v_curr := v_curr s - 1\<rparr>"
  have c0: "c \<noteq> NULL" using l by (auto simp: dll_def)
  have "List.find (\<lambda>x. c_pdev (C x) = d) (as @ c # bs) = Some c"
    using d(1,3) by (induction as) auto
  then have f: "ctrl_find_by_pci_dev (da_list api) d ?s1 = Some (Inr c)"
    using find_by_pci_dev [of ?s1 "da_list api" "as @ c # bs" C d] l at by simp
  obtain L where L: "ctrl_put c ?s1 = Inr (?s1\<lparr>v_lists := L, v_ctrls := (v_ctrls ?s1)(c := None),
      v_calls := v_calls ?s1 @ chrdev_gone c (C c) @ [Kfree (c_aqp (C c)), Kfree c]\<rparr>)"
      "dll L (da_list api) (as @ bs)"
    using ctrl_put_runs [of ?s1 "da_list api" as c bs "C c"] l at by auto
  let ?s' = "?s1\<lparr>v_lists := L, v_ctrls := (v_ctrls s)(c := None), v_calls := v_calls s @
      chrdev_gone c (C c) @ [Kfree (c_aqp (C c)), Kfree c] @ [PciReleaseRegion d, PciClearMaster d, PciDisableDevice d]\<rparr>"
  show thesis
  proof (rule that [of ?s'])
    show "remove_pci_dev api d s = Some (Inr ?s')"
      using d(2) f L(1) by (simp add: remove_pci_dev_def Let_def log_call_def)
    show "holds (v_calls ?s') = Some R"
      using R C c0 d(1) by (simp add: holds_append chrdev_gone_def ctrl_owes_def)
  qed (use L(2) in simp_all)
qed

subsection \<open>Devices coming and going\<close>

text \<open>
  The PCI core probes devices that are not bound, binds a device whose probe returns 0 and removes
  bound devices only, through the callbacks of \<open>driver\<close>. The second component are the bound devices.
  No more devices than \<open>num_ctrls\<close> are offered; what happens beyond is the subject of a property.
\<close>

inductive pci_step :: "drv_api \<Rightarrow> drv \<times> addr list \<Rightarrow> drv \<times> addr list \<Rightarrow> bool" for api where
  probe: "d \<notin> set ds \<Longrightarrow> d \<noteq> NULL \<Longrightarrow> int (length ds) < sint (da_num_ctrls api) \<Longrightarrow>
    pd_probe (driver api) d s = Inr (s', e) \<Longrightarrow>
    pci_step api (s, ds) (s', if e = 0 then ds @ [d] else ds)"
| unbind: "d \<in> set ds \<Longrightarrow> pd_remove (driver api) d s = Some (Inr s') \<Longrightarrow>
    pci_step api (s, ds) (s', remove1 d ds)"

inductive_cases pci_stepE: "pci_step api (s, ds) (s', ds')"

abbreviation pci_run :: "drv_api \<Rightarrow> drv \<times> addr list \<Rightarrow> drv \<times> addr list \<Rightarrow> bool" where
  "pci_run api \<equiv> (pci_step api)\<^sup>*\<^sup>*"

text \<open>
  The invariant: the list holds exactly the controllers of the bound devices, in the order of their
  probes, each with its character device; \<open>curr_ctrls\<close> counts them; the driver holds what it held
  before any probe, what each controller owes, and what probes and removals leave behind.
\<close>

fun may_leak :: "kcall \<Rightarrow> bool" where
  "may_leak (PciIounmap p) = True"
| "may_leak (PciClearMaster d) = True"
| "may_leak (Kfree p) = True"
| "may_leak _ = False"

definition ctl :: "drv \<Rightarrow> addr \<Rightarrow> ctrl" where
  "ctl s x = the (v_ctrls s x)"

text \<open>What the module itself owes from its initialisation on.\<close>

definition module_owes :: "drv_api \<Rightarrow> drv \<Rightarrow> kcall multiset" where
  "module_owes api s = {#PciUnregisterDriver, ClassDestroy (v_class s),
     UnregisterChrdevRegion (v_first s) (da_num_ctrls api)#}"

definition drv_inv :: "drv_api \<Rightarrow> drv \<times> addr list \<Rightarrow> bool" where
  "drv_inv api = (\<lambda>(s, ds). \<exists>xs X. dll (v_lists s) (da_list api) xs
     \<and> (\<forall>x \<in> set xs. v_ctrls s x = Some (ctl s x) \<and> c_chrdev (ctl s x) \<noteq> NULL \<and> c_aqp (ctl s x) \<noteq> NULL)
     \<and> map (\<lambda>x. c_pdev (ctl s x)) xs = ds \<and> distinct ds \<and> NULL \<notin> set ds
     \<and> v_curr s = of_nat (length ds) \<and> int (length ds) \<le> sint (da_num_ctrls api)
     \<and> holds (v_calls s) = Some (module_owes api s + X + (\<Sum>x \<leftarrow> xs. ctrl_owes x (ctl s x)))
     \<and> (\<forall>c \<in># X. may_leak c))"

lemma sint_of_nat_s32:
  assumes "int n < 2 ^ 31"
  shows "sint (of_nat n :: s32) = int n"
proof -
  have "sint (of_nat n :: s32) = (int n + 2 ^ 31) mod 2 ^ 32 - 2 ^ 31"
    using int_word_sint [where 'a = 32, of "int n"] by simp
  also have "(int n + 2 ^ 31) mod 2 ^ 32 = int n + 2 ^ 31"
    using assms by (intro mod_pos_pos_trivial) simp_all
  finally show ?thesis by simp
qed

lemma owes_on_list:
  assumes "x \<in> set xs"
  shows "Kfree x \<in># B + (\<Sum>x \<leftarrow> xs. ctrl_owes x (f x))"
  using assms by (induction xs) (auto simp: ctrl_owes_def)

text \<open>What the next probe relies on.\<close>

lemma inv_list:
  assumes "drv_inv api (s, ds)" and "int (length ds) < sint (da_num_ctrls api)" and "holds (v_calls s) = Some H"
  obtains xs where "dll (v_lists s) (da_list api) xs" "map (\<lambda>x. c_pdev (ctl s x)) xs = ds"
    "\<forall>x \<in> set xs. v_ctrls s x = Some (ctl s x)" "\<forall>x \<in> set xs. Kfree x \<in># H" "v_curr s <s da_num_ctrls api"
proof -
  obtain xs X where I: "dll (v_lists s) (da_list api) xs" "\<forall>x \<in> set xs. v_ctrls s x = Some (ctl s x)"
      "map (\<lambda>x. c_pdev (ctl s x)) xs = ds" "v_curr s = of_nat (length ds)"
    and H: "holds (v_calls s) = Some (module_owes api s + X + (\<Sum>x \<leftarrow> xs. ctrl_owes x (ctl s x)))"
    using assms(1) unfolding drv_inv_def by auto
  have "sint (da_num_ctrls api) < 2 ^ 31" using sint_lt [of "da_num_ctrls api"] by simp
  then have "v_curr s <s da_num_ctrls api"
    using assms(2) I(4) by (simp add: word_sless_alt sint_of_nat_s32)
  moreover have "H = module_owes api s + X + (\<Sum>x \<leftarrow> xs. ctrl_owes x (ctl s x))"
    using assms(3) H by simp
  then have "\<forall>x \<in> set xs. Kfree x \<in># H" using owes_on_list by blast
  ultimately show thesis using I(1-3) by (intro that) auto
qed

lemma probe_inv:
  assumes api: "kernel_ok api" and inv: "drv_inv api (s, ds)" and d: "d \<notin> set ds" "d \<noteq> NULL"
    and room: "int (length ds) < sint (da_num_ctrls api)"
  obtains s' e where "add_pci_dev api d s = Inr (s', e)" "e \<le> 0"
    "drv_inv api (s', if e = 0 then ds @ [d] else ds)"
proof -
  let ?B = "module_owes api s"
  obtain xs X where I: "dll (v_lists s) (da_list api) xs"
      "\<forall>x \<in> set xs. v_ctrls s x = Some (ctl s x) \<and> c_chrdev (ctl s x) \<noteq> NULL \<and> c_aqp (ctl s x) \<noteq> NULL"
      "map (\<lambda>x. c_pdev (ctl s x)) xs = ds" "distinct ds" "NULL \<notin> set ds" "v_curr s = of_nat (length ds)"
      "int (length ds) \<le> sint (da_num_ctrls api)" "\<forall>c \<in># X. may_leak c"
    and H: "holds (v_calls s) = Some (?B + X + (\<Sum>x \<leftarrow> xs. ctrl_owes x (ctl s x)))"
    using inv unfolding drv_inv_def by auto
  obtain r: "v_curr s <s da_num_ctrls api" by (rule inv_list [OF inv room H])
  have K: "\<forall>x \<in> set xs. Kfree x \<in># ?B + X + (\<Sum>x \<leftarrow> xs. ctrl_owes x (ctl s x))"
    using owes_on_list by blast
  show thesis
    using api I(1) H K r
  proof (cases rule: add_runs [where pdev = d])
    case (failed e s' Y)
    have B: "module_owes api s' = ?B" using failed(6,7) by (simp add: module_owes_def)
    have ctl: "\<forall>x \<in> set xs. ctl s' x = ctl s x" using failed(4) by (simp add: ctl_def)
    have Y: "\<forall>c \<in># X + {#PciClearMaster d#} + Y. may_leak c"
      using I(8) failed(9) by (auto simp: left_behind_def)
    have "(\<Sum>x \<leftarrow> xs. ctrl_owes x (ctl s x)) = (\<Sum>x \<leftarrow> xs. ctrl_owes x (ctl s' x))"
      using ctl by (intro arg_cong [where f = sum_list] map_cong) simp_all
    then have "holds (v_calls s') = Some (?B + (X + {#PciClearMaster d#} + Y) + (\<Sum>x \<leftarrow> xs. ctrl_owes x (ctl s' x)))"
      using failed(8) by (simp add: ac_simps)
    moreover have "map (\<lambda>x. c_pdev (ctl s' x)) xs = ds" using ctl I(3) by auto
    ultimately have "drv_inv api (s', ds)"
      unfolding drv_inv_def using failed(3-5) I(2,4-7) ctl Y B by auto
    with failed(1,2) show thesis by (intro that [of s' e]) auto
  next
    case (bound c reg q chrdev s')
    let ?C = "bound_ctrl api s d reg q chrdev"
    have ctl: "\<forall>x \<in> set xs. ctl s' x = ctl s x" "ctl s' c = ?C"
      using bound(3,6) by (auto simp: ctl_def)
    have B: "module_owes api s' = ?B" using bound(8,9) by (simp add: module_owes_def)
    have C: "c_chrdev ?C \<noteq> NULL" "c_aqp ?C \<noteq> NULL" "c_pdev ?C = d"
      using bound(4,5) by (simp_all add: bound_ctrl_def new_ctrl_def)
    have "(\<Sum>x \<leftarrow> xs. ctrl_owes x (ctl s x)) = (\<Sum>x \<leftarrow> xs. ctrl_owes x (ctl s' x))"
      using ctl by (intro arg_cong [where f = sum_list] map_cong) simp_all
    then have "holds (v_calls s') = Some (?B + (X + {#PciIounmap reg#}) + (\<Sum>x \<leftarrow> xs @ [c]. ctrl_owes x (ctl s' x)))"
      using bound(10) ctl(2) by (simp add: ac_simps)
    moreover have "\<forall>x \<in> set (xs @ [c]). v_ctrls s' x = Some (ctl s' x) \<and> c_chrdev (ctl s' x) \<noteq> NULL
        \<and> c_aqp (ctl s' x) \<noteq> NULL"
      using I(2) ctl C bound(6) by auto
    moreover have "map (\<lambda>x. c_pdev (ctl s' x)) (xs @ [c]) = ds @ [d]" using ctl I(3) C(3) by auto
    moreover have "\<forall>k \<in># X + {#PciIounmap reg#}. may_leak k" using I(8) by auto
    ultimately have "drv_inv api (s', ds @ [d])"
      unfolding drv_inv_def prod.case using bound(2,7) I(4-7) d room
      by (intro exI [of _ "xs @ [c]"] exI [of _ "X + {#PciIounmap reg#}"]) (simp add: B)
    with bound(1) show thesis by (intro that [of s' 0]) auto
  qed
qed

lemma unbind_inv:
  assumes inv: "drv_inv api (s, ds)" and d: "d \<in> set ds"
  obtains s' as c bs where "remove_pci_dev api d s = Some (Inr s')" "drv_inv api (s', remove1 d ds)"
    "dll (v_lists s) (da_list api) (as @ c # bs)" "dll (v_lists s') (da_list api) (as @ bs)"
    "c_pdev (ctl s c) = d" "v_ctrls s' = (v_ctrls s)(c := None)" "v_first s' = v_first s"
proof -
  let ?B = "module_owes api s"
  obtain xs X where I: "dll (v_lists s) (da_list api) xs"
      "\<forall>x \<in> set xs. v_ctrls s x = Some (ctl s x) \<and> c_chrdev (ctl s x) \<noteq> NULL \<and> c_aqp (ctl s x) \<noteq> NULL"
      "map (\<lambda>x. c_pdev (ctl s x)) xs = ds" "distinct ds" "NULL \<notin> set ds" "v_curr s = of_nat (length ds)"
      "int (length ds) \<le> sint (da_num_ctrls api)" "\<forall>c \<in># X. may_leak c"
    and H: "holds (v_calls s) = Some (?B + X + (\<Sum>x \<leftarrow> xs. ctrl_owes x (ctl s x)))"
    using inv unfolding drv_inv_def by auto
  obtain c where "c \<in> set xs" and cd: "c_pdev (ctl s c) = d" using d I(3) by auto
  then obtain as bs where xs: "xs = as @ c # bs" by (auto simp: in_set_conv_decomp)
  have nd: "d \<notin> set (map (\<lambda>x. c_pdev (ctl s x)) as)"
    using I(4) cd unfolding I(3) [symmetric] xs by simp
  then have other: "\<forall>x \<in> set as. c_pdev (ctl s x) \<noteq> d" by (metis image_eqI set_map)
  have cn: "c \<notin> set (as @ bs)"
    using I(1) unfolding xs by (auto simp: dll_def)
  have H': "holds (v_calls s) = Some (?B + X + (\<Sum>x \<leftarrow> as @ bs. ctrl_owes x (ctl s x)) + ctrl_owes c (ctl s c))"
    using H by (simp add: xs ac_simps)
  obtain s' where s': "remove_pci_dev api d s = Some (Inr s')" "dll (v_lists s') (da_list api) (as @ bs)"
    "v_ctrls s' = (v_ctrls s)(c := None)" "v_curr s' = v_curr s - 1"
    "module_owes api s' = ?B" "v_first s' = v_first s" "holds (v_calls s') = Some (?B + X + (\<Sum>x \<leftarrow> as @ bs. ctrl_owes x (ctl s x)))"
    by (rule remove_runs [of s api as c bs "ctl s" d]) (use I cd other d H' in \<open>auto simp: xs module_owes_def\<close>)
  have ctl: "ctl s' x = ctl s x" if "x \<in> set (as @ bs)" for x
    using that s'(3) cn by (auto simp: ctl_def)
  have ds: "remove1 d ds = map (\<lambda>x. c_pdev (ctl s x)) (as @ bs)" "ds = map (\<lambda>x. c_pdev (ctl s x)) as @ d # map (\<lambda>x. c_pdev (ctl s x)) bs"
    using nd cd unfolding I(3) [symmetric] xs by (simp_all add: remove1_append)
  have "drv_inv api (s', remove1 d ds)"
    unfolding drv_inv_def prod.case
  proof (intro exI [of _ "as @ bs"] exI [of _ X] conjI ballI)
    show "holds (v_calls s') = Some (module_owes api s' + X + (\<Sum>x \<leftarrow> as @ bs. ctrl_owes x (ctl s' x)))"
      using s'(5,7) ctl by (simp cong: map_cong)
    show "map (\<lambda>x. c_pdev (ctl s' x)) (as @ bs) = remove1 d ds"
      unfolding ds(1) using ctl by (intro map_cong) simp_all
    show "v_curr s' = of_nat (length (remove1 d ds))"
      using s'(4) I(6) ds by simp
    show "int (length (remove1 d ds)) \<le> sint (da_num_ctrls api)"
      using I(7) length_remove1 [of d ds] by (auto split: if_splits)
    show "distinct (remove1 d ds)" "NULL \<notin> set (remove1 d ds)"
      using I(4,5) by (auto dest: notin_set_remove1)
  next
    fix x assume x: "x \<in> set (as @ bs)"
    then have "v_ctrls s' x = v_ctrls s x" using s'(3) cn by auto
    then show "v_ctrls s' x = Some (ctl s' x)" "c_chrdev (ctl s' x) \<noteq> NULL" "c_aqp (ctl s' x) \<noteq> NULL"
      using I(2) x ctl [OF x] by (auto simp: xs)
  qed (use s'(2) I(8) in simp_all)
  with s'(1) show thesis
    using that I(1) s'(2,3,6) cd unfolding xs by blast
qed

lemma pci_step_inv:
  assumes "pci_step api (s, ds) (s', ds')" and api: "kernel_ok api" and inv: "drv_inv api (s, ds)"
  shows "drv_inv api (s', ds')"
  using assms(1)
proof (rule pci_stepE)
  fix d e
  assume a: "ds' = (if e = 0 then ds @ [d] else ds)" "d \<notin> set ds" "d \<noteq> NULL"
    "int (length ds) < sint (da_num_ctrls api)" "pd_probe (driver api) d s = Inr (s', e)"
  obtain s1 e1 where "add_pci_dev api d s = Inr (s1, e1)" "drv_inv api (s1, if e1 = 0 then ds @ [d] else ds)"
    using probe_inv [OF api inv a(2-4)] by blast
  with a show ?thesis by (simp add: driver_def)
next
  fix d
  assume a: "ds' = remove1 d ds" "d \<in> set ds" "pd_remove (driver api) d s = Some (Inr s')"
  obtain s1 where "remove_pci_dev api d s = Some (Inr s1)" "drv_inv api (s1, remove1 d ds)"
    using unbind_inv [OF inv a(2)] by blast
  with a show ?thesis by (simp add: driver_def)
qed

interpretation pci: step_invariant "pci_step api" "\<lambda>x. kernel_ok api \<and> drv_inv api x" for api
proof
  fix x y
  assume "pci_step api x y" and "kernel_ok api \<and> drv_inv api x"
  then show "kernel_ok api \<and> drv_inv api y"
    by (cases x; cases y) (auto intro: pci_step_inv)
qed

text \<open>Loading the module: an error releases what was taken, success starts the invariant.\<close>

lemma init_runs:
  assumes api: "kernel_ok api" and v: "valid (v_lists s) (da_list api)" and R: "holds (v_calls s) = Some R"
  obtains (failed) s' e where "bafs_nvme_init api s = Inr (s', e)" "e < 0" "holds (v_calls s') = Some R"
  | (loaded) s' where "bafs_nvme_init api s = Inr (s', 0)" "dll (v_lists s') (da_list api) []"
      "v_curr s' = v_curr s" "holds (v_calls s') = Some (R + module_owes api s')"
proof -
  let ?n = "da_num_ctrls api"
  obtain L where L: "list_init (v_lists s) (da_list api) = Inr L" "dll L (da_list api) []"
    using list_init_dll [OF v] by blast
  obtain e1 first where ch: "da_chrdev api (v_calls s) ?n = (e1, first)" by (cases "da_chrdev api (v_calls s) ?n")
  let ?k = "v_calls s @ [AllocChrdevRegion first ?n e1]"
  let ?cls = "da_class api ?k"
  let ?k1 = "?k @ [ClassCreate ?cls]"
  let ?e2 = "da_register api ?k1"
  let ?s1 = "s\<lparr>v_lists := L, v_first := first, v_class := ?cls\<rparr>"
  have neg: "e1 \<le> 0" "?e2 \<le> 0" using api ch unfolding kernel_ok_def by (metis fst_conv, blast)
  consider (region) "e1 < 0" | (cls) "e1 = 0" "IS_ERR ?cls" | (reg) "e1 = 0" "\<not> IS_ERR ?cls" "?e2 < 0"
    | (ok) "e1 = 0" "\<not> IS_ERR ?cls" "?e2 = 0" using neg by linarith
  then show thesis
  proof cases
    case region
    then show thesis
      using L(1) ch R by (intro failed [of "s\<lparr>v_lists := L, v_calls := ?k\<rparr>" e1])
        (simp_all add: bafs_nvme_init_def holds_append)
  next
    case cls
    then show thesis
      using L(1) ch R
      by (intro failed [of "?s1\<lparr>v_calls := ?k1 @ [UnregisterChrdevRegion first ?n]\<rparr>" "PTR_ERR ?cls"])
        (simp_all add: bafs_nvme_init_def holds_append IS_ERR_negative Let_def)
  next
    case reg
    then show thesis
      using L(1) ch R
      by (intro failed [of "?s1\<lparr>v_calls := ?k1 @ [PciRegisterDriver ?e2, ClassDestroy ?cls,
            UnregisterChrdevRegion first ?n]\<rparr>" ?e2])
        (simp_all add: bafs_nvme_init_def holds_append Let_def)
  next
    case ok
    then show thesis
      using L ch R by (intro loaded [of "?s1\<lparr>v_calls := ?k1 @ [PciRegisterDriver 0]\<rparr>"])
        (simp_all add: bafs_nvme_init_def holds_append Let_def module_owes_def)
  qed
qed

lemma loaded_inv:
  assumes "dll (v_lists s) (da_list api) []" and "v_curr s = 0" and "0 \<le> sint (da_num_ctrls api)"
    and "holds (v_calls s) = Some (module_owes api s)"
  shows "drv_inv api (s, [])"
  unfolding drv_inv_def prod.case using assms by (intro exI [of _ "[]"] exI [of _ "{#}"]) simp

text \<open>A freshly loaded image: nothing called, no controller, the static list not initialised.\<close>

definition unloaded :: "drv_api \<Rightarrow> drv \<Rightarrow> bool" where
  "unloaded api s \<longleftrightarrow> v_calls s = [] \<and> v_curr s = 0 \<and> valid (v_lists s) (da_list api)
     \<and> 0 \<le> sint (da_num_ctrls api)"

lemma load_then_run:
  assumes "kernel_ok api" and "unloaded api s0" and "bafs_nvme_init api s0 = Inr (s1, 0)"
    and "pci_run api (s1, []) (s, ds)"
  shows "drv_inv api (s, ds)"
proof -
  have s0: "valid (v_lists s0) (da_list api)" "holds (v_calls s0) = Some {#}" "v_curr s0 = 0" "0 \<le> sint (da_num_ctrls api)"
    using assms(2) by (simp_all add: unloaded_def holds_def)
  show ?thesis
    using assms(1) s0(1,2)
  proof (cases rule: init_runs)
    case (failed s' e)
    with assms(3) show ?thesis by simp
  next
    case (loaded s')
    with assms(3) s0 have "drv_inv api (s1, [])" by (intro loaded_inv) simp_all
    with assms(1,4) show ?thesis using pci.run_keeps by blast
  qed
qed

subsection \<open>A kernel for the witnesses\<close>

text \<open>
  Four allocations of memory, all calls succeed but those of the device \<open>bad\<close>.
\<close>

definition four_slots :: mem_api where
  "four_slots = \<lparr>kmalloc_result = (\<lambda>k sz. case holds k of None \<Rightarrow> NULL | Some H \<Rightarrow>
       (case List.find (\<lambda>p. Kfree p \<notin># H) [0x1000, 0x2000, 0x3000, 0x4000] of None \<Rightarrow> NULL | Some p \<Rightarrow> p)),
     dma_alloc_result = (\<lambda>k sz. (NULL, 0))\<rparr>"

definition small_kernel :: "addr \<Rightarrow> drv_api" where
  "small_kernel bad =
     \<lparr>da_mem = four_slots, da_iomap = (\<lambda>k d. 0x8000), da_resource = (\<lambda>d. (0xf0000000, 0x4000)),
      da_request = (\<lambda>k d. 0), da_enable = (\<lambda>k d. if d = bad then - 5 else 0),
      da_cdev_add = (\<lambda>k n. 0), da_device = (\<lambda>k n. 0x7000), da_chrdev = (\<lambda>k n. (0, 0x0f000000)),
      da_class = (\<lambda>k. 0x6000), da_register = (\<lambda>k. 0), da_list = 0x100, da_sizeof_ctrl = 512,
      da_sizeof_aqp = 1024, da_fill = \<lparr>ln_list = 1, ln_next = 2, ln_prev = 3\<rparr>, da_modname = ''bafs'',
      da_num_ctrls = 8\<rparr>"

definition cold_image :: drv where
  "cold_image =
     \<lparr>v_lists = \<lparr>nodes = [0x100 \<mapsto> \<lparr>ln_list = NULL, ln_next = NULL, ln_prev = NULL\<rparr>], locks = (\<lambda>_. False)\<rparr>,
      v_ctrls = Map.empty, v_calls = [], v_curr = 0, v_first = 0, v_class = NULL\<rparr>"

lemma four_slots_fresh: "mem_fresh four_slots {0x100}"
  by (auto simp: mem_fresh_def four_slots_def IS_ERR_def split: option.splits)

lemma small_kernel_ok: "kernel_ok (small_kernel bad)"
  using four_slots_fresh by (simp add: kernel_ok_def small_kernel_def)

lemma cold_unloaded: "unloaded (small_kernel bad) cold_image"
  by (simp add: unloaded_def cold_image_def small_kernel_def valid_def)

definition small_loaded :: "addr \<Rightarrow> drv" where
  "small_loaded bad = fst (case bafs_nvme_init (small_kernel bad) cold_image of Inr x \<Rightarrow> x | Inl _ \<Rightarrow> undefined)"

lemma small_init: "bafs_nvme_init (small_kernel bad) cold_image = Inr (small_loaded bad, 0)"
  by (simp add: small_loaded_def bafs_nvme_init_def list_init_def list_ops cold_image_def small_kernel_def
      IS_ERR_def Let_def)

lemma small_inv: "drv_inv (small_kernel bad) (small_loaded bad, [])"
  by (rule load_then_run [OF small_kernel_ok cold_unloaded small_init]) (rule rtranclp.rtrancl_refl)

end
