(* ===== verification/Module_Props.thy ===== *)
theory Module_Props
  imports Module
begin

section \<open>The life of the module and its devices\<close>

text \<open>
  The properties of bafs_nvme_mod.c and ctrl.c together: loading and unloading, devices that come
  and go, what a failed probe leaves, the device files and the table of devices.
\<close>

text \<open>Devices that never fail to bind, and one that does.\<close>

abbreviation (input) K5 :: drv_api where "K5 \<equiv> small_kernel 0x5"

lemma small_room: "sint (da_num_ctrls (small_kernel bad)) = 8"
  by (simp add: small_kernel_def)

lemma inv_start:
  assumes "drv_inv api (s, [])"
  obtains X where "dll (v_lists s) (da_list api) []" "v_curr s = 0"
    "holds (v_calls s) = Some (module_owes api s + X)" "\<forall>c \<in># X. may_leak c"
  using assms unfolding drv_inv_def by auto

text \<open>The driver evaluated on the small kernel.\<close>

lemmas drv_eval = add_pci_dev_def bind_ctrl_def ctrl_get_def kmalloc_def list_node_init_def list_insert_def list_init_def
  list_ops ctrl_chrdev_create_def ctrl_at_def log_call_def small_kernel_def four_slots_def Let_def IS_ERR_def
  cdev_of_def bafs_nvme_init_def holds_def cold_image_def word_sle_eq

definition added :: "addr \<Rightarrow> drv \<Rightarrow> drv" where
  "added d s = (case add_pci_dev K5 d s of Inr (s', e) \<Rightarrow> s' | Inl _ \<Rightarrow> s)"

lemma small_probe: "add_pci_dev K5 0x9 (small_loaded 0x5) = Inr (added 0x9 (small_loaded 0x5), 0)"
  by (simp add: added_def small_loaded_def drv_eval)

lemma small_probe_fails: "add_pci_dev K5 0x5 (small_loaded 0x5) = Inr (added 0x5 (small_loaded 0x5), - 5)"
  by (simp add: added_def small_loaded_def drv_eval ctrl_put_def ctrl_chrdev_remove_def list_remove_def)

lemma small_holds: "holds (v_calls (small_loaded bad)) = Some (module_owes (small_kernel bad) (small_loaded bad))"
  by (simp add: small_loaded_def drv_eval module_owes_def)



text \<open>
  C22. A device that was bound and is removed: its controller is off the list, the character device
  is gone, the count is back, and everything the probe took is released except the mapping of the
  registers, for which the driver never calls pci_iounmap.
\<close>

theorem probe_remove_leaks_mapping:
  assumes "kernel_ok api" and "drv_inv api (s, ds)" and "d \<notin> set ds" and "d \<noteq> NULL"
    and "int (length ds) < sint (da_num_ctrls api)" and "add_pci_dev api d s = Inr (s1, 0)"
    and "holds (v_calls s) = Some H"
  shows "drv_inv api (s1, ds @ [d])
    \<and> (\<exists>s2 reg. remove_pci_dev api d s1 = Some (Inr s2) \<and> drv_inv api (s2, ds) \<and> v_curr s2 = v_curr s
        \<and> holds (v_calls s2) = Some (H + {#PciIounmap reg#}))"
proof
  obtain s' e where "add_pci_dev api d s = Inr (s', e)" "drv_inv api (s', if e = 0 then ds @ [d] else ds)"
    using probe_inv [OF assms(1-5)] by blast
  with assms(6) show inv: "drv_inv api (s1, ds @ [d])" by simp
  obtain xs where xs: "dll (v_lists s) (da_list api) xs" "map (\<lambda>x. c_pdev (ctl s x)) xs = ds"
      "\<forall>x \<in> set xs. v_ctrls s x = Some (ctl s x)" "\<forall>x \<in> set xs. Kfree x \<in># H" "v_curr s <s da_num_ctrls api"
    by (rule inv_list [OF assms(2,5,7)])
  show "\<exists>s2 reg. remove_pci_dev api d s1 = Some (Inr s2) \<and> drv_inv api (s2, ds) \<and> v_curr s2 = v_curr s
      \<and> holds (v_calls s2) = Some (H + {#PciIounmap reg#})"
    using assms(1) xs(1) assms(7) xs(4,5)
  proof (cases rule: add_runs [where pdev = d])
    case (failed e s' X)
    with assms(6) show ?thesis by simp
  next
    case (bound c reg q chrdev s')
    let ?C = "bound_ctrl api s d reg q chrdev"
    have s1: "s' = s1" using bound(1) assms(6) by simp
    have C: "c_chrdev ?C \<noteq> NULL" "c_aqp ?C \<noteq> NULL" "c_pdev ?C = d" "ctl s1 c = ?C"
      using bound(4-6) s1 by (simp_all add: bound_ctrl_def new_ctrl_def ctl_def)
    have ctl: "\<forall>x \<in> set xs. ctl s1 x = ctl s x" using bound(3,6) s1 by (auto simp: ctl_def)
    have n: "\<forall>x \<in> set xs. c_pdev (ctl s1 x) \<noteq> d" using ctl assms(3) xs(2) by auto
    have at: "\<forall>x \<in> set (xs @ c # []). v_ctrls s1 x = Some (ctl s1 x)"
      using xs(3) bound(3,6) s1 ctl C(4) by auto
    have h: "holds (v_calls s1) = Some (H + {#PciIounmap reg#} + ctrl_owes c (ctl s1 c))"
      using bound(10) s1 C(4) by (simp add: ac_simps)
    obtain s2 where s2: "remove_pci_dev api d s1 = Some (Inr s2)" "v_curr s2 = v_curr s1 - 1"
      "holds (v_calls s2) = Some (H + {#PciIounmap reg#})"
      by (rule remove_runs [OF _ at _ assms(4) n _ _ h]) (use bound(2) s1 C in simp_all)
    moreover have "drv_inv api (s2, ds)"
    proof (rule unbind_inv [OF inv, of d])
      show "d \<in> set (ds @ [d])" by simp
      fix s2' assume "remove_pci_dev api d s1 = Some (Inr s2')" "drv_inv api (s2', remove1 d (ds @ [d]))"
      with s2(1) assms(3) show "drv_inv api (s2, ds)" by (simp add: remove1_append)
    qed
    ultimately show ?thesis using bound(7) s1 by auto
  qed
qed

theorem probe_remove_leaks_mapping_witness:
  "drv_inv K5 (added 0x9 (small_loaded 0x5), [0x9])
    \<and> (\<exists>s2 reg. remove_pci_dev K5 0x9 (added 0x9 (small_loaded 0x5)) = Some (Inr s2) \<and> drv_inv K5 (s2, [])
        \<and> holds (v_calls s2) = Some (module_owes K5 (small_loaded 0x5) + {#PciIounmap reg#}))"
  using probe_remove_leaks_mapping [OF small_kernel_ok small_inv _ _ _ small_probe small_holds]
  by (auto simp: small_room)

text \<open>
  C23. A probe that fails after the limit test returns a negative error and leaves the list, the other controllers,
  the count and the numbers as they were: the next device is probed as if it had not been there. What it does not
  undo is pci_set_master, the mapping of the registers and, when the admin queue could not be
  allocated (ENOMEM), the allocation of the controller.
\<close>

theorem probe_failure_unwinds:
  assumes "kernel_ok api" and "drv_inv api (s, ds)" and "d \<notin> set ds" and "d \<noteq> NULL"
    and "int (length ds) < sint (da_num_ctrls api)" and "add_pci_dev api d s = Inr (s', e)" and "e \<noteq> 0"
    and "holds (v_calls s) = Some H"
  shows "e < 0 \<and> drv_inv api (s', ds) \<and> v_curr s' = v_curr s
    \<and> (\<exists>X. holds (v_calls s') = Some (H + {#PciClearMaster d#} + X)
        \<and> (X = {#} \<or> (\<exists>reg. X = {#PciIounmap reg#}) \<or> e = - 12 \<and> (\<exists>c reg. X = {#Kfree c, PciIounmap reg#})))"
proof -
  obtain s1 e1 where "add_pci_dev api d s = Inr (s1, e1)" "drv_inv api (s1, if e1 = 0 then ds @ [d] else ds)"
    using probe_inv [OF assms(1-5)] by blast
  with assms(6,7) have inv: "drv_inv api (s', ds)" by simp
  obtain xs where xs: "dll (v_lists s) (da_list api) xs" "\<forall>x \<in> set xs. Kfree x \<in># H"
      "v_curr s <s da_num_ctrls api"
    by (rule inv_list [OF assms(2,5,8)])
  show ?thesis
    using assms(1) xs(1) assms(8) xs(2,3)
  proof (cases rule: add_runs [where pdev = d])
    case (failed e2 s2 X)
    with assms(6) inv show ?thesis by (auto simp: left_behind_def)
  next
    case (bound c reg q chrdev s2)
    with assms(6,7) show ?thesis by simp
  qed
qed

theorem probe_failure_unwinds_witness:
  "drv_inv K5 (added 0x5 (small_loaded 0x5), []) \<and> v_curr (added 0x5 (small_loaded 0x5)) = v_curr (small_loaded 0x5)"
  using probe_failure_unwinds [OF small_kernel_ok small_inv _ _ _ small_probe_fails _ small_holds]
  by (auto simp: small_room)

text \<open>A probe that succeeds, from the invariant.\<close>

lemma probe_bound:
  assumes "kernel_ok api" and "drv_inv api (s, ds)" and "int (length ds) < sint (da_num_ctrls api)"
    and "add_pci_dev api d s = Inr (s', 0)" and "d \<notin> set ds" and "d \<noteq> NULL"
  obtains xs c reg q chrdev where "dll (v_lists s) (da_list api) xs" "dll (v_lists s') (da_list api) (xs @ [c])"
    "v_ctrls s' = (v_ctrls s)(c \<mapsto> bound_ctrl api s d reg q chrdev)" "c \<notin> set xs"
    "length xs = length ds" "v_first s' = v_first s" "drv_inv api (s', ds @ [d])"
proof -
  obtain H where H: "holds (v_calls s) = Some H" using assms(2) unfolding drv_inv_def by auto
  obtain xs where xs: "dll (v_lists s) (da_list api) xs" "map (\<lambda>x. c_pdev (ctl s x)) xs = ds"
      "\<forall>x \<in> set xs. Kfree x \<in># H" "v_curr s <s da_num_ctrls api"
    by (rule inv_list [OF assms(2,3) H])
  obtain s1 e where "add_pci_dev api d s = Inr (s1, e)" "drv_inv api (s1, if e = 0 then ds @ [d] else ds)"
    using probe_inv [OF assms(1,2,5,6,3)] by blast
  with assms(4) have inv: "drv_inv api (s', ds @ [d])" by simp
  have len: "length xs = length ds" using xs(2) by auto
  show thesis
    using assms(1) xs(1) H xs(3,4)
  proof (cases rule: add_runs [where pdev = d])
    case (failed e s2 X)
    with assms(4) show ?thesis by simp
  next
    case (bound c reg q chrdev s2)
    with assms(4) that [OF xs(1) _ _ _ len _ inv] show ?thesis by simp
  qed
qed

lemma bound_ctrl_simps [simp]:
  "c_rdev (bound_ctrl api s d reg q chrdev) = MKDEV (MAJOR (v_first s)) (MINOR (v_first s) + v_curr s)"
  "c_name (bound_ctrl api s d reg q chrdev) = ctrl_name (da_modname api) (v_curr s)"
  "c_pdev (bound_ctrl api s d reg q chrdev) = d"
  by (simp_all add: bound_ctrl_def new_ctrl_def bound_rdev_def)

lemma inv_count: "drv_inv api (s, ds) \<Longrightarrow> v_curr s = of_nat (length ds)"
  unfolding drv_inv_def by auto

text \<open>
  C32. Numbers are given out from the count of bound devices, so after a removal one is given out twice: with a
  and b bound and a removed, the device number and the name that the next probe asks for are those of b's
  controller. If the kernel accepts them, two controllers share them.
\<close>

theorem numbers_are_reused:
  assumes "kernel_ok api" and "drv_inv api (s, [])" and "distinct [NULL, a, b, d]"
    and "2 \<le> sint (da_num_ctrls api)"
    and "add_pci_dev api a s = Inr (s1, 0)" and "add_pci_dev api b s1 = Inr (s2, 0)"
    and "remove_pci_dev api a s2 = Some (Inr s3)"
  shows "\<exists>y. v_ctrls s3 y = Some (ctl s3 y) \<and> c_pdev (ctl s3 y) = b
    \<and> MKDEV (MAJOR (v_first s3)) (MINOR (v_first s3) + v_curr s3) = c_rdev (ctl s3 y)
    \<and> ctrl_name (da_modname api) (v_curr s3) = c_name (ctl s3 y)
    \<and> (\<forall>s4. add_pci_dev api d s3 = Inr (s4, 0) \<longrightarrow>
          (\<exists>x. x \<noteq> y \<and> c_pdev (ctl s4 x) = d \<and> ctl s4 y = ctl s3 y
            \<and> c_rdev (ctl s4 x) = c_rdev (ctl s4 y) \<and> c_name (ctl s4 x) = c_name (ctl s4 y)))"
proof -
  have d: "a \<noteq> NULL" "b \<noteq> NULL" "d \<noteq> NULL" "a \<noteq> b" "b \<noteq> d" "a \<notin> set []" "b \<notin> set [a]" "d \<notin> set [b]"
    using assms(3) by auto
  have room: "int (length []) < sint (da_num_ctrls api)" "int (length [a]) < sint (da_num_ctrls api)"
    "int (length [b]) < sint (da_num_ctrls api)" using assms(4) by simp_all
  obtain inv1: "drv_inv api (s1, [a])"
    using probe_bound [OF assms(1,2) room(1) assms(5) d(6,1)] by auto
  obtain xs y r q g where s2: "dll (v_lists s2) (da_list api) (xs @ [y])"
      "v_ctrls s2 = (v_ctrls s1)(y \<mapsto> bound_ctrl api s1 b r q g)" "v_first s2 = v_first s1" "drv_inv api (s2, [a] @ [b])"
    using probe_bound [OF assms(1) inv1 room(2) assms(6) d(7,2)] by metis
  obtain as c bs where s3: "dll (v_lists s2) (da_list api) (as @ c # bs)" "dll (v_lists s3) (da_list api) (as @ bs)"
      "c_pdev (ctl s2 c) = a" "v_ctrls s3 = (v_ctrls s2)(c := None)" "v_first s3 = v_first s2" "drv_inv api (s3, [b])"
    by (rule unbind_inv [OF s2(4), of a]) (use assms(7) d(4) in auto)
  have cy: "c \<noteq> y" using s3(3) s2(2) d(4) by (auto simp: ctl_def)
  then have y: "v_ctrls s3 y = Some (bound_ctrl api s1 b r q g)" using s3(4) s2(2) by simp
  have "xs @ [y] = as @ c # bs" using dll_unique s2(1) s3(1) by blast
  then have yin: "y \<in> set (as @ bs)" using cy by (cases bs rule: rev_cases) auto
  have n: "v_curr s3 = v_curr s1" "v_first s3 = v_first s1"
    using inv_count [OF s3(6)] inv_count [OF inv1] s3(5) s2(3) by simp_all
  have "\<exists>x. x \<noteq> y \<and> c_pdev (ctl s4 x) = d \<and> ctl s4 y = ctl s3 y
      \<and> c_rdev (ctl s4 x) = c_rdev (ctl s4 y) \<and> c_name (ctl s4 x) = c_name (ctl s4 y)"
    if add: "add_pci_dev api d s3 = Inr (s4, 0)" for s4
  proof -
    obtain zs x r' q' g' where s4: "dll (v_lists s3) (da_list api) zs" "x \<notin> set zs"
        "v_ctrls s4 = (v_ctrls s3)(x \<mapsto> bound_ctrl api s3 d r' q' g')"
      using probe_bound [OF assms(1) s3(6) room(3) add d(8,3)] by metis
    have "zs = as @ bs" using dll_unique s4(1) s3(2) by blast
    with yin s4(2) have "x \<noteq> y" by auto
    then show ?thesis using s4(3) y n by (intro exI [of _ x]) (simp add: ctl_def)
  qed
  then show ?thesis using y n by (intro exI [of _ y]) (simp add: ctl_def)
qed

lemma small_name: "da_modname (small_kernel bad) = ''bafs''"
  by (simp add: small_kernel_def)

lemma small_second: "add_pci_dev K5 0xa (added 0x9 (small_loaded 0x5)) = Inr (added 0xa (added 0x9 (small_loaded 0x5)), 0)"
  by (simp add: added_def small_loaded_def drv_eval)

lemma small_removed: "\<exists>s3. remove_pci_dev K5 0x9 (added 0xa (added 0x9 (small_loaded 0x5))) = Some (Inr s3)"
proof -
  have i1: "drv_inv K5 (added 0x9 (small_loaded 0x5), [] @ [0x9])"
    by (rule probe_bound [OF small_kernel_ok small_inv _ small_probe]) (simp_all add: small_room)
  have "drv_inv K5 (added 0xa (added 0x9 (small_loaded 0x5)), ([] @ [0x9]) @ [0xa])"
    by (rule probe_bound [OF small_kernel_ok i1 _ small_second]) (simp_all add: small_room)
  then show ?thesis by (rule unbind_inv [of _ _ _ "0x9"]) auto
qed

theorem numbers_are_reused_witness:
  "\<exists>s3 y. remove_pci_dev K5 0x9 (added 0xa (added 0x9 (small_loaded 0x5))) = Some (Inr s3)
    \<and> c_pdev (ctl s3 y) = 0xa \<and> ctrl_name ''bafs'' (v_curr s3) = c_name (ctl s3 y)"
proof -
  obtain s3 where "remove_pci_dev K5 0x9 (added 0xa (added 0x9 (small_loaded 0x5))) = Some (Inr s3)"
    using small_removed by blast
  with numbers_are_reused [OF small_kernel_ok small_inv _ _ small_probe small_second, of "0xb" s3] show ?thesis
    by (auto simp: small_room small_name)
qed

text \<open>
  C33. The limit on controllers. When num_ctrls are bound, a probe does nothing and returns 0, so the kernel takes the
  device for bound. Removing it then lowers the count all the same, and releases a region that was never
  requested for it.
\<close>

theorem skipped_device_removed:
  assumes "dll (v_lists s) (da_list api) xs" and "\<forall>x \<in> set xs. v_ctrls s x = Some (ctl s x)"
    and "da_num_ctrls api \<le>s v_curr s" and "d \<noteq> NULL" and "\<forall>x \<in> set xs. c_pdev (ctl s x) \<noteq> d"
    and "holds (v_calls s) = Some H" and "PciReleaseRegion d \<notin># H"
  shows "add_pci_dev api d s = Inr (s, 0)
    \<and> (\<exists>s'. remove_pci_dev api d s = Some (Inr s') \<and> v_curr s' = v_curr s - 1 \<and> v_ctrls s' = v_ctrls s
        \<and> holds (v_calls s') = None)"
proof
  show "add_pci_dev api d s = Inr (s, 0)" using assms(3) by (simp add: add_pci_dev_def)
  let ?s1 = "s\<lparr>v_curr := v_curr s - 1\<rparr>"
  have "List.find (\<lambda>x. c_pdev (ctl s x) = d) xs = None" using assms(5) by (simp add: find_None_iff)
  then have "ctrl_find_by_pci_dev (da_list api) d ?s1 = Some (Inr NULL)"
    using find_by_pci_dev [of ?s1 "da_list api" xs "ctl s" d] assms(1,2) by simp
  then have "remove_pci_dev api d s =
      Some (Inr (log_call [PciReleaseRegion d, PciClearMaster d, PciDisableDevice d] ?s1))"
    using assms(4) by (simp add: remove_pci_dev_def ctrl_put_def Let_def)
  then show "\<exists>s'. remove_pci_dev api d s = Some (Inr s') \<and> v_curr s' = v_curr s - 1 \<and> v_ctrls s' = v_ctrls s
      \<and> holds (v_calls s') = None"
    using assms(6,7) by (auto simp: holds_append)
qed

theorem skipped_device_removed_witness:
  "\<exists>s'. remove_pci_dev (small_kernel 0x5\<lparr>da_num_ctrls := 0\<rparr>) 0x9 (small_loaded 0x5) = Some (Inr s')
    \<and> holds (v_calls s') = None"
proof -
  have "dll (v_lists (small_loaded 0x5)) 0x100 []" "v_curr (small_loaded 0x5) = 0"
    using inv_start [OF small_inv] by (auto simp: small_kernel_def)
  then show ?thesis
    using skipped_device_removed [of "small_loaded 0x5" "small_kernel 0x5\<lparr>da_num_ctrls := 0\<rparr>" "[]" "0x9", OF _ _ _ _ _ small_holds]
    by (auto simp: small_kernel_def module_owes_def word_sle_eq)
qed

text \<open>
  C24. Loading the module: with every error code negative, bafs_nvme_init returns 0 or a negative error. On an error
  everything taken is released in reverse; on success the list is empty, and bafs_nvme_exit at once gives back
  everything.
\<close>

theorem module_load_unwinds:
  assumes "kernel_ok api" and "valid (v_lists s) (da_list api)" and "holds (v_calls s) = Some R"
  shows "\<exists>s' e. bafs_nvme_init api s = Inr (s', e) \<and> e \<le> 0
    \<and> (if e < 0 then holds (v_calls s') = Some R
       else dll (v_lists s') (da_list api) [] \<and> holds (v_calls s') = Some (R + module_owes api s')
         \<and> holds (v_calls (bafs_nvme_exit api s')) = Some R)"
  using assms
proof (cases rule: init_runs)
  case (failed s' e)
  then show ?thesis by auto
next
  case (loaded s')
  then have "holds (v_calls (bafs_nvme_exit api s')) = Some R"
    by (simp add: bafs_nvme_exit_def holds_append module_owes_def)
  with loaded show ?thesis by auto
qed

theorem module_load_unwinds_witness:
  "holds (v_calls (bafs_nvme_exit K5 (small_loaded 0x5))) = Some {#}"
  using module_load_unwinds [OF small_kernel_ok, of cold_image "0x5" "{#}"] small_init [of "0x5"] cold_unloaded [of "0x5"]
  by (auto simp: unloaded_def holds_def)



text \<open>
  C26. The file operations of a device file. An inode finds the controller whose cdev it refers to, and no other:
  mmap maps the start of that device's registers, uncached, and refuses a range longer than they are with EINVAL;
  ioctl does nothing; for an inode of no controller both return EBADF.
\<close>

theorem device_file_operations:
  assumes "dll (v_lists s) (da_list api) xs" and "\<forall>x \<in> set xs. v_ctrls s x = Some (C x)"
  shows "fo_mmap (dev_fops api mm) (cdev_of c) v s = Some (Inr (
        if c \<notin> set xs then (v, - 9)
        else if pci_resource_len api (c_pdev (C c)) < vm_end v - vm_start v then (v, - 22)
        else mm_iomap mm (v\<lparr>vm_prot := mm_noncached mm (vm_prot v)\<rparr>)
          (pci_resource_start api (c_pdev (C c))) (vm_end v - vm_start v)))
    \<and> fo_ioctl (dev_fops api mm) (cdev_of c) cmd arg s = Some (Inr (if c \<in> set xs then 0 else - 9))"
proof -
  have f: "ctrl_find_by_inode (da_list api) (cdev_of c) s = Some (Inr (if c \<in> set xs then c else NULL))"
    using find_by_inode [OF assms(1), of "cdev_of c"] by (simp add: cdev_of_def)
  have "c \<noteq> NULL" if "c \<in> set xs" using assms(1) that by (auto simp: dll_def)
  then show ?thesis
    using assms(2) by (auto simp: dev_fops_def mmap_regs_def custom_ioctl_def f ctrl_at_def)
qed

text \<open>An mmap that gives the range it was asked for.\<close>

definition small_mm :: mm_api where
  "small_mm = \<lparr>mm_noncached = (\<lambda>p. p OR 0x18), mm_iomap = (\<lambda>v start n. (v, 0))\<rparr>"

theorem device_file_operations_witness:
  "\<exists>c. fo_mmap (dev_fops K5 small_mm) (cdev_of c) \<lparr>vm_start = 0, vm_end = 0x9000, vm_prot = 1\<rparr> (added 0x9 (small_loaded 0x5)) =
      Some (Inr (\<lparr>vm_start = 0, vm_end = 0x9000, vm_prot = 1\<rparr>, - 22))
    \<and> fo_mmap (dev_fops K5 small_mm) (cdev_of c) \<lparr>vm_start = 0, vm_end = 0x4000, vm_prot = 1\<rparr> (added 0x9 (small_loaded 0x5)) =
      Some (Inr (\<lparr>vm_start = 0, vm_end = 0x4000, vm_prot = 0x19\<rparr>, 0))"
proof -
  have "drv_inv K5 (added 0x9 (small_loaded 0x5), [] @ [0x9])"
    by (rule probe_bound [OF small_kernel_ok small_inv _ small_probe]) (simp_all add: small_room)
  then obtain c where l: "dll (v_lists (added 0x9 (small_loaded 0x5))) (da_list K5) [c]"
    and at: "\<forall>x \<in> set [c]. v_ctrls (added 0x9 (small_loaded 0x5)) x = Some (ctl (added 0x9 (small_loaded 0x5)) x)"
    unfolding drv_inv_def by (auto simp: map_eq_Cons_conv)
  from device_file_operations [OF l at, of small_mm c] show ?thesis
    by (intro exI [of _ c]) (simp add: small_mm_def pci_resource_len_def pci_resource_start_def small_kernel_def)
qed

lemma masked_equal: "((x :: u32) XOR c) AND m = 0 \<longleftrightarrow> x AND m = c AND m"
  by (auto simp: bit_eq_iff bit_simps)


end
