(* ===== verification/Spec2Isabelle.thy ===== *)
theory Spec2Isabelle
  imports Bafs_Error Admin_Race Admin_Net Test_Code Pair_Faults Init_Faults Admin_Clean Module_Props
begin

text \<open>
  The bafs NVMe driver: a Linux kernel module that brings up NVMe controllers and hands their I/O
  queues to applications. This development models the C code of \<open>src/kernel/nvme\<close> and \<open>src/common\<close>.

  The program. \<open>bafs_nvme_mod.c\<close> is the PCI driver: it registers with the kernel, and for every device
  the kernel offers it has \<open>ctrl.c\<close> make a controller, map its registers and create a character
  device. \<open>admin.c\<close> drives the controller's admin queue: it resets and programs the controller,
  submits commands to a ring in shared memory, polls the completion ring, and creates and deletes I/O
  queue pairs. \<open>map.c\<close> pins user memory and maps it for DMA; the host buffers of \<open>admin.c\<close> put PRP
  lists on top. \<open>list.c\<close> is the intrusive list both controllers and buffers are kept on.

  Conventions. C integers are words of their width; addresses are 64-bit words with 0 as NULL. An
  operation that can run into undefined behaviour (a NULL or wild pointer, an array bound, a lock taken
  twice, memory that was freed) returns \<open>fault + 'a\<close>; one with a loop that may not end returns an option
  around that, and \<open>None\<close> is running for ever. There is no fuel: loops are \<open>partial_function\<close>s where
  they depend on the device or on aliased memory, and structural or measured otherwise, and every theorem that
  an operation returns says so as \<open>Some (Inr _)\<close> or \<open>Inr _\<close>. \<open>printk\<close> has no counterpart.

  The world outside is a parameter: what the kernel answers to each call (a record of functions of the
  calls made before), what the controller does in one turn, what is in memory that nobody has initialised.
  Theorems state what they need of it: \<open>serves\<close> (a controller that completes commands), \<open>regs_respond\<close> (CSTS
  follows CC), \<open>mem_plenty\<close> (allocations succeed), \<open>mem_fresh\<close> (they do not return memory in use),
  \<open>map_api_ok\<close>, \<open>kernel_ok\<close>. Each theorem with such a hypothesis is applied to a concrete world.

  The theories, from the bottom up:

  \<^item> \<open>Prelude\<close>: the types, \<open>fault\<close> and sequencing, array accesses, word lemmas, and the locales of
    steps that keep an invariant and of steps simulated by a specification, which the transition systems below instantiate.
  \<^item> \<open>Bafs_Utils\<close> (\<open>bafs_utils.h\<close>): the bit field macros, and that they read the fields they name.
  \<^item> \<open>Bafs_Error\<close> (\<open>bafs_error.h\<close>): decoding of completion status; no table is indexed out of bounds.
  \<^item> \<open>Regs\<close> (\<open>regs.h\<close>): the offsets of the register struct's members, which do not overlap.
  \<^item> \<open>Intrusive_List\<close> (\<open>list.h\<close>, \<open>list.c\<close>): nodes in a heap; insertion, removal and the search loop on
    well-formed lists, with frame lemmas for lists with other nodes. The locale \<open>intrusive_list\<close> is what clients use.
  \<^item> \<open>Queue_Types\<close> (\<open>queue.h\<close>, \<open>admin.h\<close>), \<open>Slot_Table\<close> (the loops over marks and ids), \<open>Admin_Queue\<close> (enqueue,
    clean-up and poll of \<open>admin.c\<close>, as written).
  \<^item> \<open>Ring\<close>, \<open>Submission\<close>, \<open>Completion\<close>: a ring seen as a list of occupied slots; the submission operations
    refine an abstract queue of commands in flight, and every interleaving of host threads and controller keeps the
    invariant and is a run of that queue; posting, polling and reclaiming completions, with the phase tag.
  \<^item> \<open>Admin_Commands\<close>: the synchronous commands. The locale \<open>command_channel\<close> is the contract between
    them and the queue: a command that the controller answers returns and leaves the queue idle. It is for one thread at a time:
    \<open>Admin_Race\<close> shows what a second thread can meet between the two clean-ups of a command.
  \<^item> \<open>Admin_Net\<close>: both rings, host threads and a controller with a state of its own as one transition system. The completion
    ring implements a queue of completions, whatever old value of the head the controller has read; projected to
    the driver its runs are runs of the submission side; it may start from the queue \<open>admin_init\<close> leaves. Also what is
    lost when a completion that is done with stays in the ring.
  \<^item> \<open>Kernel\<close>: the kernel's services, the log of calls, and \<open>holds\<close>: what the driver still has to release
    after a log, or that it released something it did not hold.
  \<^item> \<open>Io_Queues\<close>: creation and deletion of I/O queue pairs, as runs of the channel; what they send,
    mark, allocate and free. \<open>Pair_Faults\<close>: creation without memory, and two threads that delete the same pair. \<open>Ownership\<close>: the log of calls is in step with the marks, whatever is created and deleted.
  \<^item> \<open>Admin_Init\<close>, \<open>Admin_Clean\<close>: bringing the controller up, and taking the queue down again; their life
    together releases all memory. \<open>Init_Faults\<close>: bring-up without memory or with a controller that does not follow.
  \<^item> \<open>Dma_Map\<close> (\<open>map.h\<close>, \<open>map.c\<close>): pinning and mapping user memory, and the release, on every error path.
  \<^item> \<open>Iobuf\<close> (\<open>iobuf.h\<close>, \<open>admin.c\<close>): host buffers and their PRP lists.
  \<^item> \<open>Ctrl\<close> (\<open>ctrl.h\<close>, \<open>ctrl.c\<close>), \<open>Module\<close> (\<open>bafs_nvme_mod.c\<close>), \<open>Module_Props\<close>: controllers, character
    devices, probe and removal, loading and unloading, the file operations. The invariant of the
    driver's state holds over any sequence of probes and removals with any of the kernel's calls failing.
  \<^item> \<open>Test_Code\<close>: what is compiled only under TEST and TEST2, with NVIDIA's driver as a parameter.

  Bounds. Rings have the size the controller reports, at most 4096 as the code clamps it; the theorems about
  running queues need a size that divides 65536, because the code's test for a full ring is exact only
  then (which is proved, with a size where it fails). Mappings are of at most 2^60 pages, below which the size
  computations do not wrap; PRP lists are of fewer than 2^32 entries of at most 512 pages.

  Where the code does not do what it means to, the theorems say what it does: the theories' claims name these places.

  Not modelled. The device entry under INTERNAL_TESTING, and the
  branches for kernels before 4.9. \<open>BAFS_CQ_PHASE\<close> of \<open>bafs_utils.h\<close>, which ANDs a pointer with 1 and
  is used by no code. Weak memory ordering: \<open>barrier()\<close> and \<open>volatile\<close> are taken as a sequentially
  consistent order of accesses. The undeclared \<open>mpsmin\<close> of \<open>admin_init\<close> is taken as a local \<open>u32\<close>.
\<close>

end
